(* ===== verification/Yfs_Prelude.thy ===== *)
theory Yfs_Prelude
  imports Main "HOL-Library.Word"
begin

text \<open>
  Shared vocabulary of the development: machine integers and bytes, the faults a C++ operation can
  end in, the sequencing of fallible operations, and the generic lemmas on lists and words that the
  component theories use.

  A C++ function that can abort (\<^verbatim>\<open>VERIFY\<close>, \<^verbatim>\<open>src/lang/verify.h\<close>), throw, or reach undefined
  behaviour is a HOL function into \<open>fault + 'a\<close>; \<open>Inl\<close> is the fault, \<open>Inr\<close> the ordinary result.
\<close>

unbundle bit_operations_syntax

section \<open>Machine types\<close>

type_synonym byte = "8 word"
type_synonym u16 = "16 word"
type_synonym u32 = "32 word"
type_synonym u64 = "64 word"

text \<open>Objects that several owners refer to are named by addresses.\<close>

type_synonym addr = nat

text \<open>A \<^verbatim>\<open>std::string\<close> holds \<^verbatim>\<open>char\<close>s; the wire and the RPC buffers hold the same values as bytes.\<close>

definition byte_of_char :: "char \<Rightarrow> byte" where
  "byte_of_char c = word_of_nat (of_char c)"

definition char_of_byte :: "byte \<Rightarrow> char" where
  "char_of_byte b = char_of (unat b)"

section \<open>Faults and sequencing\<close>

datatype fault =
    Verify_Failed   \<comment> \<open>a \<^verbatim>\<open>VERIFY\<close> or \<^verbatim>\<open>assert\<close> that does not hold: the process aborts\<close>
  | Wild_Access     \<comment> \<open>a read or write outside the allocated block\<close>
  | Null_Access     \<comment> \<open>a dereference of a null pointer\<close>
  | End_Deref       \<comment> \<open>a dereference of a container's past-the-end iterator\<close>
  | Std_Exception   \<comment> \<open>an exception of the standard library that nothing catches\<close>

definition rbind :: "fault + 'a \<Rightarrow> ('a \<Rightarrow> fault + 'b) \<Rightarrow> fault + 'b" where
  "rbind r f = (case r of Inl e \<Rightarrow> Inl e | Inr x \<Rightarrow> f x)"

definition verify :: "bool \<Rightarrow> fault + unit" where
  "verify b = (if b then Inr () else Inl Verify_Failed)"

named_theorems res_simps \<open>evaluation of fallible steps\<close>

lemma rbind_simps [simp, res_simps]:
  "rbind (Inr x) f = f x"
  "rbind (Inl e) f = Inl e"
  by (simp_all add: rbind_def)

lemma rbind_eq_Inr: "rbind r f = Inr y \<longleftrightarrow> (\<exists>x. r = Inr x \<and> f x = Inr y)"
  by (cases r) simp_all

lemma rbind_assoc: "rbind (rbind r f) g = rbind r (\<lambda>x. rbind (f x) g)"
  by (cases r) simp_all

lemma verify_simps [simp, res_simps]:
  "verify True = Inr ()"
  "verify False = Inl Verify_Failed"
  by (simp_all add: verify_def)

section \<open>Bytes and characters\<close>

lemma char_of_byte_of_char [simp]: "char_of_byte (byte_of_char c) = c"
proof -
  have "unat (word_of_nat (of_char c) :: byte) = of_char c mod 2 ^ 8"
    by (simp add: unat_of_nat)
  also have "\<dots> = (of_char c :: nat)"
    using of_char_mod_256 [of c, where ?'a = nat] by simp
  finally show ?thesis by (simp add: char_of_byte_def byte_of_char_def)
qed

lemma map_char_of_byte [simp]: "map (char_of_byte \<circ> byte_of_char) s = s"
  by (induction s) simp_all

section \<open>Lists\<close>

text \<open>Overwriting a run of cells; the effect of \<^verbatim>\<open>memcpy\<close> inside a block.\<close>

definition overwrite :: "'a list \<Rightarrow> nat \<Rightarrow> 'a list \<Rightarrow> 'a list" where
  "overwrite xs i ys = take i xs @ ys @ drop (i + length ys) xs"

lemma length_overwrite [simp]:
  "i + length ys \<le> length xs \<Longrightarrow> length (overwrite xs i ys) = length xs"
  by (simp add: overwrite_def)

lemma overwrite_Nil [simp]: "overwrite xs i [] = xs"
  by (simp add: overwrite_def)

lemma overwrite_singleton: "i < length xs \<Longrightarrow> xs[i := y] = overwrite xs i [y]"
  by (simp add: overwrite_def upd_conv_take_nth_drop)

lemma take_overwrite_end:
  "i + length ys \<le> length xs \<Longrightarrow> take (i + length ys) (overwrite xs i ys) = take i xs @ ys"
  by (simp add: overwrite_def)

lemma overwrite_append:
  assumes "i + length ys + length zs \<le> length xs"
  shows "overwrite (overwrite xs i ys) (i + length ys) zs = overwrite xs i (ys @ zs)"
  using assms by (simp add: overwrite_def min_absorb2 add.assoc add.commute add.left_commute)

lemma take_overwrite:
  assumes "i + length ys \<le> n" "n \<le> length xs"
  shows "take n (overwrite xs i ys) = overwrite (take n xs) i ys"
proof -
  have "i \<le> n" "length ys \<le> n - i" using assms(1) by simp_all
  with assms(2) show ?thesis by (simp add: overwrite_def min_absorb2 drop_take)
qed

lemma nth_overwrite:
  assumes "i + length ys \<le> length xs" "k < length xs"
  shows "overwrite xs i ys ! k = (if i \<le> k \<and> k < i + length ys then ys ! (k - i) else xs ! k)"
  using assms by (auto simp: overwrite_def nth_append min_def)

section \<open>Association lists kept in key order, the model of \<^verbatim>\<open>std::map\<close> where the order shows\<close>

fun map_insert :: "'k::linorder \<Rightarrow> 'v \<Rightarrow> ('k \<times> 'v) list \<Rightarrow> ('k \<times> 'v) list" where
  "map_insert k v [] = [(k, v)]"
| "map_insert k v ((k', v') # d) =
     (if k < k' then (k, v) # (k', v') # d
      else if k = k' then (k, v) # d
      else (k', v') # map_insert k v d)"

abbreviation key_sorted :: "('k::linorder \<times> 'v) list \<Rightarrow> bool" where
  "key_sorted d \<equiv> sorted_wrt (<) (map fst d)"

lemma map_of_map_insert [simp]: "map_of (map_insert k v d) = (map_of d)(k \<mapsto> v)"
  by (induction k v d rule: map_insert.induct) (auto simp: fun_eq_iff)

lemma fst_set_map_insert: "fst ` set (map_insert k v d) = insert k (fst ` set d)"
  by (induction k v d rule: map_insert.induct) auto

lemma key_sorted_map_insert: "key_sorted d \<Longrightarrow> key_sorted (map_insert k v d)"
proof (induction k v d rule: map_insert.induct)
  case (2 k v k' v' d)
  have "\<forall>a \<in> fst ` set (map_insert k v d). k' < a" if "k' < k"
    using "2.prems" that by (simp add: fst_set_map_insert)
  with 2 show ?case by (auto dest: order.strict_trans)
qed simp

lemma map_insert_snoc:
  "\<forall>k' \<in> fst ` set d. k' < k \<Longrightarrow> map_insert k v d = d @ [(k, v)]"
  by (induction k v d rule: map_insert.induct) auto

lemma word_less_succ: "x \<noteq> -1 \<Longrightarrow> x < x + (1 :: 'a::len word)"
  by (meson inc_less_eq_triv_imp not_less)

end
