(* ===== verification/Fifo.thy ===== *)
theory Fifo
  imports Yfs_Prelude
begin

text \<open>
  The bounded blocking queue \<^verbatim>\<open>fifo<T>\<close> of \<^verbatim>\<open>src/rpc/fifo.h\<close>. One pass of the loop in \<^verbatim>\<open>enq\<close> or \<^verbatim>\<open>deq\<close> runs
  under the mutex and is a function; the condition variables \<^verbatim>\<open>non_empty_c_\<close> and \<^verbatim>\<open>has_space_c_\<close> are the
  sets of threads that sleep on them, and threads interleave by a step relation in which a signal wakes
  one sleeper, if there is one, and a sleeper may also wake spuriously, as POSIX allows.
\<close>

section \<open>The queue\<close>

record 'a fifo =
  fifo_q :: "'a list"
  fifo_max :: u32

definition fifo_new :: "u32 \<Rightarrow> 'a fifo" where
  "fifo_new limit = \<lparr>fifo_q = [], fifo_max = limit\<rparr>"

text \<open>\<^verbatim>\<open>size\<close> is declared \<^verbatim>\<open>bool\<close>: the number of elements is converted to whether there are any.\<close>

definition fifo_size :: "'a fifo \<Rightarrow> bool" where
  "fifo_size f \<longleftrightarrow> length (fifo_q f) \<noteq> 0"

datatype enq_outcome = Pushed | Must_Wait | Refused

definition enq_pass :: "'a \<Rightarrow> bool \<Rightarrow> 'a fifo \<Rightarrow> 'a fifo \<times> enq_outcome" where
  "enq_pass e blocking f =
     (if fifo_max f = 0 \<or> length (fifo_q f) < unat (fifo_max f) then (f\<lparr>fifo_q := fifo_q f @ [e]\<rparr>, Pushed)
      else if blocking then (f, Must_Wait)
      else (f, Refused))"

text \<open>The element taken, and whether \<^verbatim>\<open>has_space_c_\<close> is signalled; \<^term>\<open>None\<close> when the caller must wait.\<close>

definition deq_pass :: "'a fifo \<Rightarrow> 'a fifo \<times> ('a \<times> bool) option" where
  "deq_pass f =
     (case fifo_q f of
        [] \<Rightarrow> (f, None)
      | e # q \<Rightarrow> (f\<lparr>fifo_q := q\<rparr>, Some (e, fifo_max f \<noteq> 0 \<and> length q < unat (fifo_max f))))"

section \<open>Threads\<close>

datatype 'a fifo_thread =
    In_Enq 'a bool          \<comment> \<open>inside \<^verbatim>\<open>enq(e, blocking)\<close>, about to run a pass of the loop\<close>
  | Sleeps_Space 'a         \<comment> \<open>inside \<^verbatim>\<open>enq(e, true)\<close>, asleep on \<^verbatim>\<open>has_space_c_\<close>\<close>
  | In_Deq                  \<comment> \<open>inside \<^verbatim>\<open>deq\<close>, about to run a pass of the loop\<close>
  | Sleeps_Empty            \<comment> \<open>inside \<^verbatim>\<open>deq\<close>, asleep on \<^verbatim>\<open>non_empty_c_\<close>\<close>
  | Enq_Returned bool
  | Deq_Returned 'a

type_synonym tid = nat
type_synonym 'a fifo_state = "'a fifo \<times> (tid \<rightharpoonup> 'a fifo_thread)"

datatype 'a fifo_event = Ev_Push 'a | Ev_Pop 'a | Ev_Tau

text \<open>A signal wakes one of the threads of a set of sleepers, or nobody when there is none.\<close>

definition wakes :: "('a fifo_thread \<Rightarrow> 'a fifo_thread option) \<Rightarrow> (tid \<rightharpoonup> 'a fifo_thread) \<Rightarrow> (tid \<rightharpoonup> 'a fifo_thread) \<Rightarrow> bool" where
  "wakes w T T' \<longleftrightarrow>
     (\<exists>t a b. T t = Some a \<and> w a = Some b \<and> T' = T(t \<mapsto> b)) \<or>
     ((\<forall>t a. T t = Some a \<longrightarrow> w a = None) \<and> T' = T)"

fun wake_deq :: "'a fifo_thread \<Rightarrow> 'a fifo_thread option" where
  "wake_deq Sleeps_Empty = Some In_Deq"
| "wake_deq _ = None"

fun wake_enq :: "'a fifo_thread \<Rightarrow> 'a fifo_thread option" where
  "wake_enq (Sleeps_Space e) = Some (In_Enq e True)"
| "wake_enq _ = None"

inductive fifo_step :: "'a fifo_state \<Rightarrow> 'a fifo_event \<Rightarrow> 'a fifo_state \<Rightarrow> bool" where
  call_enq: "T t = None \<Longrightarrow> fifo_step (f, T) Ev_Tau (f, T(t \<mapsto> In_Enq e b))"
| call_deq: "T t = None \<Longrightarrow> fifo_step (f, T) Ev_Tau (f, T(t \<mapsto> In_Deq))"
| enq_push: "T t = Some (In_Enq e b) \<Longrightarrow> enq_pass e b f = (f', Pushed) \<Longrightarrow>
     wakes wake_deq (T(t \<mapsto> Enq_Returned True)) T' \<Longrightarrow> fifo_step (f, T) (Ev_Push e) (f', T')"
| enq_wait: "T t = Some (In_Enq e b) \<Longrightarrow> enq_pass e b f = (f', Must_Wait) \<Longrightarrow>
     fifo_step (f, T) Ev_Tau (f', T(t \<mapsto> Sleeps_Space e))"
| enq_refuse: "T t = Some (In_Enq e b) \<Longrightarrow> enq_pass e b f = (f', Refused) \<Longrightarrow>
     fifo_step (f, T) Ev_Tau (f', T(t \<mapsto> Enq_Returned False))"
| deq_wait: "T t = Some In_Deq \<Longrightarrow> deq_pass f = (f', None) \<Longrightarrow>
     fifo_step (f, T) Ev_Tau (f', T(t \<mapsto> Sleeps_Empty))"
| deq_pop_signal: "T t = Some In_Deq \<Longrightarrow> deq_pass f = (f', Some (e, True)) \<Longrightarrow>
     wakes wake_enq (T(t \<mapsto> Deq_Returned e)) T' \<Longrightarrow> fifo_step (f, T) (Ev_Pop e) (f', T')"
| deq_pop_quiet: "T t = Some In_Deq \<Longrightarrow> deq_pass f = (f', Some (e, False)) \<Longrightarrow>
     fifo_step (f, T) (Ev_Pop e) (f', T(t \<mapsto> Deq_Returned e))"
| spurious_deq: "T t = Some a \<Longrightarrow> wake_deq a = Some b \<Longrightarrow> fifo_step (f, T) Ev_Tau (f, T(t \<mapsto> b))"
| spurious_enq: "T t = Some a \<Longrightarrow> wake_enq a = Some b \<Longrightarrow> fifo_step (f, T) Ev_Tau (f, T(t \<mapsto> b))"
| leave: "T t = Some (Enq_Returned r) \<or> T t = Some (Deq_Returned e) \<Longrightarrow>
     fifo_step (f, T) Ev_Tau (f, T(t := None))"

inductive fifo_run :: "'a fifo_state \<Rightarrow> 'a fifo_event list \<Rightarrow> 'a fifo_state \<Rightarrow> bool" where
  run_refl: "fifo_run s [] s"
| run_step: "fifo_run s es s' \<Longrightarrow> fifo_step s' e s'' \<Longrightarrow> fifo_run s (es @ [e]) s''"

fun pushes :: "'a fifo_event list \<Rightarrow> 'a list" where
  "pushes [] = []"
| "pushes (Ev_Push e # es) = e # pushes es"
| "pushes (_ # es) = pushes es"

fun pops :: "'a fifo_event list \<Rightarrow> 'a list" where
  "pops [] = []"
| "pops (Ev_Pop e # es) = e # pops es"
| "pops (_ # es) = pops es"

section \<open>The interface of a bounded queue\<close>

locale bounded_queue =
  fixes put :: "'a \<Rightarrow> bool \<Rightarrow> 'q \<Rightarrow> 'q \<times> enq_outcome"
    and get :: "'q \<Rightarrow> 'q \<times> ('a \<times> bool) option"
    and contents :: "'q \<Rightarrow> 'a list"
    and has_room :: "'q \<Rightarrow> bool"
  assumes put_room: "has_room q \<Longrightarrow> snd (put e b q) = Pushed \<and> contents (fst (put e b q)) = contents q @ [e]"
    and put_full: "\<not> has_room q \<Longrightarrow> put e b q = (q, if b then Must_Wait else Refused)"
    and get_empty: "contents q = [] \<Longrightarrow> get q = (q, None)"
    and get_front: "contents q = e # es \<Longrightarrow> \<exists>q' s. get q = (q', Some (e, s)) \<and> contents q' = es"
begin

lemma put_pushed: "put e b q = (q', Pushed) \<Longrightarrow> contents q' = contents q @ [e]"
  using put_room [of q e b] put_full [of q e b] by (cases "has_room q") (auto split: if_splits)

lemma put_pushed_iff: "snd (put e b q) = Pushed \<longleftrightarrow> has_room q"
  using put_room [of q e b] put_full [of q e b] by (cases "has_room q") auto

lemma put_not_pushed: "put e b q = (q', r) \<Longrightarrow> r \<noteq> Pushed \<Longrightarrow> q' = q \<and> r = (if b then Must_Wait else Refused)"
  using put_room [of q e b] put_full [of q e b] by (cases "has_room q") auto

lemma get_None: "get q = (q', None) \<Longrightarrow> q' = q \<and> contents q = []"
  using get_empty [of q] get_front [of q] by (cases "contents q") auto

lemma get_Some: "get q = (q', Some (e, s)) \<Longrightarrow> contents q = e # contents q'"
  using get_empty [of q] get_front [of q] by (cases "contents q") fastforce+

end

definition has_space :: "'a fifo \<Rightarrow> bool" where
  "has_space f \<longleftrightarrow> fifo_max f = 0 \<or> length (fifo_q f) < unat (fifo_max f)"

interpretation fq: bounded_queue enq_pass deq_pass fifo_q has_space
  by unfold_locales (auto simp: enq_pass_def deq_pass_def has_space_def)

section \<open>First in, first out\<close>

inductive_cases fifo_stepE: "fifo_step s e s'"

lemma pushes_append [simp]: "pushes (xs @ ys) = pushes xs @ pushes ys"
  by (induction xs rule: pushes.induct) simp_all

lemma pops_append [simp]: "pops (xs @ ys) = pops xs @ pops ys"
  by (induction xs rule: pops.induct) simp_all

lemma fifo_step_queue:
  "fifo_step s e s' \<Longrightarrow> pops [e] @ fifo_q (fst s') = fifo_q (fst s) @ pushes [e]"
  by (erule fifo_stepE) (auto dest: fq.put_pushed fq.put_not_pushed fq.get_None fq.get_Some)

lemma fifo_step_max: "fifo_step s e s' \<Longrightarrow> fifo_max (fst s') = fifo_max (fst s)"
  by (erule fifo_stepE) (auto simp: enq_pass_def deq_pass_def split: if_splits list.splits)

lemma fifo_run_max: "fifo_run s es s' \<Longrightarrow> fifo_max (fst s') = fifo_max (fst s)"
  by (induction rule: fifo_run.induct) (simp_all add: fifo_step_max)

lemma fifo_run_queue: "fifo_run s es s' \<Longrightarrow> pops es @ fifo_q (fst s') = fifo_q (fst s) @ pushes es"
proof (induction rule: fifo_run.induct)
  case (run_step s es s' e s'')
  have "pops (es @ [e]) @ fifo_q (fst s'') = pops es @ (pops [e] @ fifo_q (fst s''))" by simp
  also have "\<dots> = pops es @ fifo_q (fst s') @ pushes [e]"
    using fifo_step_queue [OF run_step.hyps(2)] by simp
  also have "\<dots> = (pops es @ fifo_q (fst s')) @ pushes [e]" by simp
  also have "\<dots> = fifo_q (fst s) @ pushes (es @ [e])" by (simp add: run_step.IH)
  finally show ?case .
qed simp

lemma fifo_step_bounded:
  assumes "fifo_step s e s'" "fifo_max (fst s) = 0 \<or> length (fifo_q (fst s)) \<le> unat (fifo_max (fst s))"
  shows "fifo_max (fst s') = 0 \<or> length (fifo_q (fst s')) \<le> unat (fifo_max (fst s'))"
  using assms by (elim fifo_stepE) (auto simp: enq_pass_def deq_pass_def split: if_splits list.splits)

section \<open>Wake-ups\<close>

definition thr_count :: "('a fifo_thread \<Rightarrow> bool) \<Rightarrow> (tid \<rightharpoonup> 'a fifo_thread) \<Rightarrow> nat" where
  "thr_count P T = card {t \<in> dom T. P (the (T t))}"

definition sleeps_empty :: "'a fifo_thread \<Rightarrow> bool" where "sleeps_empty a \<longleftrightarrow> a = Sleeps_Empty"
definition sleeps_space :: "'a fifo_thread \<Rightarrow> bool" where "sleeps_space a \<longleftrightarrow> (\<exists>e. a = Sleeps_Space e)"
definition in_deq :: "'a fifo_thread \<Rightarrow> bool" where "in_deq a \<longleftrightarrow> a = In_Deq"
definition in_enq :: "'a fifo_thread \<Rightarrow> bool" where "in_enq a \<longleftrightarrow> (\<exists>e b. a = In_Enq e b)"

lemmas thread_kinds = sleeps_empty_def sleeps_space_def in_deq_def in_enq_def

text \<open>
  No wake-up is lost: while a consumer sleeps, every queued element has an awake consumer to take it;
  while a producer sleeps, every free slot has an awake producer to fill it.
\<close>

definition fifo_wake_inv :: "'a fifo_state \<Rightarrow> bool" where
  "fifo_wake_inv s \<longleftrightarrow> (case s of (f, T) \<Rightarrow>
     finite (dom T) \<and>
     (thr_count sleeps_empty T > 0 \<longrightarrow> length (fifo_q f) \<le> thr_count in_deq T) \<and>
     (thr_count sleeps_space T > 0 \<longrightarrow>
        fifo_max f \<noteq> 0 \<and> unat (fifo_max f) \<le> length (fifo_q f) + thr_count in_enq T))"

lemma thr_count_upd:
  assumes "finite (dom T)" "T t = Some a"
  shows "thr_count P (T(t \<mapsto> b)) + of_bool (P a) = thr_count P T + of_bool (P b)"
proof -
  let ?S = "{u \<in> dom T - {t}. P (the (T u))}"
  have fin: "finite ?S" using assms(1) by simp
  have "{u \<in> dom (T(t \<mapsto> b)). P (the ((T(t \<mapsto> b)) u))} = (if P b then insert t ?S else ?S)" by auto
  moreover have "{u \<in> dom T. P (the (T u))} = (if P a then insert t ?S else ?S)"
    using assms(2) by (auto simp: domIff)
  ultimately show ?thesis using fin by (simp add: thr_count_def)
qed

lemma thr_count_new:
  assumes "finite (dom T)" "T t = None"
  shows "thr_count P (T(t \<mapsto> b)) = thr_count P T + of_bool (P b)"
proof -
  let ?S = "{u \<in> dom T. P (the (T u))}"
  have "finite ?S" "t \<notin> ?S" using assms by auto
  moreover have "{u \<in> dom (T(t \<mapsto> b)). P (the ((T(t \<mapsto> b)) u))} = (if P b then insert t ?S else ?S)"
    using assms(2) by (auto simp: domIff)
  ultimately show ?thesis by (simp add: thr_count_def)
qed

lemma thr_count_drop:
  assumes "T t = Some a" "\<not> P a"
  shows "thr_count P (T(t := None)) = thr_count P T"
proof -
  have "{u \<in> dom (T(t := None)). P (the ((T(t := None)) u))} = {u \<in> dom T. P (the (T u))}"
    using assms by (auto split: if_splits)
  then show ?thesis by (simp add: thr_count_def)
qed

lemma thr_count_zero:
  assumes "finite (dom T)" "\<And>t a. T t = Some a \<Longrightarrow> \<not> P a"
  shows "thr_count P T = 0"
  using assms by (auto simp: thr_count_def)

lemma wake_deq_iff: "wake_deq a = Some b \<longleftrightarrow> a = Sleeps_Empty \<and> b = In_Deq"
  by (cases a) auto

lemma wake_enq_iff: "wake_enq a = Some b \<longleftrightarrow> (\<exists>e. a = Sleeps_Space e \<and> b = In_Enq e True)"
  by (cases a) auto

text \<open>What a signal does to the number of sleepers \<open>Sl\<close>, of woken threads \<open>Aw\<close>, and of any other kind \<open>P\<close>.\<close>

lemma wakes_counts:
  assumes "wakes w T T'" "finite (dom T)"
    and w: "\<And>a b. w a = Some b \<Longrightarrow> \<not> Aw a \<and> Aw b \<and> (P b \<longleftrightarrow> P a) \<and> Sl a \<and> \<not> Sl b" "\<And>a. w a = None \<Longrightarrow> \<not> Sl a"
  shows "finite (dom T') \<and> thr_count P T' = thr_count P T \<and>
    (thr_count Sl T' = 0 \<and> thr_count Aw T' = thr_count Aw T \<or>
     thr_count Sl T = thr_count Sl T' + 1 \<and> thr_count Aw T' = thr_count Aw T + 1)"
  using assms(1) unfolding wakes_def
proof (elim disjE exE conjE)
  fix t a b assume ta: "T t = Some a" "w a = Some b" "T' = T(t \<mapsto> b)"
  show ?thesis
    using thr_count_upd [OF assms(2) ta(1), of P b] thr_count_upd [OF assms(2) ta(1), of Aw b]
      thr_count_upd [OF assms(2) ta(1), of Sl b] w(1) [OF ta(2)] assms(2) by (simp add: ta(3))
next
  assume none: "\<forall>t a. T t = Some a \<longrightarrow> w a = None" "T' = T"
  have "thr_count Sl T' = 0" using none assms(2) w(2) by (intro thr_count_zero) auto
  with none assms(2) show ?thesis by simp
qed

lemma wakes_deq_counts:
  assumes "wakes wake_deq T T'" "finite (dom T)"
  shows "finite (dom T') \<and> thr_count sleeps_space T' = thr_count sleeps_space T \<and>
    thr_count in_enq T' = thr_count in_enq T \<and>
    (thr_count sleeps_empty T' = 0 \<and> thr_count in_deq T' = thr_count in_deq T \<or>
     thr_count sleeps_empty T = thr_count sleeps_empty T' + 1 \<and> thr_count in_deq T' = thr_count in_deq T + 1)"
proof -
  have none: "wake_deq a = None \<Longrightarrow> \<not> sleeps_empty a" for a :: "'a fifo_thread"
    by (cases a) (simp_all add: thread_kinds)
  have "finite (dom T') \<and> thr_count P T' = thr_count P T \<and>
    (thr_count sleeps_empty T' = 0 \<and> thr_count in_deq T' = thr_count in_deq T \<or>
     thr_count sleeps_empty T = thr_count sleeps_empty T' + 1 \<and> thr_count in_deq T' = thr_count in_deq T + 1)"
    if "P = sleeps_space \<or> P = in_enq" for P
    using none that by (intro wakes_counts [OF assms]) (auto simp: wake_deq_iff thread_kinds)
  from this [of sleeps_space] this [of in_enq] show ?thesis by simp
qed

lemma wakes_enq_counts:
  assumes "wakes wake_enq T T'" "finite (dom T)"
  shows "finite (dom T') \<and> thr_count sleeps_empty T' = thr_count sleeps_empty T \<and>
    thr_count in_deq T' = thr_count in_deq T \<and>
    (thr_count sleeps_space T' = 0 \<and> thr_count in_enq T' = thr_count in_enq T \<or>
     thr_count sleeps_space T = thr_count sleeps_space T' + 1 \<and> thr_count in_enq T' = thr_count in_enq T + 1)"
proof -
  have none: "wake_enq a = None \<Longrightarrow> \<not> sleeps_space a" for a :: "'a fifo_thread"
    by (cases a) (simp_all add: thread_kinds)
  have "finite (dom T') \<and> thr_count P T' = thr_count P T \<and>
    (thr_count sleeps_space T' = 0 \<and> thr_count in_enq T' = thr_count in_enq T \<or>
     thr_count sleeps_space T = thr_count sleeps_space T' + 1 \<and> thr_count in_enq T' = thr_count in_enq T + 1)"
    if "P = sleeps_empty \<or> P = in_deq" for P
    using none that by (intro wakes_counts [OF assms]) (auto simp: wake_enq_iff thread_kinds)
  from this [of sleeps_empty] this [of in_deq] show ?thesis by simp
qed

lemma counts_upd:
  assumes "finite (dom T)" "T t = Some a"
  shows "thr_count sleeps_empty (T(t \<mapsto> b)) + of_bool (sleeps_empty a) = thr_count sleeps_empty T + of_bool (sleeps_empty b)"
    "thr_count sleeps_space (T(t \<mapsto> b)) + of_bool (sleeps_space a) = thr_count sleeps_space T + of_bool (sleeps_space b)"
    "thr_count in_deq (T(t \<mapsto> b)) + of_bool (in_deq a) = thr_count in_deq T + of_bool (in_deq b)"
    "thr_count in_enq (T(t \<mapsto> b)) + of_bool (in_enq a) = thr_count in_enq T + of_bool (in_enq b)"
  using assms by (rule thr_count_upd)+

lemma fifo_step_wake_inv:
  assumes "fifo_step s e s'" "fifo_wake_inv s"
  shows "fifo_wake_inv s'"
  using assms
proof (cases rule: fifo_step.cases)
  case (call_enq T t f e b)
  with assms(2) show ?thesis by (auto simp: fifo_wake_inv_def thr_count_new thread_kinds)
next
  case (call_deq T t f)
  with assms(2) show ?thesis by (auto simp: fifo_wake_inv_def thr_count_new thread_kinds)
next
  case (enq_push T t e b f f' T')
  let ?T = "T(t \<mapsto> Enq_Returned True)"
  have fin: "finite (dom T)" using assms(2) enq_push(1) by (simp add: fifo_wake_inv_def)
  have q: "length (fifo_q f') = length (fifo_q f) + 1" "fifo_max f' = fifo_max f"
    using enq_push(5) by (auto simp: enq_pass_def split: if_splits)
  from fin wakes_deq_counts [OF enq_push(6)] counts_upd [OF fin enq_push(4), of "Enq_Returned True"] assms(2) q
  show ?thesis unfolding enq_push(1,3) by (auto simp: fifo_wake_inv_def thread_kinds)
next
  case (enq_wait T t e b f f')
  have fin: "finite (dom T)" using assms(2) enq_wait(1) by (simp add: fifo_wake_inv_def)
  have q: "f' = f" "fifo_max f \<noteq> 0" "unat (fifo_max f) \<le> length (fifo_q f)"
    using enq_wait(5) by (auto simp: enq_pass_def split: if_splits)
  from fin counts_upd [OF fin enq_wait(4), of "Sleeps_Space e"] assms(2) q
  show ?thesis unfolding enq_wait(1,3) by (auto simp: fifo_wake_inv_def thread_kinds)
next
  case (enq_refuse T t e b f f')
  have fin: "finite (dom T)" using assms(2) enq_refuse(1) by (simp add: fifo_wake_inv_def)
  have q: "f' = f" "fifo_max f \<noteq> 0" "unat (fifo_max f) \<le> length (fifo_q f)"
    using enq_refuse(5) by (auto simp: enq_pass_def split: if_splits)
  from fin counts_upd [OF fin enq_refuse(4), of "Enq_Returned False"] assms(2) q
  show ?thesis unfolding enq_refuse(1,3) by (auto simp: fifo_wake_inv_def thread_kinds)
next
  case (deq_wait T t f f')
  have fin: "finite (dom T)" using assms(2) deq_wait(1) by (simp add: fifo_wake_inv_def)
  from fin counts_upd [OF fin deq_wait(4), of "Sleeps_Empty"] assms(2) fq.get_None [OF deq_wait(5)]
  show ?thesis unfolding deq_wait(1,3) by (auto simp: fifo_wake_inv_def thread_kinds)
next
  case (deq_pop_signal T t f f' e T')
  let ?T = "T(t \<mapsto> Deq_Returned e)"
  have fin: "finite (dom T)" using assms(2) deq_pop_signal(1) by (simp add: fifo_wake_inv_def)
  have q: "length (fifo_q f) = length (fifo_q f') + 1" "fifo_max f' = fifo_max f"
    using deq_pop_signal(5) by (auto simp: deq_pass_def split: list.splits)
  from fin wakes_enq_counts [OF deq_pop_signal(6)] counts_upd [OF fin deq_pop_signal(4), of "Deq_Returned e"] assms(2) q
  show ?thesis unfolding deq_pop_signal(1,3) by (auto simp: fifo_wake_inv_def thread_kinds)
next
  case (deq_pop_quiet T t f f' e)
  have fin: "finite (dom T)" using assms(2) deq_pop_quiet(1) by (simp add: fifo_wake_inv_def)
  have q: "length (fifo_q f) = length (fifo_q f') + 1" "fifo_max f' = fifo_max f"
      "fifo_max f = 0 \<or> unat (fifo_max f) \<le> length (fifo_q f')"
    using deq_pop_quiet(5) by (auto simp: deq_pass_def split: list.splits)
  from fin counts_upd [OF fin deq_pop_quiet(4), of "Deq_Returned e"] assms(2) q
  show ?thesis unfolding deq_pop_quiet(1,3) by (auto simp: fifo_wake_inv_def thread_kinds)
next
  case (spurious_deq T t a b f)
  have fin: "finite (dom T)" using assms(2) spurious_deq(1) by (simp add: fifo_wake_inv_def)
  from fin counts_upd [OF fin spurious_deq(4), of b] assms(2) spurious_deq(5)
  show ?thesis unfolding spurious_deq(1,3) by (auto simp: fifo_wake_inv_def thread_kinds wake_deq_iff)
next
  case (spurious_enq T t a b f)
  have fin: "finite (dom T)" using assms(2) spurious_enq(1) by (simp add: fifo_wake_inv_def)
  from fin counts_upd [OF fin spurious_enq(4), of b] assms(2) spurious_enq(5)
  show ?thesis unfolding spurious_enq(1,3) by (auto simp: fifo_wake_inv_def thread_kinds wake_enq_iff)
next
  case (leave T t r e f)
  then obtain a where "T t = Some a" "\<not> sleeps_empty a" "\<not> sleeps_space a" "\<not> in_deq a" "\<not> in_enq a"
    by (auto simp: thread_kinds)
  with assms(2) leave(1,3) show ?thesis by (simp add: fifo_wake_inv_def thr_count_drop)
qed

lemma fifo_run_wake_inv: "fifo_run s es s' \<Longrightarrow> fifo_wake_inv s \<Longrightarrow> fifo_wake_inv s'"
  by (induction rule: fifo_run.induct) (simp_all add: fifo_step_wake_inv)

lemma fifo_run_bounded:
  "fifo_run s es s' \<Longrightarrow> fifo_max (fst s) = 0 \<or> length (fifo_q (fst s)) \<le> unat (fifo_max (fst s)) \<Longrightarrow>
   fifo_max (fst s') = 0 \<or> length (fifo_q (fst s')) \<le> unat (fifo_max (fst s'))"
  by (induction rule: fifo_run.induct) (simp_all add: fifo_step_bounded)

lemma thr_count_pos: "finite (dom T) \<Longrightarrow> thr_count P T > 0 \<longleftrightarrow> (\<exists>t a. T t = Some a \<and> P a)"
  by (auto simp: thr_count_def card_gt_0_iff) blast

section \<open>What the queue promises\<close>


text \<open>
  C36. No wake-up is lost although \<^verbatim>\<open>enq\<close> and \<^verbatim>\<open>deq\<close> signal one thread only: whenever a consumer sleeps while
  the queue is not empty, some other consumer is awake inside \<^verbatim>\<open>deq\<close>, and whenever a producer sleeps
  while there is room, some other producer is awake inside \<^verbatim>\<open>enq\<close>.
\<close>

theorem fifo_no_lost_wakeup:
  assumes "fifo_run (fifo_new limit, Map.empty) es (f, T)"
  shows "(T t = Some Sleeps_Empty \<and> fifo_q f \<noteq> [] \<longrightarrow> (\<exists>u. T u = Some In_Deq)) \<and>
    (T t = Some (Sleeps_Space e) \<and> length (fifo_q f) < unat limit \<longrightarrow> (\<exists>u e' b. T u = Some (In_Enq e' b)))"
proof -
  have "fifo_wake_inv (fifo_new limit, Map.empty)"
    by (simp add: fifo_wake_inv_def thr_count_def)
  with assms have inv: "fifo_wake_inv (f, T)" by (rule fifo_run_wake_inv)
  have max: "fifo_max f = limit" using fifo_run_max [OF assms] by (simp add: fifo_new_def)
  have fin: "finite (dom T)" using inv by (simp add: fifo_wake_inv_def)
  have "thr_count in_deq T > 0" if "T t = Some Sleeps_Empty" "fifo_q f \<noteq> []"
  proof -
    have "thr_count sleeps_empty T > 0"
      unfolding thr_count_pos [OF fin] using that(1) by (auto simp: thread_kinds)
    moreover have "0 < length (fifo_q f)" using that(2) by simp
    ultimately show ?thesis using inv unfolding fifo_wake_inv_def prod.case by linarith
  qed
  moreover have "thr_count in_enq T > 0" if "T t = Some (Sleeps_Space e)" "length (fifo_q f) < unat limit"
  proof -
    have "thr_count sleeps_space T > 0"
      unfolding thr_count_pos [OF fin] using that(1) by (auto simp: thread_kinds)
    then show ?thesis using inv that(2) max unfolding fifo_wake_inv_def prod.case by auto
  qed
  ultimately show ?thesis
    unfolding thr_count_pos [OF fin] by (auto simp: thread_kinds)
qed

text \<open>A run in which a consumer falls asleep on the empty queue and a producer wakes it.\<close>

lemma fifo_demo_run:
  "fifo_run (fifo_new 1, Map.empty) [Ev_Tau, Ev_Tau, Ev_Tau, Ev_Push (7 :: nat)]
     (\<lparr>fifo_q = [7], fifo_max = 1\<rparr>, [0 \<mapsto> In_Deq, 1 \<mapsto> Enq_Returned True])"
proof -
  let ?f = "fifo_new 1 :: nat fifo"
  have "fifo_run (?f, Map.empty) [] (?f, Map.empty)" by (rule run_refl)
  from run_step [OF this call_deq [of Map.empty 0]]
  have "fifo_run (?f, Map.empty) [Ev_Tau] (?f, [0 \<mapsto> In_Deq])" by simp
  from run_step [OF this deq_wait [of _ 0 ?f ?f]]
  have "fifo_run (?f, Map.empty) [Ev_Tau, Ev_Tau] (?f, [0 \<mapsto> Sleeps_Empty])"
    by (simp add: deq_pass_def fifo_new_def)
  from run_step [OF this call_enq [of _ 1 _ 7 True]]
  have "fifo_run (?f, Map.empty) [Ev_Tau, Ev_Tau, Ev_Tau] (?f, [0 \<mapsto> Sleeps_Empty, 1 \<mapsto> In_Enq 7 True])" by simp
  moreover have "fifo_step (?f, [0 \<mapsto> Sleeps_Empty, 1 \<mapsto> In_Enq 7 True]) (Ev_Push 7)
     (\<lparr>fifo_q = [7], fifo_max = 1\<rparr>, [0 \<mapsto> In_Deq, 1 \<mapsto> Enq_Returned True])"
  proof (rule enq_push [of _ 1 _ True])
    show "wakes wake_deq ([0 \<mapsto> Sleeps_Empty, 1 \<mapsto> In_Enq (7::nat) True](1 \<mapsto> Enq_Returned True))
        [0 \<mapsto> In_Deq, 1 \<mapsto> Enq_Returned True]"
      unfolding wakes_def
      by (rule disjI1, rule exI [of _ 0], rule exI [of _ Sleeps_Empty], rule exI [of _ In_Deq])
        (auto simp: fun_upd_twist)
  qed (simp_all add: enq_pass_def fifo_new_def)
  ultimately show ?thesis by (metis run_step append.simps)
qed


theorem fifo_no_lost_wakeup_witness:
  "\<exists>(f :: nat fifo) T es. fifo_run (fifo_new 1, Map.empty) es (f, T) \<and> fifo_q f \<noteq> [] \<and>
     (\<forall>t. T t = Some Sleeps_Empty \<longrightarrow> (\<exists>u. T u = Some In_Deq))"
  using fifo_no_lost_wakeup [OF fifo_demo_run] fifo_demo_run by fastforce

end
