(* ===== verification/Thr_Pool.thy ===== *)
theory Thr_Pool
  imports Fifo "HOL-Library.Multiset"
begin

text \<open>
  The worker pool of \<^verbatim>\<open>src/rpc/thr_pool.cc\<close> over the queue of theory \<open>Fifo\<close>: \<^verbatim>\<open>addJob\<close>, \<^verbatim>\<open>takeJob\<close>, the loop of
  \<^verbatim>\<open>do_worker\<close> and the destructor, which queues one poison pill per worker and joins them. Jobs are opaque
  values; a \<^verbatim>\<open>job_t\<close> is an option whose \<^term>\<open>None\<close> is the poison pill (\<^verbatim>\<open>f == NULL\<close>).
\<close>

section \<open>Definitions\<close>

datatype 'j worker = At_Take | Runs 'j | Exited

datatype pool_phase =
    Serving          \<comment> \<open>before the destructor\<close>
  | Closing nat      \<comment> \<open>in the destructor, with this many pills still to queue\<close>

record 'j thrpool =
  tp_jobq :: "'j option fifo"
  tp_nthreads :: nat
  tp_blockadd :: bool
  tp_workers :: "'j worker list"
  tp_phase :: pool_phase
  tp_finished :: "'j list"   \<comment> \<open>jobs whose function has returned\<close>

definition thrpool_new :: "nat \<Rightarrow> bool \<Rightarrow> 'j thrpool" where
  "thrpool_new sz blocking =
     \<lparr>tp_jobq = fifo_new (word_of_nat (100 * sz)), tp_nthreads = sz, tp_blockadd = blocking,
      tp_workers = replicate sz At_Take, tp_phase = Serving, tp_finished = []\<rparr>"

definition addJob :: "'j \<Rightarrow> 'j thrpool \<Rightarrow> 'j thrpool \<times> enq_outcome" where
  "addJob j p =
     (let (q, r) = enq_pass (Some j) (tp_blockadd p) (tp_jobq p) in (p\<lparr>tp_jobq := q\<rparr>, r))"

text \<open>\<open>None\<close> while the queue is empty; otherwise the job, or \<open>Some None\<close> for a pill (\<^verbatim>\<open>takeJob\<close> returns false).\<close>

definition takeJob :: "'j thrpool \<Rightarrow> 'j thrpool \<times> 'j option option" where
  "takeJob p =
     (case deq_pass (tp_jobq p) of
        (q, None) \<Rightarrow> (p\<lparr>tp_jobq := q\<rparr>, None)
      | (q, Some (j, _)) \<Rightarrow> (p\<lparr>tp_jobq := q\<rparr>, Some j))"

definition do_worker :: "nat \<Rightarrow> 'j thrpool \<Rightarrow> 'j thrpool" where
  "do_worker i p =
     (case tp_workers p ! i of
        At_Take \<Rightarrow>
          (case takeJob p of
             (p', None) \<Rightarrow> p'
           | (p', Some None) \<Rightarrow> p'\<lparr>tp_workers := (tp_workers p)[i := Exited]\<rparr>
           | (p', Some (Some j)) \<Rightarrow> p'\<lparr>tp_workers := (tp_workers p)[i := Runs j]\<rparr>)
      | Runs j \<Rightarrow> p\<lparr>tp_workers := (tp_workers p)[i := At_Take], tp_finished := tp_finished p @ [j]\<rparr>
      | Exited \<Rightarrow> p)"

text \<open>One iteration of the destructor's first loop; \<^verbatim>\<open>jobq_.enq(j)\<close> blocks while the queue is full.\<close>

definition thrpool_pill :: "'j thrpool \<Rightarrow> 'j thrpool" where
  "thrpool_pill p =
     (case tp_phase p of
        Closing (Suc k) \<Rightarrow>
          (case enq_pass None True (tp_jobq p) of
             (q, Pushed) \<Rightarrow> p\<lparr>tp_jobq := q, tp_phase := Closing k\<rparr>
           | (q, _) \<Rightarrow> p)
      | _ \<Rightarrow> p)"

definition thrpool_close :: "'j thrpool \<Rightarrow> 'j thrpool" where
  "thrpool_close p = p\<lparr>tp_phase := Closing (tp_nthreads p)\<rparr>"

text \<open>The second loop of the destructor, the joins, has come through.\<close>

definition thrpool_joined :: "'j thrpool \<Rightarrow> bool" where
  "thrpool_joined p \<longleftrightarrow> tp_phase p = Closing 0 \<and> (\<forall>w \<in> set (tp_workers p). w = Exited)"

text \<open>
  Interleavings. The label is the job when \<^verbatim>\<open>addJob\<close> accepts one. As the comment in the source demands,
  nobody adds jobs once the destructor runs.
\<close>

inductive pool_step :: "'j thrpool \<Rightarrow> 'j list \<Rightarrow> 'j thrpool \<Rightarrow> bool" where
  p_add: "tp_phase p = Serving \<Longrightarrow> addJob j p = (p', Pushed) \<Longrightarrow> pool_step p [j] p'"
| p_add_fails: "tp_phase p = Serving \<Longrightarrow> addJob j p = (p', r) \<Longrightarrow> r \<noteq> Pushed \<Longrightarrow> pool_step p [] p'"
| p_work: "i < length (tp_workers p) \<Longrightarrow> pool_step p [] (do_worker i p)"
| p_close: "tp_phase p = Serving \<Longrightarrow> pool_step p [] (thrpool_close p)"
| p_pill: "pool_step p [] (thrpool_pill p)"

inductive pool_run :: "'j thrpool \<Rightarrow> 'j list \<Rightarrow> 'j thrpool \<Rightarrow> bool" where
  pr_refl: "pool_run p [] p"
| pr_step: "pool_run p js p' \<Longrightarrow> pool_step p' ks p'' \<Longrightarrow> pool_run p (js @ ks) p''"

section \<open>Invariant\<close>

fun running :: "'j worker \<Rightarrow> 'j multiset" where
  "running (Runs j) = {#j#}"
| "running _ = {#}"

definition exited :: "'j thrpool \<Rightarrow> nat" where
  "exited p = length (filter (\<lambda>w. w = Exited) (tp_workers p))"

definition pills_left :: "'j thrpool \<Rightarrow> nat" where
  "pills_left p = (case tp_phase p of Serving \<Rightarrow> tp_nthreads p | Closing k \<Rightarrow> k)"

definition pool_inv :: "'j list \<Rightarrow> 'j thrpool \<Rightarrow> bool" where
  "pool_inv acc p \<longleftrightarrow>
     length (tp_workers p) = tp_nthreads p \<and>
     (\<exists>js n. fifo_q (tp_jobq p) = map Some js @ replicate n None \<and>
        n + pills_left p + exited p = tp_nthreads p \<and>
        (exited p > 0 \<longrightarrow> js = []) \<and>
        mset acc = mset (tp_finished p) + sum_list (map running (tp_workers p)) + mset js)"

lemma sum_list_update_mset:
  fixes f :: "'a \<Rightarrow> 'b multiset"
  shows "i < length xs \<Longrightarrow> sum_list (map f (xs[i := x])) + f (xs ! i) = sum_list (map f xs) + f x"
proof (induction xs arbitrary: i)
  case (Cons y xs)
  then show ?case by (cases i) (auto simp: algebra_simps)
qed simp

lemma filter_length_update:
  "i < length xs \<Longrightarrow> length (filter P (xs[i := x])) + of_bool (P (xs ! i)) = length (filter P xs) + of_bool (P x)"
proof (induction xs arbitrary: i)
  case (Cons y xs)
  then show ?case by (cases i) auto
qed simp

lemma sum_list_replicate_empty: "sum_list (replicate n {#}) = {#}"
  by (induction n) simp_all

lemma pool_inv_new: "pool_inv [] (thrpool_new sz blocking)"
  by (auto simp: pool_inv_def thrpool_new_def fifo_new_def exited_def pills_left_def sum_list_replicate_empty
      intro!: exI [of _ "[]"] exI [of _ 0])

lemma pills_left_upd [simp]:
  "pills_left (p\<lparr>tp_jobq := q\<rparr>) = pills_left p"
  "pills_left (p\<lparr>tp_workers := ws\<rparr>) = pills_left p"
  "pills_left (p\<lparr>tp_finished := js\<rparr>) = pills_left p"
  by (simp_all add: pills_left_def split: pool_phase.split)

lemma exited_upd [simp]:
  "exited (p\<lparr>tp_jobq := q\<rparr>) = exited p"
  "exited (p\<lparr>tp_phase := ph\<rparr>) = exited p"
  "exited (p\<lparr>tp_finished := js\<rparr>) = exited p"
  by (simp_all add: exited_def)

lemma pool_inv_add:
  assumes "pool_inv acc p" "tp_phase p = Serving" "addJob j p = (p', Pushed)"
  shows "pool_inv (acc @ [j]) p'"
proof -
  from assms(1) obtain js n where inv: "length (tp_workers p) = tp_nthreads p"
      "fifo_q (tp_jobq p) = map Some js @ replicate n None" "n + pills_left p + exited p = tp_nthreads p"
      "exited p > 0 \<longrightarrow> js = []"
      "mset acc = mset (tp_finished p) + sum_list (map running (tp_workers p)) + mset js"
    by (auto simp: pool_inv_def)
  then have n: "n = 0" "exited p = 0" using assms(2) by (simp_all add: pills_left_def)
  obtain q where q: "enq_pass (Some j) (tp_blockadd p) (tp_jobq p) = (q, Pushed)" "p' = p\<lparr>tp_jobq := q\<rparr>"
    using assms(3) by (auto simp: addJob_def split: prod.splits)
  then have "fifo_q q = map Some (js @ [j]) @ replicate 0 None"
    using fq.put_pushed [OF q(1)] inv(2) n by simp
  moreover have "exited p' = exited p" "pills_left p' = pills_left p" by (simp_all add: q(2))
  ultimately show ?thesis
    using inv n unfolding pool_inv_def
    by (intro conjI exI [of _ "js @ [j]"] exI [of _ 0]) (simp_all add: q(2))
qed

lemma pool_inv_same:
  assumes "pool_inv acc p" "fifo_q q = fifo_q (tp_jobq p)"
  shows "pool_inv acc (p\<lparr>tp_jobq := q\<rparr>)"
  using assms by (simp add: pool_inv_def)

lemma pool_inv_pill: "pool_inv acc p \<Longrightarrow> pool_inv acc (thrpool_pill p)"
proof -
  assume inv: "pool_inv acc p"
  show ?thesis
  proof (cases "\<exists>k q. tp_phase p = Closing (Suc k) \<and> enq_pass None True (tp_jobq p) = (q, Pushed)")
    case True
    then obtain k q where kq: "tp_phase p = Closing (Suc k)" "enq_pass None True (tp_jobq p) = (q, Pushed)"
      by blast
    from inv obtain js n where i: "length (tp_workers p) = tp_nthreads p"
        "fifo_q (tp_jobq p) = map Some js @ replicate n None" "n + pills_left p + exited p = tp_nthreads p"
        "exited p > 0 \<longrightarrow> js = []"
        "mset acc = mset (tp_finished p) + sum_list (map running (tp_workers p)) + mset js"
      by (auto simp: pool_inv_def)
    have "fifo_q q = map Some js @ replicate (Suc n) None"
      using fq.put_pushed [OF kq(2)] i(2) by (simp flip: replicate_append_same)
    with i show ?thesis unfolding pool_inv_def thrpool_pill_def
      by (intro conjI exI [of _ js] exI [of _ "Suc n"]) (simp_all add: kq exited_def pills_left_def)
  next
    case False
    then have "thrpool_pill p = p"
      by (auto simp: thrpool_pill_def split: pool_phase.splits nat.splits prod.splits enq_outcome.splits)
    with inv show ?thesis by simp
  qed
qed

lemma do_worker_cases:
  assumes "i < length (tp_workers p)"
  obtains (idle) "do_worker i p = p"
  | (job) j q where "tp_workers p ! i = At_Take" "fifo_q (tp_jobq p) = Some j # fifo_q q"
      "do_worker i p = p\<lparr>tp_jobq := q, tp_workers := (tp_workers p)[i := Runs j]\<rparr>"
  | (pill) q where "tp_workers p ! i = At_Take" "fifo_q (tp_jobq p) = None # fifo_q q"
      "do_worker i p = p\<lparr>tp_jobq := q, tp_workers := (tp_workers p)[i := Exited]\<rparr>"
  | (finish) j where "tp_workers p ! i = Runs j"
      "do_worker i p = p\<lparr>tp_workers := (tp_workers p)[i := At_Take], tp_finished := tp_finished p @ [j]\<rparr>"
proof (cases "tp_workers p ! i")
  case At_Take
  obtain q r where d: "deq_pass (tp_jobq p) = (q, r)" by (cases "deq_pass (tp_jobq p)")
  show ?thesis
  proof (cases r)
    case None
    with d fq.get_None [of "tp_jobq p" q] At_Take show ?thesis
      by (intro idle) (simp add: do_worker_def takeJob_def)
  next
    case (Some x)
    then obtain e b where e: "deq_pass (tp_jobq p) = (q, Some (e, b))" using d by (cases x) simp
    note q = fq.get_Some [OF e]
    show ?thesis
    proof (cases e)
      case None
      with e q At_Take show ?thesis by (intro pill [of q]) (simp_all add: do_worker_def takeJob_def)
    next
      case (Some j)
      with e q At_Take show ?thesis by (intro job [of j q]) (simp_all add: do_worker_def takeJob_def)
    qed
  qed
qed (auto simp: do_worker_def intro: idle finish)

lemma pool_inv_worker:
  assumes "pool_inv acc p" "i < length (tp_workers p)"
  shows "pool_inv acc (do_worker i p)"
proof -
  from assms(1) obtain js n where inv: "length (tp_workers p) = tp_nthreads p"
      "fifo_q (tp_jobq p) = map Some js @ replicate n None" "n + pills_left p + exited p = tp_nthreads p"
      "exited p > 0 \<longrightarrow> js = []"
      "mset acc = mset (tp_finished p) + sum_list (map running (tp_workers p)) + mset js"
    by (auto simp: pool_inv_def)
  have run: "sum_list (map running ((tp_workers p)[i := w])) + running (tp_workers p ! i) =
      sum_list (map running (tp_workers p)) + running w"
    and ex: "exited (p\<lparr>tp_workers := (tp_workers p)[i := w]\<rparr>) + of_bool (tp_workers p ! i = Exited) =
      exited p + of_bool (w = Exited)" for w
    using sum_list_update_mset [OF assms(2), of running w] filter_length_update [OF assms(2), of "\<lambda>w. w = Exited" w]
    by (simp_all add: exited_def)
  from assms(2) show ?thesis
  proof (cases rule: do_worker_cases)
    case idle
    with assms(1) show ?thesis by simp
  next
    case (job j q)
    then obtain js' where js: "js = j # js'" "fifo_q q = map Some js' @ replicate n None"
      using inv(2) by (cases js; cases n) auto
    have "exited p = 0" using inv(4) js(1) by simp
    with inv js job(1) run [of "Runs j"] ex [of "Runs j"] show ?thesis
      unfolding job(3) pool_inv_def
      by (intro conjI exI [of _ js'] exI [of _ n])
        (simp_all add: exited_def)
  next
    case (pill q)
    then obtain m where js: "js = []" "n = Suc m" "fifo_q q = replicate m None"
      using inv(2) by (cases js; cases n) auto
    with inv pill(1) run [of Exited] ex [of Exited] show ?thesis
      unfolding pill(3) pool_inv_def
      by (intro conjI exI [of _ "[]"] exI [of _ m])
        (simp_all add: exited_def)
  next
    case (finish j)
    with inv run [of At_Take] ex [of At_Take] show ?thesis
      unfolding finish(2) pool_inv_def
      by (intro conjI exI [of _ js] exI [of _ n])
        (simp_all add: exited_def)
  qed
qed

lemma pool_step_inv: "pool_step p ks p' \<Longrightarrow> pool_inv acc p \<Longrightarrow> pool_inv (acc @ ks) p'"
proof (induction rule: pool_step.induct)
  case (p_add p j p')
  show ?case using pool_inv_add [OF p_add(3,1,2)] .
next
  case (p_add_fails p j p' r)
  then obtain q where "enq_pass (Some j) (tp_blockadd p) (tp_jobq p) = (q, r)" "p' = p\<lparr>tp_jobq := q\<rparr>"
    by (auto simp: addJob_def split: prod.splits)
  with fq.put_not_pushed [of "Some j" "tp_blockadd p" "tp_jobq p" q r] p_add_fails(3) have "p' = p" by simp
  with p_add_fails(4) show ?case by simp
next
  case (p_work i p)
  show ?case using pool_inv_worker [OF p_work(2,1)] by simp
next
  case (p_close p)
  then show ?case by (simp add: pool_inv_def pills_left_def thrpool_close_def)
next
  case (p_pill p)
  show ?case using pool_inv_pill [OF p_pill] by simp
qed

lemma pool_run_inv: "pool_run p js p' \<Longrightarrow> pool_inv acc p \<Longrightarrow> pool_inv (acc @ js) p'"
proof (induction arbitrary: acc rule: pool_run.induct)
  case (pr_step p js p' ks p'')
  then show ?case using pool_step_inv [of p' ks p'' "acc @ js"] by simp
qed simp

lemma do_worker_nthreads [simp]: "tp_nthreads (do_worker i p) = tp_nthreads p"
  by (simp add: do_worker_def takeJob_def split: worker.split prod.split option.split)

lemma thrpool_pill_nthreads [simp]: "tp_nthreads (thrpool_pill p) = tp_nthreads p"
  by (simp add: thrpool_pill_def split: pool_phase.split nat.split prod.split enq_outcome.split)

lemma pool_step_nthreads: "pool_step p ks p' \<Longrightarrow> tp_nthreads p' = tp_nthreads p"
  by (induction rule: pool_step.induct) (auto simp: addJob_def thrpool_close_def split: prod.splits)

lemma pool_run_nthreads: "pool_run p ks p' \<Longrightarrow> tp_nthreads p' = tp_nthreads p"
  by (induction rule: pool_run.induct) (simp_all add: pool_step_nthreads)

section \<open>What the pool promises\<close>

text \<open>
  C35. Deleting a pool with at least one worker loses and repeats no job: when the destructor's joins have
  come through, the queue is empty and the jobs that ran to completion are exactly the jobs \<^verbatim>\<open>addJob\<close>
  accepted, each as often as it was accepted.
\<close>

theorem thrpool_drains:
  assumes "0 < sz" "pool_run (thrpool_new sz blocking) js p" "thrpool_joined p"
  shows "fifo_q (tp_jobq p) = [] \<and> mset (tp_finished p) = mset js"
proof -
  have "pool_inv js p" using pool_run_inv [OF assms(2) pool_inv_new] by simp
  then obtain ks n where inv: "length (tp_workers p) = tp_nthreads p"
      "fifo_q (tp_jobq p) = map Some ks @ replicate n None" "n + pills_left p + exited p = tp_nthreads p"
      "exited p > 0 \<longrightarrow> ks = []"
      "mset js = mset (tp_finished p) + sum_list (map running (tp_workers p)) + mset ks"
    by (auto simp: pool_inv_def)
  have all: "\<forall>w \<in> set (tp_workers p). w = Exited" using assms(3) by (simp add: thrpool_joined_def)
  then have ex: "exited p = tp_nthreads p" using inv(1) by (simp add: exited_def)
  have "tp_workers p = replicate (tp_nthreads p) Exited" using all inv(1) by (simp add: list_eq_iff_nth_eq)
  then have "sum_list (map running (tp_workers p)) = {#}" by (simp add: sum_list_replicate_empty)
  moreover have "tp_nthreads p = sz" using pool_run_nthreads [OF assms(2)] by (simp add: thrpool_new_def)
  ultimately show ?thesis using inv ex assms(1) by auto
qed

lemma pool_run_work: "pool_run p js p' \<Longrightarrow> i < length (tp_workers p') \<Longrightarrow> do_worker i p' = p'' \<Longrightarrow> pool_run p js p''"
  using pr_step [OF _ p_work] by fastforce

lemmas pool_eval = do_worker_def takeJob_def addJob_def deq_pass_def enq_pass_def thrpool_new_def
  thrpool_close_def thrpool_pill_def fifo_new_def

theorem thrpool_drains_witness:
  "\<exists>p. pool_run (thrpool_new 1 False) [7 :: nat] p \<and> thrpool_joined p \<and> mset (tp_finished p) = {#7#}"
proof -
  define p0 where "p0 = (thrpool_new 1 False :: nat thrpool)"
  define p1 where "p1 = fst (addJob 7 p0)"
  define p4 where "p4 = thrpool_close (do_worker 0 (do_worker 0 p1))"
  define p6 where "p6 = do_worker 0 (thrpool_pill p4)"
  have p1: "addJob 7 p0 = (p1, Pushed)" by (simp add: p0_def p1_def pool_eval)
  have "pool_run p0 [7] p1" using pr_step [OF pr_refl p_add [OF _ p1]] by (simp add: p0_def thrpool_new_def)
  then have "pool_run p0 [7] (do_worker 0 (do_worker 0 p1))"
    by (intro pool_run_work [OF pool_run_work [OF _ _ refl] _ refl]) (simp_all add: p0_def p1_def pool_eval)
  from pr_step [OF this p_close] have "pool_run p0 [7] p4"
    by (simp add: p0_def p1_def p4_def pool_eval)
  from pr_step [OF this p_pill] have "pool_run p0 [7] (thrpool_pill p4)" by simp
  then have run: "pool_run p0 [7] p6"
    unfolding p6_def by (rule pool_run_work [OF _ _ refl]) (simp add: p0_def p1_def p4_def pool_eval)
  have "thrpool_joined p6" by (simp add: p0_def p1_def p4_def p6_def pool_eval thrpool_joined_def)
  with run show ?thesis
    using thrpool_drains [of 1 False "[7]" p6] unfolding p0_def by auto
qed

end
