(* ===== verification/Marshall.thy ===== *)
theory Marshall
  imports Yfs_Prelude
begin

text \<open>
  The wire format of the RPC library: \<^verbatim>\<open>class marshall\<close> and \<^verbatim>\<open>class unmarshall\<close> of
  \<^verbatim>\<open>src/rpc/marshall.h\<close> with their members and the insertion and extraction operators of
  \<^verbatim>\<open>src/rpc/rpc.cc\<close> (lines 771-1006).

  A \<^verbatim>\<open>malloc\<close>ed block is a list of cells; a cell is \<open>None\<close> until it is written, so that bytes that
  leave the process without having been written are visible.  \<^verbatim>\<open>malloc\<close> and \<^verbatim>\<open>realloc\<close> are taken
  to succeed.  A C++ \<^verbatim>\<open>int\<close> is the 32-bit word with its two's complement pattern.  The read and write
  heads are natural numbers; the sum in \<^verbatim>\<open>unmarshall::rawbytes\<close>, which the code computes in
  \<^verbatim>\<open>unsigned int\<close>, is a 32-bit word.
\<close>

section \<open>State and constants\<close>

type_synonym cells = "byte option list"

record marshall =
  m_buf :: "cells option"
  m_capa :: nat
  m_ind :: nat

record unmarshall =
  u_buf :: "byte list option"
  u_sz :: nat
  u_ind :: nat
  u_ok :: bool

record req_header =
  h_xid :: u32
  h_proc :: u32
  h_clt_nonce :: u32
  h_srv_nonce :: u32
  h_xid_rep :: u32

record reply_header =
  r_xid :: u32
  r_ret :: u32

definition static_max :: "nat \<Rightarrow> nat \<Rightarrow> nat" where
  "static_max a b = (if a > b then a else b)"

definition sizeof_req_header :: nat where "sizeof_req_header = 20"

definition sizeof_reply_header :: nat where "sizeof_reply_header = 8"

definition sizeof_rpc_sz :: nat where "sizeof_rpc_sz = 4"

definition DEFAULT_RPC_SZ :: nat where "DEFAULT_RPC_SZ = 1024"

definition RPC_HEADER_SZ :: nat where
  "RPC_HEADER_SZ = static_max sizeof_req_header sizeof_reply_header + sizeof_rpc_sz"

section \<open>Writing\<close>

definition realloc :: "cells option \<Rightarrow> nat \<Rightarrow> cells" where
  "realloc b n = (case b of None \<Rightarrow> replicate n None
     | Some c \<Rightarrow> take n c @ replicate (n - length c) None)"

definition marshall_new :: marshall where
  "marshall_new = \<lparr>m_buf = Some (realloc None DEFAULT_RPC_SZ), m_capa = DEFAULT_RPC_SZ,
     m_ind = RPC_HEADER_SZ\<rparr>"

definition m_resize :: "nat \<Rightarrow> marshall \<Rightarrow> fault + marshall" where
  "m_resize capa m =
     rbind (verify (m_buf m \<noteq> None)) (\<lambda>_.
       Inr (m\<lparr>m_capa := capa, m_buf := Some (realloc (m_buf m) capa)\<rparr>))"

definition m_store :: "byte list \<Rightarrow> marshall \<Rightarrow> fault + marshall" where
  "m_store p m = (case m_buf m of
       None \<Rightarrow> Inl Null_Access
     | Some c \<Rightarrow>
         if m_ind m + length p \<le> length c
         then Inr (m\<lparr>m_buf := Some (overwrite c (m_ind m) (map Some p)), m_ind := m_ind m + length p\<rparr>)
         else Inl Wild_Access)"

definition m_rawbyte :: "byte \<Rightarrow> marshall \<Rightarrow> fault + marshall" where
  "m_rawbyte x m =
     rbind (if m_ind m \<ge> m_capa m then m_resize (m_capa m * 2) m else Inr m) (m_store [x])"

definition m_rawbytes :: "byte list \<Rightarrow> marshall \<Rightarrow> fault + marshall" where
  "m_rawbytes p m = (let n = length p in
     rbind (if m_ind m + n > m_capa m
            then m_resize (if m_capa m > n then 2 * m_capa m else m_capa m + n) m
            else Inr m) (m_store p))"

definition m_pack :: "u32 \<Rightarrow> marshall \<Rightarrow> fault + marshall" where
  "m_pack x m =
     rbind (m_rawbyte (ucast (signed_drop_bit 24 x AND 0xff)) m) (\<lambda>m.
     rbind (m_rawbyte (ucast (signed_drop_bit 16 x AND 0xff)) m) (\<lambda>m.
     rbind (m_rawbyte (ucast (signed_drop_bit 8 x AND 0xff)) m) (\<lambda>m.
     m_rawbyte (ucast (x AND 0xff)) m)))"

definition pack_req_header :: "req_header \<Rightarrow> marshall \<Rightarrow> fault + marshall" where
  "pack_req_header h m = (let saved_sz = m_ind m in
     rbind (m_pack (h_xid h) (m\<lparr>m_ind := sizeof_rpc_sz\<rparr>)) (\<lambda>m.
     rbind (m_pack (h_proc h) m) (\<lambda>m.
     rbind (m_pack (h_clt_nonce h) m) (\<lambda>m.
     rbind (m_pack (h_srv_nonce h) m) (\<lambda>m.
     rbind (m_pack (h_xid_rep h) m) (\<lambda>m.
     Inr (m\<lparr>m_ind := saved_sz\<rparr>)))))))"

definition pack_reply_header :: "reply_header \<Rightarrow> marshall \<Rightarrow> fault + marshall" where
  "pack_reply_header h m = (let saved_sz = m_ind m in
     rbind (m_pack (r_xid h) (m\<lparr>m_ind := sizeof_rpc_sz\<rparr>)) (\<lambda>m.
     rbind (m_pack (r_ret h) m) (\<lambda>m.
     Inr (m\<lparr>m_ind := saved_sz\<rparr>))))"

definition m_take_buf :: "marshall \<Rightarrow> (cells option \<times> nat) \<times> marshall" where
  "m_take_buf m = ((m_buf m, m_ind m), m\<lparr>m_buf := None, m_ind := 0\<rparr>)"

definition put_bool :: "bool \<Rightarrow> marshall \<Rightarrow> fault + marshall" where
  "put_bool x m = m_rawbyte (if x then 1 else 0) m"

definition put_uchar :: "byte \<Rightarrow> marshall \<Rightarrow> fault + marshall" where
  "put_uchar x m = m_rawbyte x m"

definition put_char :: "char \<Rightarrow> marshall \<Rightarrow> fault + marshall" where
  "put_char x m = put_uchar (byte_of_char x) m"

definition put_ushort :: "u16 \<Rightarrow> marshall \<Rightarrow> fault + marshall" where
  "put_ushort x m =
     rbind (m_rawbyte (ucast (drop_bit 8 x AND 0xff)) m) (\<lambda>m.
     m_rawbyte (ucast (x AND 0xff)) m)"

definition put_short :: "u16 \<Rightarrow> marshall \<Rightarrow> fault + marshall" where
  "put_short x m = put_ushort x m"

definition put_uint :: "u32 \<Rightarrow> marshall \<Rightarrow> fault + marshall" where
  "put_uint x m =
     rbind (m_rawbyte (ucast (drop_bit 24 x AND 0xff)) m) (\<lambda>m.
     rbind (m_rawbyte (ucast (drop_bit 16 x AND 0xff)) m) (\<lambda>m.
     rbind (m_rawbyte (ucast (drop_bit 8 x AND 0xff)) m) (\<lambda>m.
     m_rawbyte (ucast (x AND 0xff)) m)))"

definition put_int :: "u32 \<Rightarrow> marshall \<Rightarrow> fault + marshall" where
  "put_int x m = put_uint x m"

definition put_string :: "string \<Rightarrow> marshall \<Rightarrow> fault + marshall" where
  "put_string s m =
     rbind (put_uint (word_of_nat (length s)) m) (m_rawbytes (map byte_of_char s))"

definition put_ull :: "u64 \<Rightarrow> marshall \<Rightarrow> fault + marshall" where
  "put_ull x m = rbind (put_uint (ucast (drop_bit 32 x)) m) (put_uint (ucast x))"

definition put_pair ::
  "('a \<Rightarrow> marshall \<Rightarrow> fault + marshall) \<Rightarrow> ('b \<Rightarrow> marshall \<Rightarrow> fault + marshall) \<Rightarrow>
   'a \<times> 'b \<Rightarrow> marshall \<Rightarrow> fault + marshall" where
  "put_pair putA putB p m = rbind (putA (fst p) m) (putB (snd p))"

primrec put_all :: "('a \<Rightarrow> marshall \<Rightarrow> fault + marshall) \<Rightarrow> 'a list \<Rightarrow> marshall \<Rightarrow> fault + marshall" where
  "put_all putC [] m = Inr m"
| "put_all putC (x # xs) m = rbind (putC x m) (put_all putC xs)"

definition put_vector :: "('a \<Rightarrow> marshall \<Rightarrow> fault + marshall) \<Rightarrow> 'a list \<Rightarrow> marshall \<Rightarrow> fault + marshall" where
  "put_vector putC v m = rbind (put_uint (word_of_nat (length v)) m) (put_all putC v)"

definition put_map ::
  "('a \<Rightarrow> marshall \<Rightarrow> fault + marshall) \<Rightarrow> ('b \<Rightarrow> marshall \<Rightarrow> fault + marshall) \<Rightarrow>
   ('a \<times> 'b) list \<Rightarrow> marshall \<Rightarrow> fault + marshall" where
  "put_map putA putB d m =
     rbind (put_uint (word_of_nat (length d)) m) (put_all (put_pair putA putB) d)"

section \<open>Reading\<close>

definition unmarshall_new :: "byte list \<Rightarrow> nat \<Rightarrow> unmarshall" where
  "unmarshall_new b sz = \<lparr>u_buf = Some b, u_sz = sz, u_ind = 0, u_ok = True\<rparr>"

definition unmarshall_empty :: unmarshall where
  "unmarshall_empty = \<lparr>u_buf = None, u_sz = 0, u_ind = 0, u_ok = False\<rparr>"

definition u_load :: "nat \<Rightarrow> unmarshall \<Rightarrow> fault + byte list" where
  "u_load n u = (case u_buf u of
       None \<Rightarrow> Inl Null_Access
     | Some b \<Rightarrow> if u_ind u + n \<le> length b then Inr (take n (drop (u_ind u) b)) else Inl Wild_Access)"

text \<open>The byte is read as a (signed) \<^verbatim>\<open>char\<close> and returned as \<^verbatim>\<open>unsigned int\<close>: a sign extension.\<close>

definition u_rawbyte :: "unmarshall \<Rightarrow> fault + (u32 \<times> unmarshall)" where
  "u_rawbyte u =
     (if u_ind u \<ge> u_sz u then Inr (0, u\<lparr>u_ok := False\<rparr>)
      else rbind (u_load 1 u) (\<lambda>c. Inr (scast (hd c), u\<lparr>u_ind := u_ind u + 1\<rparr>)))"

definition u_rawbytes :: "string \<Rightarrow> u32 \<Rightarrow> unmarshall \<Rightarrow> fault + (string \<times> unmarshall)" where
  "u_rawbytes ss n u =
     (if word_of_nat (u_ind u) + n > word_of_nat (u_sz u) then Inr (ss, u\<lparr>u_ok := False\<rparr>)
      else rbind (u_load (unat n) u) (\<lambda>t.
        Inr (map char_of_byte t, u\<lparr>u_ind := u_ind u + unat n\<rparr>)))"

definition u_unpack :: "unmarshall \<Rightarrow> fault + (u32 \<times> unmarshall)" where
  "u_unpack u =
     rbind (u_rawbyte u) (\<lambda>(c3, u).
     rbind (u_rawbyte u) (\<lambda>(c2, u).
     rbind (u_rawbyte u) (\<lambda>(c1, u).
     rbind (u_rawbyte u) (\<lambda>(c0, u).
     Inr (push_bit 24 (c3 AND 0xff) OR push_bit 16 (c2 AND 0xff) OR push_bit 8 (c1 AND 0xff)
            OR (c0 AND 0xff), u)))))"

definition unpack_req_header :: "unmarshall \<Rightarrow> fault + (req_header \<times> unmarshall)" where
  "unpack_req_header u =
     rbind (u_unpack (u\<lparr>u_ind := sizeof_rpc_sz\<rparr>)) (\<lambda>(x, u).
     rbind (u_unpack u) (\<lambda>(p, u).
     rbind (u_unpack u) (\<lambda>(c, u).
     rbind (u_unpack u) (\<lambda>(s, u).
     rbind (u_unpack u) (\<lambda>(xr, u).
     Inr (\<lparr>h_xid = x, h_proc = p, h_clt_nonce = c, h_srv_nonce = s, h_xid_rep = xr\<rparr>,
          u\<lparr>u_ind := RPC_HEADER_SZ\<rparr>))))))"

definition unpack_reply_header :: "unmarshall \<Rightarrow> fault + (reply_header \<times> unmarshall)" where
  "unpack_reply_header u =
     rbind (u_unpack (u\<lparr>u_ind := sizeof_rpc_sz\<rparr>)) (\<lambda>(x, u).
     rbind (u_unpack u) (\<lambda>(r, u).
     Inr (\<lparr>r_xid = x, r_ret = r\<rparr>, u\<lparr>u_ind := RPC_HEADER_SZ\<rparr>)))"

definition u_take_buf :: "unmarshall \<Rightarrow> (byte list option \<times> nat) \<times> unmarshall" where
  "u_take_buf u = ((u_buf u, u_sz u), u\<lparr>u_sz := 0, u_ind := 0, u_buf := None\<rparr>)"

definition u_take_in :: "unmarshall \<Rightarrow> unmarshall \<Rightarrow> unmarshall \<times> unmarshall" where
  "u_take_in u another = (let ((b, sz), another') = u_take_buf another in
     (u\<lparr>u_buf := b, u_sz := sz, u_ind := RPC_HEADER_SZ, u_ok := RPC_HEADER_SZ \<le> sz\<rparr>, another'))"

definition u_okdone :: "unmarshall \<Rightarrow> bool" where
  "u_okdone u \<longleftrightarrow> u_ok u \<and> u_ind u = u_sz u"

definition get_bool :: "unmarshall \<Rightarrow> fault + (bool \<times> unmarshall)" where
  "get_bool u = rbind (u_rawbyte u) (\<lambda>(c, u). Inr (c \<noteq> 0, u))"

definition get_uchar :: "unmarshall \<Rightarrow> fault + (byte \<times> unmarshall)" where
  "get_uchar u = rbind (u_rawbyte u) (\<lambda>(c, u). Inr (ucast c, u))"

definition get_char :: "unmarshall \<Rightarrow> fault + (char \<times> unmarshall)" where
  "get_char u = rbind (u_rawbyte u) (\<lambda>(c, u). Inr (char_of_byte (ucast c), u))"

definition get_ushort :: "unmarshall \<Rightarrow> fault + (u16 \<times> unmarshall)" where
  "get_ushort u =
     rbind (u_rawbyte u) (\<lambda>(c1, u).
     rbind (u_rawbyte u) (\<lambda>(c0, u).
     Inr (ucast (push_bit 8 (c1 AND 0xff)) OR ucast (c0 AND 0xff), u)))"

definition get_short :: "unmarshall \<Rightarrow> fault + (u16 \<times> unmarshall)" where
  "get_short u =
     rbind (u_rawbyte u) (\<lambda>(c1, u).
     rbind (u_rawbyte u) (\<lambda>(c0, u).
     Inr (ucast (push_bit 8 (c1 AND 0xff)) OR ucast (c0 AND 0xff), u)))"

definition get_uint :: "unmarshall \<Rightarrow> fault + (u32 \<times> unmarshall)" where
  "get_uint u =
     rbind (u_rawbyte u) (\<lambda>(c3, u).
     rbind (u_rawbyte u) (\<lambda>(c2, u).
     rbind (u_rawbyte u) (\<lambda>(c1, u).
     rbind (u_rawbyte u) (\<lambda>(c0, u).
     Inr (push_bit 24 (c3 AND 0xff) OR push_bit 16 (c2 AND 0xff) OR push_bit 8 (c1 AND 0xff)
            OR (c0 AND 0xff), u)))))"

definition get_int :: "unmarshall \<Rightarrow> fault + (u32 \<times> unmarshall)" where
  "get_int u =
     rbind (u_rawbyte u) (\<lambda>(c3, u).
     rbind (u_rawbyte u) (\<lambda>(c2, u).
     rbind (u_rawbyte u) (\<lambda>(c1, u).
     rbind (u_rawbyte u) (\<lambda>(c0, u).
     Inr (push_bit 24 (c3 AND 0xff) OR push_bit 16 (c2 AND 0xff) OR push_bit 8 (c1 AND 0xff)
            OR (c0 AND 0xff), u)))))"

definition get_ull :: "unmarshall \<Rightarrow> fault + (u64 \<times> unmarshall)" where
  "get_ull u =
     rbind (get_uint u) (\<lambda>(h, u).
     rbind (get_uint u) (\<lambda>(l, u).
     Inr (ucast l OR push_bit 32 (ucast h), u)))"

text \<open>\<open>s0\<close> is what the string variable held before the extraction.\<close>

definition get_string :: "string \<Rightarrow> unmarshall \<Rightarrow> fault + (string \<times> unmarshall)" where
  "get_string s0 u =
     rbind (get_uint u) (\<lambda>(sz, u). if u_ok u then u_rawbytes s0 sz u else Inr (s0, u))"

definition get_pair ::
  "(unmarshall \<Rightarrow> fault + ('a \<times> unmarshall)) \<Rightarrow> (unmarshall \<Rightarrow> fault + ('b \<times> unmarshall)) \<Rightarrow>
   unmarshall \<Rightarrow> fault + (('a \<times> 'b) \<times> unmarshall)" where
  "get_pair getA getB u =
     rbind (getA u) (\<lambda>(a, u). rbind (getB u) (\<lambda>(b, u). Inr ((a, b), u)))"

primrec get_all ::
  "(unmarshall \<Rightarrow> fault + ('a \<times> unmarshall)) \<Rightarrow> nat \<Rightarrow> 'a list \<Rightarrow> unmarshall \<Rightarrow>
   fault + ('a list \<times> unmarshall)" where
  "get_all getC 0 v u = Inr (v, u)"
| "get_all getC (Suc n) v u = rbind (getC u) (\<lambda>(z, u). get_all getC n (v @ [z]) u)"

definition get_vector ::
  "(unmarshall \<Rightarrow> fault + ('a \<times> unmarshall)) \<Rightarrow> 'a list \<Rightarrow> unmarshall \<Rightarrow>
   fault + ('a list \<times> unmarshall)" where
  "get_vector getC v u = rbind (get_uint u) (\<lambda>(n, u). get_all getC (unat n) v u)"

primrec get_entries ::
  "(unmarshall \<Rightarrow> fault + (('a::linorder \<times> 'b) \<times> unmarshall)) \<Rightarrow> nat \<Rightarrow> ('a \<times> 'b) list \<Rightarrow>
   unmarshall \<Rightarrow> fault + (('a \<times> 'b) list \<times> unmarshall)" where
  "get_entries getAB 0 d u = Inr (d, u)"
| "get_entries getAB (Suc n) d u =
     rbind (getAB u) (\<lambda>((a, b), u). get_entries getAB n (map_insert a b d) u)"

definition get_map ::
  "(unmarshall \<Rightarrow> fault + ('a::linorder \<times> unmarshall)) \<Rightarrow> (unmarshall \<Rightarrow> fault + ('b \<times> unmarshall)) \<Rightarrow>
   unmarshall \<Rightarrow> fault + (('a \<times> 'b) list \<times> unmarshall)" where
  "get_map getA getB u =
     rbind (get_uint u) (\<lambda>(n, u). get_entries (get_pair getA getB) (unat n) [] u)"

end
