(* ===== verification/Reply_Window.thy ===== *)
theory Reply_Window
  imports Marshall
begin

text \<open>
  The at-most-once reply window of the RPC server, \<^verbatim>\<open>rpcs::checkduplicate_and_update\<close> and \<^verbatim>\<open>rpcs::add_reply\<close>
  in \<^verbatim>\<open>src/rpc/rpc.cc\<close>. A window is the \<^verbatim>\<open>std::list<reply_t>\<close> of one client; iterators are positions in
  it, and dereferencing the end is the fault \<open>End_Deref\<close>. The first part defines the code, the second
  characterises it on ordered windows, the third states what it guarantees and where it fails.
\<close>

section \<open>Definitions\<close>

datatype rpcstate = NEW | INPROGRESS | DONE | FORGOTTEN

record reply_t =
  rp_xid :: u32
  rp_present :: bool
  rp_buf :: "cells option"
  rp_sz :: int

definition reply_new :: "u32 \<Rightarrow> reply_t" where
  "reply_new xid = \<lparr>rp_xid = xid, rp_present = False, rp_buf = None, rp_sz = 0\<rparr>"

text \<open>
  The inner loop that moves the window while \<^verbatim>\<open>reply_iter\<close> is at the front: \<open>k\<close> is the position of
  \<^verbatim>\<open>reply_iter_after\<close>, which is not advanced when the front is erased.
\<close>

fun move_window :: "reply_t list \<Rightarrow> nat \<Rightarrow> fault + reply_t list \<times> nat" where
  "move_window [] k = Inl End_Deref"
| "move_window (r # L) k =
     (if rp_present r then
        if length (r # L) \<le> k then Inl End_Deref
        else if rp_xid ((r # L) ! k) = rp_xid r + 1 then move_window L (k - 1)
        else Inr (r # L, k)
      else Inr (r # L, k))"

text \<open>
  The result of a check: the window, the verdict, and what was stored through \<^verbatim>\<open>b\<close> and \<^verbatim>\<open>sz\<close>
  (\<^term>\<open>None\<close> when they were left unset).
\<close>

type_synonym cd_result = "reply_t list \<times> rpcstate \<times> (cells option \<times> int) option"

lemma move_window_length: "move_window L k = Inr (L', k') \<Longrightarrow> length L' \<le> length L"
proof (induction L arbitrary: k)
  case (Cons r L)
  show ?case
  proof (cases "rp_present r \<and> k < length (r # L) \<and> rp_xid ((r # L) ! k) = rp_xid r + 1")
    case True
    with Cons.prems have "move_window L (k - 1) = Inr (L', k')" by simp
    then show ?thesis using Cons.IH by fastforce
  next
    case False
    with Cons.prems show ?thesis by (auto split: if_splits)
  qed
qed simp

lemma move_window_decreases:
  "move_window L k = Inr (L', k') \<Longrightarrow> L \<noteq> [] \<Longrightarrow> length L' - Suc 0 < length L"
  by (cases L) (auto dest: move_window_length simp del: move_window.simps)

function cd_loop :: "u32 \<Rightarrow> reply_t list \<Rightarrow> nat \<Rightarrow> fault + cd_result" where
  "cd_loop xid L i =
     (if length L \<le> i then Inr (L, DONE, None)
      else
        (case (if i = 0 then move_window L 1 else Inr (L, i + 1)) of
           Inl e \<Rightarrow> Inl e
         | Inr (L, k) \<Rightarrow>
             if xid < rp_xid (hd L) then Inr (L, FORGOTTEN, None)
             else if xid = rp_xid (L ! i) then
               if \<not> rp_present (L ! i) then Inr (L, INPROGRESS, None)
               else Inr (L, DONE, Some (rp_buf (L ! i), rp_sz (L ! i)))
             else if xid > rp_xid (L ! i) then
               if length L \<le> k then Inl End_Deref
               else if xid < rp_xid (L ! k)
               then Inr (take i L @ [reply_new xid] @ drop i L, NEW, None)
               else cd_loop xid L (i + 1)
             else cd_loop xid L (i + 1)))"
  by pat_completeness auto
termination
proof (relation "measure (\<lambda>(xid, L, i). length L - i)")
qed (auto split: if_splits dest: move_window_decreases)

declare cd_loop.simps [simp del]

definition checkduplicate_and_update :: "u32 \<Rightarrow> reply_t list \<Rightarrow> fault + cd_result" where
  "checkduplicate_and_update xid L =
     (let L = (if L = [] then [(reply_new 0)\<lparr>rp_present := True\<rparr>] else L);
          (xidcheck, L) = (if xid > rp_xid (last L) then (NEW, L @ [reply_new xid]) else (DONE, L));
          xidcheck = (if xid < rp_xid (hd L) then FORGOTTEN else xidcheck)
      in if xidcheck \<noteq> NEW \<and> xidcheck \<noteq> FORGOTTEN then cd_loop xid L 0
         else Inr (L, xidcheck, None))"

definition add_reply :: "u32 \<Rightarrow> cells option \<Rightarrow> int \<Rightarrow> reply_t list \<Rightarrow> reply_t list" where
  "add_reply xid b sz L =
     map (\<lambda>r. if xid = rp_xid r then r\<lparr>rp_sz := sz, rp_buf := b, rp_present := True\<rparr> else r) L"

section \<open>Ordered windows\<close>

definition xids :: "reply_t list \<Rightarrow> u32 list" where
  "xids L = map rp_xid L"

definition ordered :: "reply_t list \<Rightarrow> bool" where
  "ordered L \<longleftrightarrow> L \<noteq> [] \<and> sorted_wrt (<) (xids L)"

text \<open>One step of the window: the front is dropped when its reply is there and its successor is next.\<close>

fun slide :: "reply_t list \<Rightarrow> reply_t list" where
  "slide (r # s # L) = (if rp_present r \<and> rp_xid s = rp_xid r + 1 then s # L else r # s # L)"
| "slide L = L"

lemma move_window_slide:
  assumes "length L > 1"
  shows "\<exists>k. move_window L 1 = Inr (slide L, k) \<and> (k = (if slide L = L then 1 else 0))"
proof -
  from assms obtain r s L' where L: "L = r # s # L'" by (cases L; cases "tl L") auto
  show ?thesis
  proof (cases "rp_present r \<and> rp_xid s = rp_xid r + 1")
    case True
    moreover have "rp_xid s \<noteq> rp_xid s + 1" by simp
    ultimately show ?thesis by (simp add: L)
  next
    case False
    then show ?thesis by (auto simp: L)
  qed
qed

lemma move_window_single: "move_window [r] 1 = (if rp_present r then Inl End_Deref else Inr ([r], 1))"
  by simp

lemma ordered_nth_less: "ordered L \<Longrightarrow> i < j \<Longrightarrow> j < length L \<Longrightarrow> rp_xid (L ! i) < rp_xid (L ! j)"
  by (auto simp: ordered_def xids_def sorted_wrt_iff_nth_less)

lemma ordered_hd_le: "ordered L \<Longrightarrow> r \<in> set L \<Longrightarrow> rp_xid (hd L) \<le> rp_xid r"
  by (cases L) (auto simp: ordered_def xids_def)

lemma ordered_le_last: "ordered L \<Longrightarrow> r \<in> set L \<Longrightarrow> rp_xid r \<le> rp_xid (last L)"
  by (cases L rule: rev_cases) (auto simp: ordered_def xids_def sorted_wrt_append)

lemma ordered_slide: "ordered L \<Longrightarrow> ordered (slide L)"
  by (cases L rule: slide.cases) (auto simp: ordered_def xids_def)

lemma last_slide [simp]: "last (slide L) = last L"
  by (cases L rule: slide.cases) auto

lemma set_slide: "set (slide L) \<subseteq> set L"
  by (cases L rule: slide.cases) auto

text \<open>The scan behind the front: an entry with the number asked for is found.\<close>

definition verdict_of :: "reply_t \<Rightarrow> rpcstate \<times> (cells option \<times> int) option" where
  "verdict_of r = (if rp_present r then (DONE, Some (rp_buf r, rp_sz r)) else (INPROGRESS, None))"

lemma cd_loop_hit:
  assumes "ordered L" "0 < i" "i \<le> j" "j < length L" "rp_xid (L ! j) = xid"
  shows "cd_loop xid L i = Inr (L, verdict_of (L ! j))"
  using assms(2,3)
proof (induction "j - i" arbitrary: i)
  case 0
  then have "i = j" by simp
  with assms 0 ordered_hd_le [OF assms(1), of "L ! j"] show ?case
    by (subst cd_loop.simps) (auto simp: verdict_of_def)
next
  case (Suc n)
  then have lt: "i < j" by simp
  have "rp_xid (L ! i) < xid" using ordered_nth_less [OF assms(1) lt assms(4)] assms(5) by simp
  moreover have "\<not> xid < rp_xid (hd L)" using ordered_hd_le [OF assms(1), of "L ! j"] assms(4,5) by auto
  moreover have "\<not> xid < rp_xid (L ! Suc i)"
    using ordered_nth_less [OF assms(1), of "Suc i" j] lt assms(4,5)
    by (cases "Suc i = j") (auto dest: order.asym)
  moreover have "cd_loop xid L (i + 1) = Inr (L, verdict_of (L ! j))"
    using Suc lt by (intro Suc.hyps(1)) auto
  ultimately show ?case
    using lt assms(4) Suc.prems(1) by (subst cd_loop.simps) auto
qed

text \<open>Behind the gap every number is larger, and the scan runs off the list with the verdict it started with.\<close>

lemma cd_loop_off_end:
  assumes "0 < i" "\<forall>j. i \<le> j \<and> j < length L \<longrightarrow> xid < rp_xid (L ! j)" "\<not> xid < rp_xid (hd L)"
  shows "cd_loop xid L i = Inr (L, DONE, None)"
  using assms(1,2)
proof (induction "length L - i" arbitrary: i)
  case 0
  then show ?case by (subst cd_loop.simps) simp
next
  case (Suc n)
  then have lt: "i < length L" by simp
  then have "xid < rp_xid (L ! i)" using Suc.prems(2) by simp
  moreover have "cd_loop xid L (i + 1) = Inr (L, DONE, None)" using Suc by (intro Suc.hyps(1)) auto
  ultimately show ?case using lt assms(3) Suc.prems(1) by (subst cd_loop.simps) (auto dest: order.asym)
qed

lemma cd_loop_gap:
  assumes "ordered L" "0 < i" "i \<le> j" "j + 1 < length L" "rp_xid (L ! j) < xid" "xid < rp_xid (L ! (j + 1))"
  shows "cd_loop xid L i = Inr (take j L @ [reply_new xid] @ drop j L, NEW, None)"
  using assms(2,3)
proof (induction "j - i" arbitrary: i)
  case 0
  then have "i = j" by simp
  moreover have "\<not> xid < rp_xid (hd L)"
    using ordered_hd_le [OF assms(1), of "L ! j"] assms(4,5) by auto
  ultimately show ?case using assms 0 by (subst cd_loop.simps) auto
next
  case (Suc n)
  then have lt: "i < j" by simp
  have lj: "rp_xid (L ! i) < rp_xid (L ! j)" using ordered_nth_less [OF assms(1) lt] assms(4) by simp
  then have "rp_xid (L ! i) < xid" using assms(5) by simp
  moreover have "\<not> xid < rp_xid (hd L)" using ordered_hd_le [OF assms(1), of "L ! j"] assms(4,5) by auto
  moreover have "\<not> xid < rp_xid (L ! Suc i)"
    using ordered_nth_less [OF assms(1), of "Suc i" j] lt assms(4,5)
    by (cases "Suc i = j") auto
  moreover have "cd_loop xid L (i + 1) = Inr (take j L @ [reply_new xid] @ drop j L, NEW, None)"
    using Suc lt by (intro Suc.hyps(1)) auto
  ultimately show ?case using lt assms(4) Suc.prems(1) by (subst cd_loop.simps) auto
qed

section \<open>Reference definition\<close>

text \<open>Position of the last entry below \<open>xid\<close>, for a number at or above the front.\<close>

definition gap_pos :: "u32 \<Rightarrow> reply_t list \<Rightarrow> nat" where
  "gap_pos xid L = length (takeWhile (\<lambda>r. rp_xid r < xid) L) - 1"

text \<open>What the routine does on an ordered window, without iterators or loops.\<close>

definition cd_ordered :: "u32 \<Rightarrow> reply_t list \<Rightarrow> fault + cd_result" where
  "cd_ordered xid L =
     (if xid > rp_xid (last L) then Inr (L @ [reply_new xid], NEW, None)
      else if xid < rp_xid (hd L) then Inr (L, FORGOTTEN, None)
      else if length L = 1 then
        if rp_present (hd L) then Inl End_Deref else Inr (L, INPROGRESS, None)
      else
        let L' = slide L
        in if xid < rp_xid (hd L') then Inr (L', FORGOTTEN, None)
           else case find (\<lambda>r. rp_xid r = xid) L' of
                  Some r \<Rightarrow> Inr (L', verdict_of r)
                | None \<Rightarrow>
                    let i = gap_pos xid L'
                    in if i = 0 \<and> L' \<noteq> L then Inr (L', DONE, None)
                       else Inr (take i L' @ [reply_new xid] @ drop i L', NEW, None))"

lemma slide_neq_length: "slide L \<noteq> L \<Longrightarrow> length L > 1"
  by (cases L rule: slide.cases) auto

lemma slide_Nil [simp]: "slide L = [] \<longleftrightarrow> L = []"
  by (cases L rule: slide.cases) auto

lemma find_nth:
  assumes "ordered L" "find (\<lambda>r. rp_xid r = xid) L = Some r"
  obtains j where "j < length L" "L ! j = r" "rp_xid r = xid"
  using assms(2) by (auto simp: find_Some_iff)

lemma gap_pos_props:
  assumes "ordered L" "rp_xid (hd L) < xid" "xid < rp_xid (last L)" "find (\<lambda>r. rp_xid r = xid) L = None"
  shows "gap_pos xid L + 1 < length L" "rp_xid (L ! gap_pos xid L) < xid" "xid < rp_xid (L ! (gap_pos xid L + 1))"
proof -
  let ?n = "length (takeWhile (\<lambda>r. rp_xid r < xid) L)"
  have ne: "L \<noteq> []" using assms(1) by (simp add: ordered_def)
  then have pos: "0 < ?n" using assms(2) by (cases L) auto
  have lt: "?n < length L"
  proof (rule ccontr)
    assume "\<not> ?n < length L"
    then have "takeWhile (\<lambda>r. rp_xid r < xid) L = L"
      by (metis length_takeWhile_le nle_le not_le takeWhile_eq_take take_all)
    then have "rp_xid (last L) < xid"
      using ne by (metis last_in_set set_takeWhileD)
    with assms(3) show False by simp
  qed
  show "gap_pos xid L + 1 < length L" using lt pos by (simp add: gap_pos_def)
  show "rp_xid (L ! gap_pos xid L) < xid"
    using pos by (metis diff_less gap_pos_def nth_mem set_takeWhileD takeWhile_nth zero_less_one)
  have "\<not> rp_xid (L ! ?n) < xid" using lt by (rule nth_length_takeWhile)
  moreover have "rp_xid (L ! ?n) \<noteq> xid" using assms(4) lt by (auto simp: find_None_iff)
  ultimately show "xid < rp_xid (L ! (gap_pos xid L + 1))" using pos by (simp add: gap_pos_def)
qed

lemma cd_loop_front:
  assumes "length L > 1" "L' = slide L" "\<not> xid < rp_xid (hd L')" "xid \<noteq> rp_xid (hd L')"
  shows "cd_loop xid L 0 =
    (if L' = L \<and> xid < rp_xid (L' ! 1) then Inr (reply_new xid # L', NEW, None) else cd_loop xid L' 1)"
proof -
  obtain k where k: "move_window L 1 = Inr (L', k)" "k = (if L' = L then 1 else 0)"
    using move_window_slide [OF assms(1)] assms(2) by blast
  have ne: "L' \<noteq> []" using assms(1,2) by auto
  then have h: "L' ! 0 = hd L'" by (simp add: hd_conv_nth)
  have "rp_xid (hd L') < xid" using assms(3,4) by simp
  moreover have "k < length L'" using k(2) ne assms(1) by auto
  ultimately show ?thesis
    using assms k ne h by (subst cd_loop.simps) (auto dest: order.asym)
qed

lemma cd_loop_ordered:
  assumes "ordered L" "xid \<le> rp_xid (last L)" "\<not> xid < rp_xid (hd L)"
  shows "cd_loop xid L 0 = cd_ordered xid L"
proof (cases "length L = 1")
  case True
  then obtain r where r: "L = [r]" by (cases L) auto
  with assms have "xid = rp_xid r" by simp
  with r show ?thesis by (subst cd_loop.simps) (simp add: cd_ordered_def)
next
  case False
  then have len: "length L > 1" using assms(1) by (cases L) (auto simp: ordered_def)
  define L' where "L' = slide L"
  have nl: "\<not> rp_xid (last L) < xid" using assms(2) by simp
  have ord: "ordered L'" using ordered_slide [OF assms(1)] by (simp add: L'_def)
  have ne: "L' \<noteq> []" using ord by (simp add: ordered_def)
  have la: "xid \<le> rp_xid (last L')" using assms(2) by (simp add: L'_def)
  obtain k where k: "move_window L 1 = Inr (L', k)" using move_window_slide [OF len] by (auto simp: L'_def)
  consider (before) "xid < rp_xid (hd L')" | (front) "xid = rp_xid (hd L')"
    | (found) j where "\<not> xid < rp_xid (hd L')" "0 < j" "j < length L'" "rp_xid (L' ! j) = xid"
        "find (\<lambda>r. rp_xid r = xid) L' = Some (L' ! j)"
    | (gap) "rp_xid (hd L') < xid" "find (\<lambda>r. rp_xid r = xid) L' = None"
  proof (cases "find (\<lambda>r. rp_xid r = xid) L'")
    case None
    then have "xid \<noteq> rp_xid (hd L')" using hd_in_set [OF ne] unfolding find_None_iff by blast
    with None show ?thesis using before gap by fastforce
  next
    case (Some r)
    with ord obtain j where "j < length L'" "L' ! j = r" "rp_xid r = xid" by (rule find_nth)
    with Some show ?thesis using before front found [of j] ne by (cases "j = 0") (auto simp: hd_conv_nth)
  qed
  then show ?thesis
  proof cases
    case before
    with k len assms show ?thesis
      by (subst cd_loop.simps) (auto simp: cd_ordered_def L'_def [symmetric] Let_def)
  next
    case front
    then have "find (\<lambda>r. rp_xid r = xid) L' = Some (hd L')" using ne by (cases L') auto
    with front k len assms ne show ?thesis
      by (subst cd_loop.simps)
        (auto simp: cd_ordered_def L'_def [symmetric] Let_def verdict_of_def hd_conv_nth)
  next
    case found
    have "rp_xid (L' ! 0) < xid" using ordered_nth_less [OF ord found(2,3)] found(4) by simp
    then have "xid \<noteq> rp_xid (hd L')" using ne by (simp add: hd_conv_nth)
    moreover have "\<not> xid < rp_xid (L' ! 1)"
      using ordered_nth_less [OF ord, of 1 j] found(2-4) by (cases "j = 1") auto
    ultimately have "cd_loop xid L 0 = cd_loop xid L' 1"
      using cd_loop_front [OF len L'_def found(1)] by simp
    also have "\<dots> = Inr (L', verdict_of (L' ! j))" using cd_loop_hit [OF ord _ _ found(3,4), of 1] found(2) by simp
    finally show ?thesis using found len assms(3) nl by (simp add: cd_ordered_def L'_def [symmetric] Let_def)
  next
    case gap
    have last: "xid < rp_xid (last L')"
    proof -
      have "rp_xid (last L') \<noteq> xid" using gap(2) last_in_set [OF ne] unfolding find_None_iff by blast
      with la show ?thesis by simp
    qed
    note g = gap_pos_props [OF ord gap(1) last gap(2)]
    have front: "cd_loop xid L 0 =
      (if L' = L \<and> xid < rp_xid (L' ! 1) then Inr (reply_new xid # L', NEW, None) else cd_loop xid L' 1)"
      using cd_loop_front [OF len L'_def] gap(1) by auto
    have "cd_loop xid L 0 = (if gap_pos xid L' = 0 \<and> L' \<noteq> L then Inr (L', DONE, None)
      else Inr (take (gap_pos xid L') L' @ [reply_new xid] @ drop (gap_pos xid L') L', NEW, None))"
    proof (cases "gap_pos xid L' = 0")
      case True
      have "\<forall>j. 1 \<le> j \<and> j < length L' \<longrightarrow> xid < rp_xid (L' ! j)"
      proof (intro allI impI)
        fix j assume j: "1 \<le> j \<and> j < length L'"
        have x1: "xid < rp_xid (L' ! 1)" using g(3) True by simp
        show "xid < rp_xid (L' ! j)"
        proof (cases "j = 1")
          case False
          then have "rp_xid (L' ! 1) < rp_xid (L' ! j)" using j by (intro ordered_nth_less [OF ord]) auto
          with x1 show ?thesis by (rule order.strict_trans)
        qed (use x1 in simp)
      qed
      then have "cd_loop xid L' 1 = Inr (L', DONE, None)"
        using gap(1) by (intro cd_loop_off_end) auto
      with front True g(3) show ?thesis by auto
    next
      case False
      then have "rp_xid (L' ! 1) \<le> rp_xid (L' ! gap_pos xid L')"
        using ordered_nth_less [OF ord, of 1 "gap_pos xid L'"] g(1) by (cases "gap_pos xid L' = 1") auto
      then have "\<not> xid < rp_xid (L' ! 1)" using g(2) by auto
      with front False cd_loop_gap [OF ord _ _ g, of 1] show ?thesis by auto
    qed
    moreover have "\<not> xid < rp_xid (hd L')" using gap(1) by simp
    ultimately show ?thesis using gap(2) assms(3) nl len by (simp add: cd_ordered_def L'_def [symmetric] Let_def)
  qed
qed

lemma ordered_hd_le_last: "ordered L \<Longrightarrow> rp_xid (hd L) \<le> rp_xid (last L)"
  by (rule ordered_hd_le) (auto simp: ordered_def)

lemma cd_ordered_eq:
  assumes "ordered L"
  shows "checkduplicate_and_update xid L = cd_ordered xid L"
proof -
  have ne: "L \<noteq> []" using assms by (simp add: ordered_def)
  consider "xid > rp_xid (last L)" | "xid < rp_xid (hd L)" "xid \<le> rp_xid (last L)"
    | "xid \<le> rp_xid (last L)" "\<not> xid < rp_xid (hd L)" by fastforce
  then show ?thesis
  proof cases
    case 1
    then have "\<not> xid < rp_xid (hd L)" using ordered_hd_le_last [OF assms] by auto
    with 1 ne show ?thesis by (simp add: checkduplicate_and_update_def cd_ordered_def)
  next
    case 2
    with ne show ?thesis by (simp add: checkduplicate_and_update_def cd_ordered_def)
  next
    case 3
    moreover have "\<not> rp_xid (last L) < xid" using 3(1) by simp
    ultimately show ?thesis using ne cd_loop_ordered [OF assms 3] by (simp add: checkduplicate_and_update_def)
  qed
qed

section \<open>Traces\<close>

text \<open>What happens to one client's window: requests arrive and replies are recorded.\<close>

datatype rw_event = Request u32 | Reply u32 "cells option" int

type_synonym rw_log = "(u32 \<times> rpcstate \<times> (cells option \<times> int) option) list"

fun rw_run :: "rw_event list \<Rightarrow> reply_t list \<Rightarrow> fault + reply_t list \<times> rw_log" where
  "rw_run [] L = Inr (L, [])"
| "rw_run (Request x # es) L =
     rbind (checkduplicate_and_update x L) (\<lambda>(L, v).
       rbind (rw_run es L) (\<lambda>(L, log). Inr (L, (x, v) # log)))"
| "rw_run (Reply x b sz # es) L = rw_run es (add_reply x b sz L)"

text \<open>
  Traces of a client whose requests first arrive in the order of their numbers (retransmissions come at any
  time) and of a server that records replies only to requests it has received. \<open>S\<close> holds the numbers
  seen so far, the reserved number 0 included.
\<close>

fun in_order :: "u32 set \<Rightarrow> rw_event list \<Rightarrow> bool" where
  "in_order S [] \<longleftrightarrow> True"
| "in_order S (Request x # es) \<longleftrightarrow> (x \<in> S \<or> (\<forall>y \<in> S. y < x)) \<and> in_order (insert x S) es"
| "in_order S (Reply x b sz # es) \<longleftrightarrow> x \<in> S \<and> x \<noteq> 0 \<and> in_order S es"

text \<open>
  The specification: a number seen for the first time is executed; a number seen before is never executed
  again, is reported in progress only while no reply is recorded, is answered with the reply last recorded,
  or is declared forgotten after a reply was recorded.
\<close>

definition amo_verdict ::
  "u32 set \<Rightarrow> (u32 \<rightharpoonup> cells option \<times> int) \<Rightarrow> u32 \<Rightarrow> rpcstate \<Rightarrow> (cells option \<times> int) option \<Rightarrow> bool" where
  "amo_verdict S R x st out \<longleftrightarrow>
     (if x \<notin> S then st = NEW \<and> out = None
      else st = INPROGRESS \<and> out = None \<and> R x = None \<or>
           st = DONE \<and> out \<noteq> None \<and> out = R x \<or>
           st = FORGOTTEN \<and> out = None \<and> R x \<noteq> None)"

fun amo_spec :: "u32 set \<Rightarrow> (u32 \<rightharpoonup> cells option \<times> int) \<Rightarrow> rw_event list \<Rightarrow> rw_log \<Rightarrow> bool" where
  "amo_spec S R [] log \<longleftrightarrow> log = []"
| "amo_spec S R (Request x # es) log \<longleftrightarrow>
     (\<exists>st out log'. log = (x, st, out) # log' \<and> amo_verdict S R x st out \<and> amo_spec (insert x S) R es log')"
| "amo_spec S R (Reply x b sz # es) log \<longleftrightarrow> amo_spec S (R(x \<mapsto> (b, sz))) es log"

section \<open>At most once for requests that arrive in order\<close>

definition rw_inv :: "u32 set \<Rightarrow> (u32 \<rightharpoonup> cells option \<times> int) \<Rightarrow> reply_t list \<Rightarrow> bool" where
  "rw_inv S R L \<longleftrightarrow> ordered L \<and>
     rp_xid ` set L \<subseteq> S \<and>
     (\<forall>x \<in> S. x \<in> rp_xid ` set L \<or> x < rp_xid (hd L) \<and> R x \<noteq> None) \<and>
     (\<forall>r \<in> set L. R (rp_xid r) = (if rp_present r then Some (rp_buf r, rp_sz r) else None)) \<and>
     (\<forall>x. R x \<noteq> None \<longrightarrow> x \<in> S)"

lemma rw_inv_add_reply:
  assumes "rw_inv S R L" "x \<in> S"
  shows "rw_inv S (R(x \<mapsto> (b, sz))) (add_reply x b sz L)"
proof -
  have keep: "map rp_xid (add_reply x b sz L) = map rp_xid L"
    by (simp add: add_reply_def)
  then have im: "rp_xid ` set (add_reply x b sz L) = rp_xid ` set L"
    by (metis list.set_map)
  have ne: "L \<noteq> []" using assms(1) by (simp add: rw_inv_def ordered_def)
  then have hd: "rp_xid (hd (add_reply x b sz L)) = rp_xid (hd L)" "add_reply x b sz L \<noteq> []"
    by (cases L; simp add: add_reply_def)+
  have "ordered (add_reply x b sz L)" using assms(1) hd(2) by (simp add: rw_inv_def ordered_def xids_def keep)
  moreover have "\<forall>r \<in> set (add_reply x b sz L). (R(x \<mapsto> (b, sz))) (rp_xid r) =
      (if rp_present r then Some (rp_buf r, rp_sz r) else None)"
    using assms(1) by (auto simp: add_reply_def rw_inv_def)
  ultimately show ?thesis using assms im hd(1) by (auto simp: rw_inv_def)
qed

lemma rw_inv_slide:
  assumes "rw_inv S R L"
  shows "rw_inv S R (slide L)"
proof (cases L rule: slide.cases)
  case (1 r s L')
  have "ordered (slide L)" using assms by (simp add: rw_inv_def ordered_slide)
  moreover have "\<forall>x \<in> S. x \<in> rp_xid ` set (slide L) \<or> x < rp_xid (hd (slide L)) \<and> R x \<noteq> None"
  proof
    fix x assume "x \<in> S"
    then have x: "x \<in> rp_xid ` set L \<or> x < rp_xid (hd L) \<and> R x \<noteq> None" using assms by (simp add: rw_inv_def)
    have rs: "rp_xid r < rp_xid s" using assms by (simp add: rw_inv_def ordered_def xids_def 1)
    have "R (rp_xid r) \<noteq> None" if "rp_present r" using assms that by (simp add: rw_inv_def 1)
    with x rs show "x \<in> rp_xid ` set (slide L) \<or> x < rp_xid (hd (slide L)) \<and> R x \<noteq> None"
      by (auto simp: 1)
  qed
  ultimately show ?thesis using assms set_slide [of L] by (auto simp: rw_inv_def)
qed (use assms in auto)

lemma rw_inv_seen: "rw_inv S R L \<Longrightarrow> x \<in> S \<Longrightarrow> x \<in> rp_xid ` set L \<or> x < rp_xid (hd L) \<and> R x \<noteq> None"
  by (simp add: rw_inv_def)

lemma rw_inv_reply: "rw_inv S R L \<Longrightarrow> x \<notin> S \<Longrightarrow> R x = None"
  unfolding rw_inv_def by blast

lemma rw_inv_new:
  assumes "rw_inv S R L" "rp_xid (last L) < x"
  shows "x \<notin> S" "rw_inv (insert x S) R (L @ [reply_new x])"
proof -
  have ord: "ordered L" using assms(1) by (simp add: rw_inv_def)
  have below: "y < x" if yS: "y \<in> S" for y
  proof -
    consider r where "r \<in> set L" "y = rp_xid r" | "y < rp_xid (hd L)"
      using rw_inv_seen [OF assms(1) yS] by blast
    then have "y \<le> rp_xid (last L)"
      using ordered_le_last [OF ord] ordered_hd_le_last [OF ord] by cases (auto intro: order.trans)
    with assms(2) show ?thesis by simp
  qed
  then show "x \<notin> S" by blast
  then have none: "R x = None" using rw_inv_reply [OF assms(1)] by simp
  have "ordered (L @ [reply_new x])"
    using ord below assms(1) by (auto simp: ordered_def xids_def sorted_wrt_append rw_inv_def reply_new_def)
  moreover have "hd (L @ [reply_new x]) = hd L" using ord by (simp add: ordered_def)
  ultimately show "rw_inv (insert x S) R (L @ [reply_new x])"
    using assms(1) none by (auto simp: rw_inv_def reply_new_def)
qed

lemma rw_inv_found:
  assumes "rw_inv S R L" "find (\<lambda>r. rp_xid r = x) L = Some r"
  shows "x \<in> S \<and> amo_verdict S R x (fst (verdict_of r)) (snd (verdict_of r))"
proof -
  have r: "r \<in> set L" "rp_xid r = x" using assms(2) by (auto simp: find_Some_iff)
  then show ?thesis
    using assms(1) unfolding rw_inv_def amo_verdict_def verdict_of_def by fastforce
qed

lemma rw_inv_forgotten:
  assumes "rw_inv S R L" "x \<in> S" "x < rp_xid (hd L)"
  shows "amo_verdict S R x FORGOTTEN None"
proof -
  have "ordered L" using assms(1) by (simp add: rw_inv_def)
  then have "x \<notin> rp_xid ` set L" using assms(3) ordered_hd_le [of L] by (auto dest: leD)
  with assms(1,2) show ?thesis by (auto simp: rw_inv_def amo_verdict_def)
qed

text \<open>One request on a window that holds what the specification says.\<close>

lemma rw_request:
  assumes inv: "rw_inv S R L" and x: "x \<in> S \<or> (\<forall>y \<in> S. y < x)"
  shows "case checkduplicate_and_update x L of
      Inl e \<Rightarrow> e = End_Deref
    | Inr (L', st, out) \<Rightarrow> amo_verdict S R x st out \<and> rw_inv (insert x S) R L'"
proof -
  have ord: "ordered L" and ne: "L \<noteq> []" using inv by (simp_all add: rw_inv_def ordered_def)
  have last: "rp_xid (last L) \<in> S" using inv last_in_set [OF ne] by (auto simp: rw_inv_def)
  show ?thesis
  proof (cases "rp_xid (last L) < x")
    case True
    from rw_inv_new [OF inv True] True show ?thesis
      by (simp add: cd_ordered_eq [OF ord] cd_ordered_def amo_verdict_def)
  next
    case nl: False
    with x last have xS: "x \<in> S" by auto
    show ?thesis
    proof (cases "x < rp_xid (hd L)")
      case True
      with nl xS rw_inv_forgotten [OF inv xS True] inv show ?thesis
        by (simp add: cd_ordered_eq [OF ord] cd_ordered_def insert_absorb)
    next
      case nf: False
      show ?thesis
      proof (cases "length L = 1")
        case True
        then obtain r where r: "L = [r]" by (cases L) auto
        with nl nf have "find (\<lambda>r. rp_xid r = x) L = Some r" by auto
        from rw_inv_found [OF inv this] nl nf xS inv show ?thesis
          unfolding cd_ordered_eq [OF ord] by (auto simp: cd_ordered_def r verdict_of_def insert_absorb)
      next
        case False
        note inv' = rw_inv_slide [OF inv]
        show ?thesis
        proof (cases "x < rp_xid (hd (slide L))")
          case True
          with nl nf False rw_inv_forgotten [OF inv' xS True] inv' xS show ?thesis
            by (simp add: cd_ordered_eq [OF ord] cd_ordered_def Let_def insert_absorb)
        next
          case nf': False
          then obtain r where r: "find (\<lambda>r. rp_xid r = x) (slide L) = Some r"
            using inv' xS unfolding rw_inv_def
            by (cases "find (\<lambda>r. rp_xid r = x) (slide L)") (auto simp: find_None_iff)
          from rw_inv_found [OF inv' r] r nl nf nf' False inv' xS show ?thesis
            by (cases "verdict_of r") (simp add: cd_ordered_eq [OF ord] cd_ordered_def Let_def insert_absorb)
        qed
      qed
    qed
  qed
qed

lemma rw_run_refines:
  assumes "rw_inv S R L" "in_order S es"
  shows "case rw_run es L of Inl e \<Rightarrow> e = End_Deref | Inr (L', log) \<Rightarrow> amo_spec S R es log"
  using assms
proof (induction es arbitrary: S R L)
  case (Cons e es)
  show ?case
  proof (cases e)
    case (Request x)
    note step = rw_request [of S R L x]
    show ?thesis
    proof (cases "checkduplicate_and_update x L")
      case (Inl f)
      with step Cons.prems Request show ?thesis by simp
    next
      case (Inr v)
      obtain L' st out where v: "v = (L', st, out)" by (cases v)
      with Inr step Cons.prems Request have "amo_verdict S R x st out" "rw_inv (insert x S) R L'" by auto
      moreover from Cons.IH [OF this(2)] Cons.prems(2) Request
      have "case rw_run es L' of Inl e \<Rightarrow> e = End_Deref | Inr (L', log) \<Rightarrow> amo_spec (insert x S) R es log" by simp
      ultimately show ?thesis unfolding Request
        by (cases "rw_run es L'") (auto simp: Inr v)
    qed
  next
    case (Reply x b sz)
    with Cons.prems have "x \<in> S" "in_order S es" by simp_all
    from Cons.IH [OF rw_inv_add_reply [OF Cons.prems(1) this(1), of b sz] this(2)] show ?thesis
      unfolding Reply by (cases "rw_run es (add_reply x b sz L)") auto
  qed
qed simp

lemma cd_empty: "checkduplicate_and_update x [] = checkduplicate_and_update x [(reply_new 0)\<lparr>rp_present := True\<rparr>]"
  by (simp add: checkduplicate_and_update_def)

lemma rw_inv_start: "rw_inv {0} [0 \<mapsto> (None, 0)] [(reply_new 0)\<lparr>rp_present := True\<rparr>]"
  by (auto simp: rw_inv_def ordered_def xids_def reply_new_def)

lemma rw_run_start:
  assumes "in_order {0} es" "es \<noteq> []"
  shows "rw_run es [] = rw_run es [(reply_new 0)\<lparr>rp_present := True\<rparr>]"
proof -
  from assms obtain e es' where es: "es = e # es'" by (cases es) auto
  with assms(1) show ?thesis by (cases e) (auto simp: cd_empty)
qed

lemma rw_run_fresh:
  assumes "in_order {0} es"
  shows "case rw_run es [] of Inl e \<Rightarrow> e = End_Deref | Inr (L, log) \<Rightarrow> amo_spec {0} [0 \<mapsto> (None, 0)] es log"
proof (cases "es = []")
  case False
  show ?thesis using rw_run_refines [OF rw_inv_start assms] rw_run_start [OF assms False] by simp
qed simp

definition executions :: "rw_log \<Rightarrow> u32 list" where
  "executions log = map fst (filter (\<lambda>(x, st, out). st = NEW) log)"

lemma amo_spec_once: "amo_spec S R es log \<Longrightarrow> distinct (executions log) \<and> set (executions log) \<inter> S = {}"
proof (induction es arbitrary: S R log)
  case (Cons e es)
  show ?case
  proof (cases e)
    case (Request x)
    with Cons.prems obtain st out log' where l: "log = (x, st, out) # log'" "amo_verdict S R x st out"
        "amo_spec (insert x S) R es log'" by auto
    from Cons.IH [OF l(3)] l(2) show ?thesis by (auto simp: l(1) executions_def amo_verdict_def split: if_splits)
  next
    case (Reply x b sz)
    with Cons show ?thesis by auto
  qed
qed (simp add: executions_def)

section \<open>Properties\<close>

text \<open>
  C2. At-most-once execution for a client whose requests first arrive in the order of their numbers, however
  often and whenever it retransmits them, and whenever the replies are recorded: the server executes no
  request twice, executes every request on its first arrival, answers a retransmission \<open>DONE\<close> only with the
  reply recorded for that very request, \<open>INPROGRESS\<close> only while there is none, and \<open>FORGOTTEN\<close> only after one
  was recorded. The only fault it can run into is the dereference of the end of the list.
\<close>

theorem at_most_once_in_order:
  assumes "in_order {0} es"
  shows "case rw_run es [] of
      Inl e \<Rightarrow> e = End_Deref
    | Inr (L, log) \<Rightarrow> distinct (executions log) \<and> amo_spec {0} [0 \<mapsto> (None, 0)] es log"
  using rw_run_fresh [OF assms] amo_spec_once by (auto split: sum.splits)

lemma demo_trace:
  "rw_run [Request 1, Request 1, Reply 1 (Some [Some 5]) 1, Request 2, Request 1, Request 1] [] =
     Inr ([\<lparr>rp_xid = 2, rp_present = False, rp_buf = None, rp_sz = 0\<rparr>],
       [(1, NEW, None), (1, INPROGRESS, None), (2, NEW, None), (1, FORGOTTEN, None), (1, FORGOTTEN, None)])"
  by code_simp

theorem at_most_once_in_order_witness:
  "\<exists>L log. rw_run [Request 1, Request 1, Reply 1 (Some [Some 5]) 1, Request 2, Request 1, Request 1] [] = Inr (L, log) \<and>
     distinct (executions log) \<and> length log = 5"
  using at_most_once_in_order [of "[Request 1, Request 1, Reply 1 (Some [Some 5]) 1, Request 2, Request 1, Request 1]"]
  unfolding demo_trace by auto

text \<open>
  C3. The check computes, for every ordered window and every request number, what a definition without
  iterators says. That definition shows where the code departs from its comment: a retransmission of the only
  and answered entry dereferences the end of the list; a number missing right behind a front that has just
  moved is reported \<open>DONE\<close> with no reply at all; any other missing number is inserted before the entry it should
  follow.
\<close>

theorem checkduplicate_on_ordered_windows:
  assumes "ordered L"
  shows "checkduplicate_and_update xid L = cd_ordered xid L"
  using assms by (rule cd_ordered_eq)

theorem checkduplicate_on_ordered_windows_witness:
  "checkduplicate_and_update 2 [(reply_new 0)\<lparr>rp_present := True\<rparr>, reply_new 1, reply_new 3] =
     Inr ([reply_new 1, reply_new 3], DONE, None)"
proof -
  have "ordered [(reply_new 0)\<lparr>rp_present := True\<rparr>, reply_new 1, reply_new 3]"
    by (simp add: ordered_def xids_def reply_new_def)
  from checkduplicate_on_ordered_windows [OF this, of 2] show ?thesis
    by (simp add: cd_ordered_def gap_pos_def reply_new_def)
qed

text \<open>
  For requests that arrive out of order the server does not keep its promises. Request 2 is executed twice
  when its retransmission arrives after requests 4 and 3; request 1 is rejected as forgotten although it was
  never received before; request 2 is reported done without a reply although it was never executed; and a
  second retransmission of request 1 after its reply dereferences the end of the list.
\<close>

lemma out_of_order_failures:
  "(\<exists>L log. rw_run [Request 2, Request 4, Request 3, Request 2] [] = Inr (L, log) \<and> executions log = [2, 4, 3, 2]) \<and>
   (\<exists>L. rw_run [Request 3, Request 2, Request 1] [] = Inr (L, [(3, NEW, None), (2, NEW, None), (1, FORGOTTEN, None)])) \<and>
   (\<exists>L. rw_run [Request 1, Request 3, Request 2] [] = Inr (L, [(1, NEW, None), (3, NEW, None), (2, DONE, None)])) \<and>
   rw_run [Request 1, Reply 1 (Some [Some 5]) 1, Request 1, Request 1] [] = Inl End_Deref"
proof (intro conjI)
  have "case rw_run [Request 2, Request 4, Request 3, Request 2] [] of Inr (L, log) \<Rightarrow> executions log = [2, 4, 3, 2] | _ \<Rightarrow> False"
    by code_simp
  then show "\<exists>L log. rw_run [Request 2, Request 4, Request 3, Request 2] [] = Inr (L, log) \<and> executions log = [2, 4, 3, 2]"
    by (auto split: sum.splits)
  have "case rw_run [Request 3, Request 2, Request 1] [] of
      Inr (L, log) \<Rightarrow> log = [(3, NEW, None), (2, NEW, None), (1, FORGOTTEN, None)] | _ \<Rightarrow> False"
    by code_simp
  then show "\<exists>L. rw_run [Request 3, Request 2, Request 1] [] = Inr (L, [(3, NEW, None), (2, NEW, None), (1, FORGOTTEN, None)])"
    by (auto split: sum.splits)
  have "case rw_run [Request 1, Request 3, Request 2] [] of
      Inr (L, log) \<Rightarrow> log = [(1, NEW, None), (3, NEW, None), (2, DONE, None)] | _ \<Rightarrow> False"
    by code_simp
  then show "\<exists>L. rw_run [Request 1, Request 3, Request 2] [] = Inr (L, [(1, NEW, None), (3, NEW, None), (2, DONE, None)])"
    by (auto split: sum.splits)
  show "rw_run [Request 1, Reply 1 (Some [Some 5]) 1, Request 1, Request 1] [] = Inl End_Deref"
    by code_simp
qed

end
