(* ===== verification/Wire_Codec.thy ===== *)
theory Wire_Codec
  imports Marshall "HOL-Library.Sublist"
begin

text \<open>
  What the marshalling operations of \<open>Marshall\<close> compute: every insertion into a well-formed buffer
  succeeds and appends a fixed encoding, every extraction inverts it, a truncated input is noticed.
  The three facts are the laws of the locale \<open>wire_codec\<close>, interpreted for each type the sources
  marshall; vectors, pairs and maps inherit them.  The request and reply headers, and the bytes a
  peer receives, follow.
\<close>

section \<open>Well-formed buffers\<close>

definition m_wf :: "marshall \<Rightarrow> bool" where
  "m_wf m \<longleftrightarrow> (\<exists>c. m_buf m = Some c \<and> length c = m_capa m) \<and> 0 < m_capa m \<and> m_ind m \<le> m_capa m"

definition m_tight :: "marshall \<Rightarrow> bool" where
  "m_tight m \<longleftrightarrow> m_capa m \<le> max DEFAULT_RPC_SZ (2 * m_ind m)"

definition m_cells :: "marshall \<Rightarrow> cells" where
  "m_cells m = (case m_buf m of None \<Rightarrow> [] | Some c \<Rightarrow> take (m_ind m) c)"

definition u_wf :: "unmarshall \<Rightarrow> bool" where
  "u_wf u \<longleftrightarrow> (\<exists>b. u_buf u = Some b \<and> u_sz u \<le> length b) \<and> u_ind u \<le> u_sz u \<and> u_sz u < 2 ^ 31"

definition u_rest :: "unmarshall \<Rightarrow> byte list" where
  "u_rest u = (case u_buf u of None \<Rightarrow> [] | Some b \<Rightarrow> drop (u_ind u) (take (u_sz u) b))"

definition be16 :: "u16 \<Rightarrow> byte list" where
  "be16 x = [ucast (drop_bit 8 x), ucast x]"

definition be32 :: "u32 \<Rightarrow> byte list" where
  "be32 x = [ucast (drop_bit 24 x), ucast (drop_bit 16 x), ucast (drop_bit 8 x), ucast x]"

definition be64 :: "u64 \<Rightarrow> byte list" where
  "be64 x = be32 (ucast (drop_bit 32 x)) @ be32 (ucast x)"

definition string_enc :: "string \<Rightarrow> byte list" where
  "string_enc s = be32 (word_of_nat (length s)) @ map byte_of_char s"

lemma RPC_HEADER_SZ_eq [simp]: "RPC_HEADER_SZ = 24"
  by (simp add: RPC_HEADER_SZ_def static_max_def sizeof_req_header_def sizeof_reply_header_def
      sizeof_rpc_sz_def)

lemma sizeof_rpc_sz_eq [simp]: "sizeof_rpc_sz = 4"
  by (simp add: sizeof_rpc_sz_def)

lemma length_enc [simp]:
  "length (be16 x) = 2" "length (be32 y) = 4" "length (be64 z) = 8"
  "length (string_enc s) = 4 + length s"
  by (simp_all add: be16_def be32_def be64_def string_enc_def)

lemma m_wf_new: "m_wf marshall_new"
  by (simp add: m_wf_def marshall_new_def realloc_def DEFAULT_RPC_SZ_def)

lemma length_m_cells: "m_wf m \<Longrightarrow> length (m_cells m) = m_ind m"
  by (auto simp: m_wf_def m_cells_def)

lemma length_u_rest: "u_wf u \<Longrightarrow> length (u_rest u) = u_sz u - u_ind u"
  by (auto simp: u_wf_def u_rest_def)

section \<open>Word arithmetic of the byte splitting\<close>

lemma ff_mask: "(0xff :: 'a::len word) = mask 8"
  by (simp add: mask_eq_exp_minus_1)

lemma byte_of_u32 [simp]: "ucast (x AND (0xff :: u32)) = (ucast x :: byte)"
  by (rule bit_word_eqI) (simp only: ff_mask, auto simp: bit_simps)

lemma byte_of_u16 [simp]: "ucast (x AND (0xff :: u16)) = (ucast x :: byte)"
  by (rule bit_word_eqI) (simp only: ff_mask, auto simp: bit_simps)

lemma byte_of_sshift [simp]:
  "ucast (signed_drop_bit 24 (x :: u32)) = (ucast (drop_bit 24 x) :: byte)"
  "ucast (signed_drop_bit 16 x) = (ucast (drop_bit 16 x) :: byte)"
  "ucast (signed_drop_bit 8 x) = (ucast (drop_bit 8 x) :: byte)"
  by (rule bit_word_eqI, auto simp: bit_simps)+

text \<open>Masking undoes the sign extension of \<open>u_rawbyte\<close>.\<close>

lemma sign_mask [simp]: "scast (b :: byte) AND (0xff :: u32) = ucast b"
proof (rule bit_word_eqI)
  fix n assume "n < LENGTH(32)"
  then show "bit (scast b AND (0xff :: u32)) n = bit (ucast b :: u32) n"
    using bit_imp_le_length [of b n]
    by (cases "n < 7"; cases "n = 7") (auto simp: ff_mask bit_simps min_def)
qed

lemma join_be32:
  "push_bit 24 (ucast (ucast (drop_bit 24 (x :: u32)) :: byte)) OR
   push_bit 16 (ucast (ucast (drop_bit 16 x) :: byte)) OR
   push_bit 8 (ucast (ucast (drop_bit 8 x) :: byte)) OR ucast (ucast x :: byte) = x"
proof (rule bit_word_eqI)
  fix n assume "n < LENGTH(32)"
  then consider "n < 8" | "8 \<le> n" "n < 16" | "16 \<le> n" "n < 24" | "24 \<le> n" "n < 32"
    by fastforce
  then show "bit (push_bit 24 (ucast (ucast (drop_bit 24 x) :: byte)) OR
      push_bit 16 (ucast (ucast (drop_bit 16 x) :: byte)) OR
      push_bit 8 (ucast (ucast (drop_bit 8 x) :: byte)) OR ucast (ucast x :: byte) :: u32) n = bit x n"
    by cases (auto simp: bit_simps)
qed

lemma join_be16:
  "ucast (push_bit 8 (ucast (ucast (drop_bit 8 (x :: u16)) :: byte) :: u32)) OR
   ucast (ucast (ucast x :: byte) :: u32) = x"
  by (rule bit_word_eqI) (auto simp: bit_simps)

lemma join_be64:
  "ucast (ucast (x :: u64) :: u32) OR push_bit 32 (ucast (ucast (drop_bit 32 x) :: u32)) = x"
  by (rule bit_word_eqI) (auto simp: bit_simps)

lemma scast_byte_back [simp]: "ucast (scast (b :: byte) :: u32) = b"
  by (rule bit_word_eqI) (auto simp: bit_simps)

lemma scast_byte_zero [simp]: "(scast (b :: byte) :: u32) = 0 \<longleftrightarrow> b = 0"
  by (metis scast_byte_back scast_0 ucast_0)

section \<open>Writing\<close>

definition appends :: "(marshall \<Rightarrow> fault + marshall) \<Rightarrow> byte list \<Rightarrow> bool" where
  "appends f bs \<longleftrightarrow> (\<forall>m. m_wf m \<longrightarrow>
     (\<exists>m'. f m = Inr m' \<and> m_wf m' \<and> m_cells m' = m_cells m @ map Some bs))"

lemma appendsD:
  assumes "appends f bs" "m_wf m"
  obtains m' where "f m = Inr m'" "m_wf m'" "m_cells m' = m_cells m @ map Some bs"
  using assms by (auto simp: appends_def)

lemma appends_seq:
  assumes "appends f xs" "appends g ys"
  shows "appends (\<lambda>m. rbind (f m) g) (xs @ ys)"
  unfolding appends_def
proof (intro allI impI)
  fix m assume "m_wf m"
  with assms(1) obtain m1 where m1: "f m = Inr m1" "m_wf m1" "m_cells m1 = m_cells m @ map Some xs"
    by (rule appendsD)
  from assms(2) m1(2) obtain m2 where "g m1 = Inr m2" "m_wf m2" "m_cells m2 = m_cells m1 @ map Some ys"
    by (rule appendsD)
  with m1 show "\<exists>m'. rbind (f m) g = Inr m' \<and> m_wf m' \<and> m_cells m' = m_cells m @ map Some (xs @ ys)"
    by simp
qed

lemma m_store_ok:
  assumes "m_buf m = Some c" "m_ind m + length p \<le> length c"
  shows "m_store p m =
    Inr (m\<lparr>m_buf := Some (overwrite c (m_ind m) (map Some p)), m_ind := m_ind m + length p\<rparr>)"
  using assms by (simp add: m_store_def)

lemma m_store_appends:
  assumes "m_wf m" "m_ind m + length p \<le> m_capa m"
  shows "\<exists>m'. m_store p m = Inr m' \<and> m_wf m' \<and> m_cells m' = m_cells m @ map Some p"
proof -
  from assms(1) obtain c where c: "m_buf m = Some c" "length c = m_capa m"
    by (auto simp: m_wf_def)
  with assms(2) have "m_store p m =
      Inr (m\<lparr>m_buf := Some (overwrite c (m_ind m) (map Some p)), m_ind := m_ind m + length p\<rparr>)"
    by (simp add: m_store_ok)
  moreover have "take (m_ind m + length p) (overwrite c (m_ind m) (map Some p)) =
      take (m_ind m) c @ map Some p"
    using take_overwrite_end [of "m_ind m" "map Some p" c] assms(2) c by simp
  ultimately show ?thesis using assms c by (simp add: m_wf_def m_cells_def)
qed

lemma m_resize_ok:
  assumes "m_wf m" "m_capa m \<le> n"
  shows "\<exists>m'. m_resize n m = Inr m' \<and> m_wf m' \<and> m_cells m' = m_cells m \<and> m_capa m' = n \<and>
    m_ind m' = m_ind m"
  using assms by (auto simp: m_resize_def m_wf_def m_cells_def realloc_def)

lemma m_rawbytes_appends: "appends (m_rawbytes p) p"
  unfolding appends_def
proof (intro allI impI)
  fix m assume wf: "m_wf m"
  let ?n = "if m_capa m > length p then 2 * m_capa m else m_capa m + length p"
  show "\<exists>m'. m_rawbytes p m = Inr m' \<and> m_wf m' \<and> m_cells m' = m_cells m @ map Some p"
  proof (cases "m_ind m + length p > m_capa m")
    case True
    have "m_capa m \<le> ?n" by simp
    from m_resize_ok [OF wf this] obtain m1 where m1: "m_resize ?n m = Inr m1" "m_wf m1"
        "m_cells m1 = m_cells m" "m_capa m1 = ?n" "m_ind m1 = m_ind m"
      by blast
    moreover have "m_ind m1 + length p \<le> m_capa m1"
      using wf m1(4,5) by (auto simp: m_wf_def)
    ultimately show ?thesis
      using m_store_appends [of m1 p] True by (simp add: m_rawbytes_def)
  next
    case False
    with m_store_appends [OF wf, of p] show ?thesis by (simp add: m_rawbytes_def)
  qed
qed

lemma m_rawbyte_appends: "appends (m_rawbyte x) [x]"
  unfolding appends_def
proof (intro allI impI)
  fix m assume wf: "m_wf m"
  show "\<exists>m'. m_rawbyte x m = Inr m' \<and> m_wf m' \<and> m_cells m' = m_cells m @ map Some [x]"
  proof (cases "m_ind m \<ge> m_capa m")
    case True
    obtain m1 where m1: "m_resize (m_capa m * 2) m = Inr m1" "m_wf m1" "m_cells m1 = m_cells m"
        "m_capa m1 = m_capa m * 2" "m_ind m1 = m_ind m"
      using m_resize_ok [OF wf, of "m_capa m * 2"] by auto
    moreover have "m_ind m1 + length [x] \<le> m_capa m1"
      using wf m1(4,5) by (auto simp: m_wf_def)
    ultimately show ?thesis
      using m_store_appends [of m1 "[x]"] True by (simp add: m_rawbyte_def)
  next
    case False
    with m_store_appends [OF wf, of "[x]"] show ?thesis by (simp add: m_rawbyte_def)
  qed
qed

lemmas appends_bytes = appends_seq [OF m_rawbyte_appends, simplified]

lemma put_uint_appends: "appends (put_uint x) (be32 x)"
  unfolding put_uint_def be32_def byte_of_u32
  by (intro appends_bytes m_rawbyte_appends)

lemma m_pack_appends: "appends (m_pack x) (be32 x)"
  unfolding m_pack_def be32_def byte_of_u32 byte_of_sshift
  by (intro appends_bytes m_rawbyte_appends)

lemma put_ushort_appends: "appends (put_ushort x) (be16 x)"
  unfolding put_ushort_def be16_def byte_of_u16
  by (intro appends_bytes m_rawbyte_appends)

lemma put_ull_appends: "appends (put_ull x) (be64 x)"
  unfolding put_ull_def be64_def
  by (intro appends_seq put_uint_appends)

lemma put_string_appends: "appends (put_string s) (string_enc s)"
  unfolding put_string_def string_enc_def
  by (intro appends_seq put_uint_appends m_rawbytes_appends)

section \<open>Reading\<close>

abbreviation u_advance :: "nat \<Rightarrow> unmarshall \<Rightarrow> unmarshall" where
  "u_advance n u \<equiv> u\<lparr>u_ind := u_ind u + n\<rparr>"

definition robust :: "(unmarshall \<Rightarrow> fault + ('a \<times> unmarshall)) \<Rightarrow> bool" where
  "robust g \<longleftrightarrow> (\<forall>u. u_wf u \<longrightarrow> \<not> u_ok u \<longrightarrow> (\<exists>v u'. g u = Inr (v, u') \<and> u_wf u' \<and> \<not> u_ok u'))"

definition decodes :: "(unmarshall \<Rightarrow> fault + ('a \<times> unmarshall)) \<Rightarrow> 'a \<Rightarrow> byte list \<Rightarrow> bool" where
  "decodes g x bs \<longleftrightarrow> robust g \<and> (\<forall>u. u_wf u \<longrightarrow> u_ok u \<longrightarrow>
     (\<forall>r. u_rest u = bs @ r \<longrightarrow> g u = Inr (x, u_advance (length bs) u)) \<and>
     (strict_prefix (u_rest u) bs \<longrightarrow> (\<exists>v u'. g u = Inr (v, u') \<and> u_wf u' \<and> \<not> u_ok u')))"

lemma decodes_robust: "decodes g x bs \<Longrightarrow> robust g"
  by (simp add: decodes_def)

lemma u_advance_wf:
  assumes "u_wf u" "u_rest u = bs @ r"
  shows "u_wf (u_advance (length bs) u)" "u_rest (u_advance (length bs) u) = r"
proof -
  from assms(1) obtain b where b: "u_buf u = Some b" "u_sz u \<le> length b" "u_ind u \<le> u_sz u"
    by (auto simp: u_wf_def)
  have len: "length bs \<le> u_sz u - u_ind u"
    using length_u_rest [OF assms(1)] assms(2) by simp
  then show "u_wf (u_advance (length bs) u)" using assms(1) b by (auto simp: u_wf_def)
  have "drop (length bs) (u_rest u) = r" using assms(2) by simp
  then show "u_rest (u_advance (length bs) u) = r"
    using b by (simp add: u_rest_def add.commute)
qed

lemma robust_seq:
  assumes "robust g" "\<And>v. robust (h v)"
  shows "robust (\<lambda>u. rbind (g u) (case_prod h))"
  using assms unfolding robust_def by fastforce

lemma robust_return: "robust (\<lambda>u. Inr (x, u))"
  by (simp add: robust_def)

lemma decodes_return: "decodes (\<lambda>u. Inr (x, u)) x []"
  by (simp add: decodes_def robust_return)

lemma decodes_seq:
  assumes g: "decodes g a xs" and h: "decodes (h a) y ys" and rob: "\<And>v. robust (h v)"
  shows "decodes (\<lambda>u. rbind (g u) (case_prod h)) y (xs @ ys)"
  unfolding decodes_def
proof (intro conjI allI impI)
  show "robust (\<lambda>u. rbind (g u) (case_prod h))"
    by (rule robust_seq [OF decodes_robust [OF g] rob])
next
  fix u r assume u: "u_wf u" "u_ok u" "u_rest u = (xs @ ys) @ r"
  then have rest: "u_rest u = xs @ (ys @ r)" by simp
  then have "g u = Inr (a, u_advance (length xs) u)"
    using g u by (simp add: decodes_def)
  moreover have "h a (u_advance (length xs) u) = Inr (y, u_advance (length ys) (u_advance (length xs) u))"
    using h u u_advance_wf [OF u(1) rest] by (simp add: decodes_def)
  ultimately show "rbind (g u) (case_prod h) = Inr (y, u_advance (length (xs @ ys)) u)"
    by (simp add: add.assoc)
next
  fix u assume u: "u_wf u" "u_ok u" "strict_prefix (u_rest u) (xs @ ys)"
  show "\<exists>v u'. rbind (g u) (case_prod h) = Inr (v, u') \<and> u_wf u' \<and> \<not> u_ok u'"
  proof (cases "strict_prefix (u_rest u) xs")
    case True
    then obtain v u' where "g u = Inr (v, u')" "u_wf u'" "\<not> u_ok u'"
      using g u by (auto simp: decodes_def)
    then show ?thesis using rob [of v] by (auto simp: robust_def)
  next
    case False
    with u(3) obtain z where "u_rest u = xs @ z" "prefix z ys"
      by (auto simp: strict_prefix_def prefix_append)
    moreover from this(1) u(3) have "z \<noteq> ys" by auto
    ultimately have z: "u_rest u = xs @ z" "strict_prefix z ys"
      by (simp_all add: strict_prefix_def)
    then have "g u = Inr (a, u_advance (length xs) u)"
      using g u by (simp add: decodes_def)
    then show ?thesis
      using h z u u_advance_wf [OF u(1) z(1)] by (simp add: decodes_def)
  qed
qed

lemma decodes_Cons:
  assumes "decodes g a [b]" "decodes (h a) y ys" "\<And>v. robust (h v)"
  shows "decodes (\<lambda>u. rbind (g u) (case_prod h)) y (b # ys)"
  using decodes_seq [where h = h, OF assms] by simp

lemma u_rawbyte_robust: "robust u_rawbyte"
  by (auto simp: robust_def u_rawbyte_def u_load_def u_wf_def)

lemma u_rawbyte_decodes: "decodes u_rawbyte (scast b) [b]"
  unfolding decodes_def
proof (intro conjI allI impI u_rawbyte_robust)
  fix u r assume u: "u_wf u" "u_ok u" "u_rest u = [b] @ r"
  then obtain bs where bs: "u_buf u = Some bs" "u_sz u \<le> length bs" "u_ind u \<le> u_sz u"
    by (auto simp: u_wf_def)
  have lt: "u_ind u < u_sz u" using length_u_rest [OF u(1)] u(3) by (cases "u_ind u < u_sz u") auto
  have "bs ! u_ind u = b"
    using u(3) bs lt by (auto simp: u_rest_def dest!: arg_cong [where f = hd] simp: hd_drop_conv_nth)
  with lt bs show "u_rawbyte u = Inr (scast b, u_advance (length [b]) u)"
    by (simp add: u_rawbyte_def u_load_def take_Suc hd_drop_conv_nth)
next
  fix u assume u: "u_wf u" "u_ok u" "strict_prefix (u_rest u) [b]"
  then have "u_rest u = []" by (auto simp: strict_prefix_def prefix_def Cons_eq_append_conv)
  with length_u_rest [OF u(1)] have "u_sz u \<le> u_ind u" by simp
  with u(1) show "\<exists>v u'. u_rawbyte u = Inr (v, u') \<and> u_wf u' \<and> \<not> u_ok u'"
    by (auto simp: u_rawbyte_def u_wf_def)
qed

lemmas robust_intros = robust_seq u_rawbyte_robust robust_return

lemma decodes_byte:
  assumes "decodes (h (scast b)) y ys" "\<And>v. robust (h v)"
  shows "decodes (\<lambda>u. rbind (u_rawbyte u) (case_prod h)) y (b # ys)"
  by (rule decodes_Cons [where h = h, OF u_rawbyte_decodes assms])

lemmas decodes_bytes = decodes_byte decodes_return robust_intros

lemma u_unpack_decodes: "decodes u_unpack x (be32 x)"
proof -
  have "decodes u_unpack
      (push_bit 24 (scast (ucast (drop_bit 24 x) :: byte) AND 0xff) OR
       push_bit 16 (scast (ucast (drop_bit 16 x) :: byte) AND 0xff) OR
       push_bit 8 (scast (ucast (drop_bit 8 x) :: byte) AND 0xff) OR
       (scast (ucast x :: byte) AND 0xff)) (be32 x)"
    unfolding u_unpack_def be32_def by (intro decodes_bytes)
  then show ?thesis by (simp only: sign_mask join_be32)
qed

lemma u_unpack_eq: "get_uint = u_unpack" "get_int = u_unpack"
  by (simp_all add: fun_eq_iff get_uint_def get_int_def u_unpack_def)

lemma get_uint_decodes: "decodes get_uint x (be32 x)"
  by (simp add: u_unpack_eq u_unpack_decodes)

lemma get_ushort_decodes: "decodes get_ushort x (be16 x)"
proof -
  have "decodes get_ushort
      (ucast (push_bit 8 (scast (ucast (drop_bit 8 x) :: byte) AND 0xff :: u32)) OR
       ucast (scast (ucast x :: byte) AND 0xff :: u32)) (be16 x)"
    unfolding get_ushort_def be16_def by (intro decodes_bytes)
  then show ?thesis by (simp only: sign_mask join_be16)
qed

lemma get_short_eq: "get_short = get_ushort"
  by (simp add: fun_eq_iff get_short_def get_ushort_def)

lemma get_uint_robust: "robust get_uint"
  by (rule decodes_robust [OF get_uint_decodes])

lemma get_ull_decodes: "decodes get_ull x (be64 x)"
proof -
  have "decodes get_ull
      (ucast (ucast x :: u32) OR push_bit 32 (ucast (ucast (drop_bit 32 x) :: u32))) (be64 x @ [])"
    unfolding get_ull_def be64_def append_assoc
    by (rule decodes_seq, rule get_uint_decodes, rule decodes_seq, rule get_uint_decodes)
      (intro decodes_return robust_intros get_uint_robust)+
  then show ?thesis by (simp only: join_be64 append_Nil2)
qed

lemma u_rawbytes_decodes:
  assumes "length s < 2 ^ 31"
  shows "decodes (\<lambda>u. if u_ok u then u_rawbytes s0 (word_of_nat (length s)) u else Inr (s0, u))
    s (map byte_of_char s)" (is "decodes ?g s _")
  unfolding decodes_def
proof (intro conjI allI impI)
  show "robust ?g" by (simp add: robust_def)
next
  fix u r assume u: "u_wf u" "u_ok u" "u_rest u = map byte_of_char s @ r"
  then obtain b where b: "u_buf u = Some b" "u_sz u \<le> length b" "u_ind u \<le> u_sz u" "u_sz u < 2 ^ 31"
    by (auto simp: u_wf_def)
  have len: "u_ind u + length s \<le> u_sz u"
    using length_u_rest [OF u(1)] u(3) b by simp
  have "\<not> word_of_nat (u_ind u) + word_of_nat (length s) > (word_of_nat (u_sz u) :: u32)"
    using len b by (simp add: not_less word_le_nat_alt unat_of_nat flip: of_nat_add)
  moreover have "take (length s) (u_rest u) = map byte_of_char s" using u(3) by simp
  then have "take (length s) (drop (u_ind u) b) = map byte_of_char s"
    using b len by (simp add: u_rest_def drop_take min_absorb1)
  ultimately show "?g u = Inr (s, u_advance (length (map byte_of_char s)) u)"
    using u b len assms by (simp add: u_rawbytes_def u_load_def unat_of_nat)
next
  fix u assume u: "u_wf u" "u_ok u" "strict_prefix (u_rest u) (map byte_of_char s)"
  then have "u_sz u - u_ind u < length s"
    using length_u_rest [OF u(1)] prefix_length_less [OF u(3)] by simp
  then have "word_of_nat (u_ind u) + word_of_nat (length s) > (word_of_nat (u_sz u) :: u32)"
    using u(1) assms by (auto simp: u_wf_def word_less_nat_alt unat_of_nat simp flip: of_nat_add)
  then show "\<exists>v u'. ?g u = Inr (v, u') \<and> u_wf u' \<and> \<not> u_ok u'"
    using u by (auto simp: u_rawbytes_def u_wf_def)
qed

lemma u_rawbytes_robust:
  "robust (\<lambda>u. if u_ok u then u_rawbytes s0 n u else Inr (s0, u))"
  by (simp add: robust_def)

lemma get_string_decodes:
  assumes "length s < 2 ^ 31"
  shows "decodes (get_string s0) s (string_enc s)"
  unfolding get_string_def string_enc_def
  by (rule decodes_seq [OF get_uint_decodes])
    (rule u_rawbytes_decodes [OF assms], rule u_rawbytes_robust)

lemma u_rawbyte_map_decodes:
  "decodes (\<lambda>u. rbind (u_rawbyte u) (\<lambda>(c, u). Inr (f c, u))) (f (scast b)) [b]"
  by (intro decodes_bytes)

section \<open>The interface of a marshallable type\<close>

locale wire_codec =
  fixes put :: "'a \<Rightarrow> marshall \<Rightarrow> fault + marshall"
    and get :: "unmarshall \<Rightarrow> fault + ('a \<times> unmarshall)"
    and enc :: "'a \<Rightarrow> byte list"
    and dm :: "'a \<Rightarrow> bool"
  assumes put_appends: "dm x \<Longrightarrow> appends (put x) (enc x)"
    and get_decodes: "dm x \<Longrightarrow> decodes get x (enc x)"
    and get_robust: "robust get"
begin

lemma put_all_appends:
  "\<forall>x \<in> set xs. dm x \<Longrightarrow> appends (put_all put xs) (concat (map enc xs))"
proof (induction xs)
  case Nil
  show ?case by (simp add: appends_def)
next
  case (Cons x xs)
  then show ?case
    using appends_seq [OF put_appends [of x], of "put_all put xs"]
    by (simp add: put_all.simps(2) [abs_def])
qed

lemma get_all_robust: "robust (get_all get n v)"
proof (induction n arbitrary: v)
  case 0
  show ?case by (simp add: robust_def)
next
  case (Suc n)
  then show ?case
    using robust_seq [OF get_robust, of "\<lambda>z. get_all get n (v @ [z])"] by simp
qed

lemma get_all_decodes:
  "\<forall>x \<in> set xs. dm x \<Longrightarrow> decodes (get_all get (length xs) v) (v @ xs) (concat (map enc xs))"
proof (induction xs arbitrary: v)
  case Nil
  show ?case using decodes_return [of v] by simp
next
  case (Cons x xs)
  then have "decodes get x (enc x)"
      "decodes (get_all get (length xs) (v @ [x])) ((v @ [x]) @ xs) (concat (map enc xs))"
    by (simp_all add: get_decodes del: append_assoc)
  then have "decodes (\<lambda>u. rbind (get u) (\<lambda>(z, u). get_all get (length xs) (v @ [z]) u))
      ((v @ [x]) @ xs) (enc x @ concat (map enc xs))"
    by (rule decodes_seq) (rule get_all_robust)
  then show ?case by simp
qed

lemma vector_codec:
  "wire_codec (put_vector put) (get_vector get [])
     (\<lambda>v. be32 (word_of_nat (length v)) @ concat (map enc v))
     (\<lambda>v. length v < 2 ^ 32 \<and> (\<forall>x \<in> set v. dm x))"
proof
  fix v assume v: "length v < 2 ^ 32 \<and> (\<forall>x \<in> set v. dm x)"
  then show "appends (put_vector put v) (be32 (word_of_nat (length v)) @ concat (map enc v))"
    unfolding put_vector_def by (intro appends_seq put_uint_appends put_all_appends) simp
  have "decodes (\<lambda>u. rbind (get_uint u) (\<lambda>(n, u). get_all get (unat n) [] u)) ([] @ v)
      (be32 (word_of_nat (length v)) @ concat (map enc v))"
    by (rule decodes_seq [OF get_uint_decodes])
      (use v get_all_decodes [of v "[]"] in \<open>simp_all add: unat_of_nat get_all_robust\<close>)
  then show "decodes (get_vector get []) v (be32 (word_of_nat (length v)) @ concat (map enc v))"
    by (simp add: get_vector_def [abs_def])
next
  show "robust (get_vector get [])"
    unfolding get_vector_def by (intro robust_seq get_uint_robust get_all_robust)
qed

end

locale wire_pair =
  A: wire_codec putA getA encA dmA + B: wire_codec putB getB encB dmB
  for putA :: "'a \<Rightarrow> marshall \<Rightarrow> fault + marshall" and getA encA dmA
    and putB :: "'b \<Rightarrow> marshall \<Rightarrow> fault + marshall" and getB encB dmB
begin

lemma pair_codec:
  "wire_codec (put_pair putA putB) (get_pair getA getB) (\<lambda>(a, b). encA a @ encB b)
     (\<lambda>(a, b). dmA a \<and> dmB b)"
proof
  fix p :: "'a \<times> 'b" assume "case p of (a, b) \<Rightarrow> dmA a \<and> dmB b"
  then obtain a b where p: "p = (a, b)" "dmA a" "dmB b" by (cases p) auto
  then show "appends (put_pair putA putB p) (case p of (a, b) \<Rightarrow> encA a @ encB b)"
    using appends_seq [OF A.put_appends B.put_appends, of a b] by (simp add: put_pair_def [abs_def])
  have "decodes (get_pair getA getB) (a, b) (encA a @ encB b @ [])"
    unfolding get_pair_def using p
    by (intro decodes_seq [OF A.get_decodes] decodes_seq [OF B.get_decodes] robust_intros
        B.get_robust decodes_return)
  then show "decodes (get_pair getA getB) p (case p of (a, b) \<Rightarrow> encA a @ encB b)"
    by (simp add: p)
next
  show "robust (get_pair getA getB)"
    unfolding get_pair_def by (intro robust_intros A.get_robust B.get_robust)
qed

end

locale wire_map =
  wire_pair putA getA encA dmA putB getB encB dmB
  for putA :: "'a::linorder \<Rightarrow> marshall \<Rightarrow> fault + marshall" and getA encA dmA
    and putB :: "'b \<Rightarrow> marshall \<Rightarrow> fault + marshall" and getB encB dmB
begin

abbreviation (input) enc_entry :: "'a \<times> 'b \<Rightarrow> byte list" where
  "enc_entry \<equiv> \<lambda>(a, b). encA a @ encB b"

lemma get_entries_robust: "robust (get_entries (get_pair getA getB) n d)"
proof (induction n arbitrary: d)
  case 0
  show ?case by (simp add: robust_def)
next
  case (Suc n)
  then show ?case
    using robust_seq [OF wire_codec.get_robust [OF pair_codec],
        of "\<lambda>p. get_entries (get_pair getA getB) n (map_insert (fst p) (snd p) d)"]
    by (simp add: case_prod_unfold)
qed

lemma get_entries_decodes:
  assumes "\<forall>(a, b) \<in> set xs. dmA a \<and> dmB b" "key_sorted (d @ xs)"
  shows "decodes (get_entries (get_pair getA getB) (length xs) d) (d @ xs) (concat (map enc_entry xs))"
  using assms
proof (induction xs arbitrary: d)
  case Nil
  show ?case using decodes_return [of d] by simp
next
  case (Cons p xs)
  obtain a b where p: "p = (a, b)" by (cases p)
  have ins: "map_insert a b d = d @ [p]"
    using Cons.prems(2) by (simp add: p map_insert_snoc sorted_wrt_append)
  have "decodes (get_pair getA getB) p (enc_entry p)"
    using Cons.prems(1) by (intro wire_codec.get_decodes [OF pair_codec]) (auto simp: p)
  moreover have "decodes (get_entries (get_pair getA getB) (length xs) (map_insert (fst p) (snd p) d))
      (d @ p # xs) (concat (map enc_entry xs))"
    using Cons.IH [of "d @ [p]"] Cons.prems by (simp add: p ins [unfolded p])
  ultimately have "decodes (\<lambda>u. rbind (get_pair getA getB u) (\<lambda>(q, u).
      get_entries (get_pair getA getB) (length xs) (map_insert (fst q) (snd q) d) u))
      (d @ p # xs) (enc_entry p @ concat (map enc_entry xs))"
    by (rule decodes_seq) (rule get_entries_robust)
  then show ?case by (simp add: case_prod_unfold)
qed

lemma map_codec:
  "wire_codec (put_map putA putB) (get_map getA getB)
     (\<lambda>d. be32 (word_of_nat (length d)) @ concat (map enc_entry d))
     (\<lambda>d. length d < 2 ^ 32 \<and> key_sorted d \<and> (\<forall>(a, b) \<in> set d. dmA a \<and> dmB b))"
proof
  fix d :: "('a \<times> 'b) list"
  assume d: "length d < 2 ^ 32 \<and> key_sorted d \<and> (\<forall>(a, b) \<in> set d. dmA a \<and> dmB b)"
  then show "appends (put_map putA putB d) (be32 (word_of_nat (length d)) @ concat (map enc_entry d))"
    unfolding put_map_def
    by (intro appends_seq put_uint_appends wire_codec.put_all_appends [OF pair_codec]) simp
  have "decodes (\<lambda>u. rbind (get_uint u) (\<lambda>(n, u). get_entries (get_pair getA getB) (unat n) [] u)) d
      (be32 (word_of_nat (length d)) @ concat (map enc_entry d))"
    by (rule decodes_seq [OF get_uint_decodes])
      (use d get_entries_decodes [of d "[]"] in \<open>simp_all add: unat_of_nat get_entries_robust\<close>)
  then show "decodes (get_map getA getB) d (be32 (word_of_nat (length d)) @ concat (map enc_entry d))"
    by (simp add: get_map_def [abs_def])
next
  show "robust (get_map getA getB)"
    unfolding get_map_def by (intro robust_seq get_uint_robust get_entries_robust)
qed

end

section \<open>The types the sources marshall\<close>

interpretation bool_codec: wire_codec put_bool get_bool "\<lambda>x. [if x then 1 else 0]" "\<lambda>_. True"
proof
  fix x :: bool
  show "appends (put_bool x) [if x then 1 else 0]"
    unfolding put_bool_def by (rule m_rawbyte_appends)
  show "decodes get_bool x [if x then 1 else 0]"
    using u_rawbyte_map_decodes [of "\<lambda>c. c \<noteq> 0" "if x then 1 else 0"]
    by (cases x) (simp_all add: get_bool_def [abs_def])
  show "robust get_bool" unfolding get_bool_def by (intro robust_intros)
qed

interpretation uchar_codec: wire_codec put_uchar get_uchar "\<lambda>x. [x]" "\<lambda>_. True"
proof
  fix x :: byte
  show "appends (put_uchar x) [x]" unfolding put_uchar_def by (rule m_rawbyte_appends)
  show "decodes get_uchar x [x]"
    using u_rawbyte_map_decodes [of "ucast :: u32 \<Rightarrow> byte" x]
    by (simp add: get_uchar_def [abs_def])
  show "robust get_uchar" unfolding get_uchar_def by (intro robust_intros)
qed

interpretation char_codec: wire_codec put_char get_char "\<lambda>x. [byte_of_char x]" "\<lambda>_. True"
proof
  fix x :: char
  show "appends (put_char x) [byte_of_char x]"
    unfolding put_char_def put_uchar_def by (rule m_rawbyte_appends)
  show "decodes get_char x [byte_of_char x]"
    using u_rawbyte_map_decodes [of "\<lambda>c. char_of_byte (ucast c)" "byte_of_char x"]
    by (simp add: get_char_def [abs_def])
  show "robust get_char" unfolding get_char_def by (intro robust_intros)
qed

interpretation ushort_codec: wire_codec put_ushort get_ushort be16 "\<lambda>_. True"
  by unfold_locales (auto intro: put_ushort_appends get_ushort_decodes decodes_robust)

interpretation short_codec: wire_codec put_short get_short be16 "\<lambda>_. True"
  using ushort_codec.wire_codec_axioms by (simp add: put_short_def [abs_def] get_short_eq)

interpretation uint_codec: wire_codec put_uint get_uint be32 "\<lambda>_. True"
  by unfold_locales (auto intro: put_uint_appends get_uint_decodes get_uint_robust)

interpretation int_codec: wire_codec put_int get_int be32 "\<lambda>_. True"
  using uint_codec.wire_codec_axioms by (simp add: put_int_def [abs_def] u_unpack_eq)

interpretation ull_codec: wire_codec put_ull get_ull be64 "\<lambda>_. True"
  by unfold_locales (auto intro: put_ull_appends get_ull_decodes decodes_robust)

interpretation string_codec: wire_codec put_string "get_string s0" string_enc "\<lambda>s. length s < 2 ^ 31"
  for s0
proof
  show "robust (get_string s0)"
    using get_string_decodes [of "[]" s0] by (simp add: decodes_robust)
qed (auto intro: put_string_appends get_string_decodes)

interpretation ull_string: wire_pair put_ull get_ull be64 "\<lambda>_. True"
  put_string "get_string s0" string_enc "\<lambda>s. length s < 2 ^ 31" for s0
  by unfold_locales

interpretation ull_string_map: wire_map put_ull get_ull be64 "\<lambda>_. True"
  put_string "get_string s0" string_enc "\<lambda>s. length s < 2 ^ 31" for s0
  by unfold_locales

section \<open>Headers\<close>

definition req_header_bytes :: "req_header \<Rightarrow> byte list" where
  "req_header_bytes h = be32 (h_xid h) @ be32 (h_proc h) @ be32 (h_clt_nonce h) @
     be32 (h_srv_nonce h) @ be32 (h_xid_rep h)"

definition reply_header_bytes :: "reply_header \<Rightarrow> byte list" where
  "reply_header_bytes h = be32 (r_xid h) @ be32 (r_ret h)"

lemma length_header_bytes [simp]:
  "length (req_header_bytes h) = 20" "length (reply_header_bytes r) = 8"
  by (simp_all add: req_header_bytes_def reply_header_bytes_def)

text \<open>Packing inside the block: no growth, the cells at the write head are overwritten.\<close>

definition places :: "(marshall \<Rightarrow> fault + marshall) \<Rightarrow> byte list \<Rightarrow> bool" where
  "places f bs \<longleftrightarrow> (\<forall>m c. m_buf m = Some c \<longrightarrow> length c = m_capa m \<longrightarrow> m_ind m + length bs \<le> m_capa m \<longrightarrow>
     f m = Inr (m\<lparr>m_buf := Some (overwrite c (m_ind m) (map Some bs)), m_ind := m_ind m + length bs\<rparr>))"

lemma places_seq:
  assumes "places f xs" "places g ys"
  shows "places (\<lambda>m. rbind (f m) g) (xs @ ys)"
  unfolding places_def
proof (intro allI impI)
  fix m :: marshall and c
  assume m: "m_buf m = Some c" "length c = m_capa m" "m_ind m + length (xs @ ys) \<le> m_capa m"
  let ?m1 = "m\<lparr>m_buf := Some (overwrite c (m_ind m) (map Some xs)), m_ind := m_ind m + length xs\<rparr>"
  have "f m = Inr ?m1" using assms(1) m by (simp add: places_def)
  moreover have "g ?m1 = Inr (?m1\<lparr>m_buf := Some (overwrite (overwrite c (m_ind m) (map Some xs))
      (m_ind m + length xs) (map Some ys)), m_ind := m_ind m + length xs + length ys\<rparr>)"
    using assms(2) m by (simp add: places_def)
  moreover have "overwrite (overwrite c (m_ind m) (map Some xs)) (m_ind m + length xs) (map Some ys)
      = overwrite c (m_ind m) (map Some (xs @ ys))"
    using overwrite_append [of "m_ind m" "map Some xs" "map Some ys" c] m by simp
  ultimately show "rbind (f m) g = Inr (m\<lparr>m_buf := Some (overwrite c (m_ind m) (map Some (xs @ ys))),
      m_ind := m_ind m + length (xs @ ys)\<rparr>)"
    by (simp add: add.assoc)
qed

lemma places_rawbyte: "places (m_rawbyte b) [b]"
  by (auto simp: places_def m_rawbyte_def m_store_def)

lemmas places_bytes = places_seq [OF places_rawbyte, simplified]

lemma places_pack: "places (m_pack x) (be32 x)"
  unfolding m_pack_def be32_def byte_of_u32 byte_of_sshift
  by (intro places_bytes places_rawbyte)

lemma m_wf_header:
  assumes "m_wf m" "24 \<le> m_ind m" "i + length bs \<le> 24" "m_buf m = Some c"
  shows "m_wf (m\<lparr>m_buf := Some (overwrite c i (map Some bs))\<rparr>)"
    "m_cells (m\<lparr>m_buf := Some (overwrite c i (map Some bs))\<rparr>) = overwrite (m_cells m) i (map Some bs)"
  using assms by (auto simp: m_wf_def m_cells_def take_overwrite)

lemma pack_header:
  assumes "places f bs" "length bs \<le> 20" "m_wf m" "24 \<le> m_ind m"
  obtains m' where "rbind (f (m\<lparr>m_ind := sizeof_rpc_sz\<rparr>)) (\<lambda>m1. Inr (m1\<lparr>m_ind := m_ind m\<rparr>)) = Inr m'"
    "m_wf m'" "m_ind m' = m_ind m" "m_cells m' = overwrite (m_cells m) 4 (map Some bs)"
proof -
  from assms(3) obtain c where c: "m_buf m = Some c" "length c = m_capa m" "m_ind m \<le> m_capa m"
    by (auto simp: m_wf_def)
  then have "f (m\<lparr>m_ind := sizeof_rpc_sz\<rparr>) =
      Inr (m\<lparr>m_ind := 4 + length bs, m_buf := Some (overwrite c 4 (map Some bs))\<rparr>)"
    using assms(1,2,4) by (simp add: places_def)
  then show thesis
    using that [of "m\<lparr>m_buf := Some (overwrite c 4 (map Some bs))\<rparr>"] m_wf_header [OF assms(3,4) _ c(1)] assms(2)
    by simp
qed

lemma pack_req_header_ok:
  assumes "m_wf m" "24 \<le> m_ind m"
  obtains m' where "pack_req_header h m = Inr m'" "m_wf m'" "m_ind m' = m_ind m"
    "m_cells m' = overwrite (m_cells m) 4 (map Some (req_header_bytes h))"
proof -
  have "places (\<lambda>m. rbind (m_pack (h_xid h) m) (\<lambda>m. rbind (m_pack (h_proc h) m) (\<lambda>m.
      rbind (m_pack (h_clt_nonce h) m) (\<lambda>m. rbind (m_pack (h_srv_nonce h) m) (m_pack (h_xid_rep h))))))
      (req_header_bytes h)" (is "places ?f _")
    unfolding req_header_bytes_def by (intro places_seq places_pack)
  from pack_header [OF this _ assms] that show thesis
    by (simp add: pack_req_header_def rbind_assoc) blast
qed

lemma pack_reply_header_ok:
  assumes "m_wf m" "24 \<le> m_ind m"
  obtains m' where "pack_reply_header h m = Inr m'" "m_wf m'" "m_ind m' = m_ind m"
    "m_cells m' = overwrite (m_cells m) 4 (map Some (reply_header_bytes h))"
proof -
  have "places (\<lambda>m. rbind (m_pack (r_xid h) m) (m_pack (r_ret h))) (reply_header_bytes h)"
    unfolding reply_header_bytes_def by (intro places_seq places_pack)
  from pack_header [OF this _ assms] that show thesis
    by (simp add: pack_reply_header_def rbind_assoc) blast
qed

text \<open>Extraction is total on a block that really holds its announced size.\<close>

definition u_block :: "unmarshall \<Rightarrow> bool" where
  "u_block u \<longleftrightarrow> (\<exists>b. u_buf u = Some b \<and> u_sz u \<le> length b)"

lemma u_wf_block: "u_wf u \<Longrightarrow> u_block u"
  by (auto simp: u_wf_def u_block_def)

lemma u_rawbyte_total:
  assumes "u_block u"
  obtains c where "u_rawbyte u = Inr (c, u\<lparr>u_ind := (if u_ind u < u_sz u then u_ind u + 1 else u_ind u),
    u_ok := u_ok u \<and> u_ind u < u_sz u\<rparr>)"
  using assms that by (cases "u_ind u < u_sz u") (auto simp: u_block_def u_rawbyte_def u_load_def)

definition u_consumes :: "(unmarshall \<Rightarrow> fault + ('a \<times> unmarshall)) \<Rightarrow> nat \<Rightarrow> bool" where
  "u_consumes g n \<longleftrightarrow> (\<forall>u. u_block u \<longrightarrow> (\<exists>v u'. g u = Inr (v, u') \<and> u_buf u' = u_buf u \<and> u_sz u' = u_sz u \<and>
     u_ind u' = (if u_ind u + n \<le> u_sz u then u_ind u + n else max (u_ind u) (u_sz u)) \<and>
     (u_ok u' \<longleftrightarrow> u_ok u \<and> (n = 0 \<or> u_ind u + n \<le> u_sz u))))"

lemma u_consumes_rawbyte: "u_consumes u_rawbyte 1"
  unfolding u_consumes_def
proof (intro allI impI)
  fix u assume "u_block u"
  then show "\<exists>v u'. u_rawbyte u = Inr (v, u') \<and> u_buf u' = u_buf u \<and> u_sz u' = u_sz u \<and>
     u_ind u' = (if u_ind u + 1 \<le> u_sz u then u_ind u + 1 else max (u_ind u) (u_sz u)) \<and>
     (u_ok u' \<longleftrightarrow> u_ok u \<and> (1 = (0::nat) \<or> u_ind u + 1 \<le> u_sz u))"
    by (rule u_rawbyte_total) auto
qed

lemma u_consumes_return: "u_consumes (\<lambda>u. Inr (x, u)) 0"
  by (auto simp: u_consumes_def)

lemma u_consumes_seq:
  assumes g: "u_consumes g i" and h: "\<And>v. u_consumes (h v) j"
  shows "u_consumes (\<lambda>u. rbind (g u) (case_prod h)) (i + j)"
  unfolding u_consumes_def
proof (intro allI impI)
  fix u assume u: "u_block u"
  with g obtain v u1 where 1: "g u = Inr (v, u1)" "u_buf u1 = u_buf u" "u_sz u1 = u_sz u"
      "u_ind u1 = (if u_ind u + i \<le> u_sz u then u_ind u + i else max (u_ind u) (u_sz u))"
      "u_ok u1 \<longleftrightarrow> u_ok u \<and> (i = 0 \<or> u_ind u + i \<le> u_sz u)"
    unfolding u_consumes_def by blast
  have "u_block u1" using u 1(2,3) by (simp add: u_block_def)
  with h [of v] obtain w u2 where 2: "h v u1 = Inr (w, u2)" "u_buf u2 = u_buf u1" "u_sz u2 = u_sz u1"
      "u_ind u2 = (if u_ind u1 + j \<le> u_sz u1 then u_ind u1 + j else max (u_ind u1) (u_sz u1))"
      "u_ok u2 \<longleftrightarrow> u_ok u1 \<and> (j = 0 \<or> u_ind u1 + j \<le> u_sz u1)"
    unfolding u_consumes_def by blast
  show "\<exists>v u'. rbind (g u) (case_prod h) = Inr (v, u') \<and> u_buf u' = u_buf u \<and> u_sz u' = u_sz u \<and>
     u_ind u' = (if u_ind u + (i + j) \<le> u_sz u then u_ind u + (i + j) else max (u_ind u) (u_sz u)) \<and>
     (u_ok u' \<longleftrightarrow> u_ok u \<and> (i + j = 0 \<or> u_ind u + (i + j) \<le> u_sz u))"
    using 1 2 by auto
qed

lemma u_consumes_unpack: "u_consumes u_unpack 4"
proof -
  have "u_consumes u_unpack (1 + (1 + (1 + (1 + 0))))"
    unfolding u_unpack_def
    by (rule u_consumes_seq [OF u_consumes_rawbyte], rule u_consumes_seq [OF u_consumes_rawbyte],
        rule u_consumes_seq [OF u_consumes_rawbyte], rule u_consumes_seq [OF u_consumes_rawbyte],
        rule u_consumes_return)
  then show ?thesis by (simp add: numeral_eq_Suc)
qed

definition req_fields :: "unmarshall \<Rightarrow> fault + (req_header \<times> unmarshall)" where
  "req_fields u =
     rbind (u_unpack u) (\<lambda>(x, u). rbind (u_unpack u) (\<lambda>(p, u). rbind (u_unpack u) (\<lambda>(c, u).
     rbind (u_unpack u) (\<lambda>(s, u). rbind (u_unpack u) (\<lambda>(xr, u).
     Inr (\<lparr>h_xid = x, h_proc = p, h_clt_nonce = c, h_srv_nonce = s, h_xid_rep = xr\<rparr>, u))))))"

definition reply_fields :: "unmarshall \<Rightarrow> fault + (reply_header \<times> unmarshall)" where
  "reply_fields u =
     rbind (u_unpack u) (\<lambda>(x, u). rbind (u_unpack u) (\<lambda>(r, u). Inr (\<lparr>r_xid = x, r_ret = r\<rparr>, u)))"

lemma unpack_header_fields:
  "unpack_req_header u = rbind (req_fields (u\<lparr>u_ind := 4\<rparr>)) (\<lambda>(h, u). Inr (h, u\<lparr>u_ind := 24\<rparr>))"
  "unpack_reply_header u = rbind (reply_fields (u\<lparr>u_ind := 4\<rparr>)) (\<lambda>(h, u). Inr (h, u\<lparr>u_ind := 24\<rparr>))"
  by (simp_all add: unpack_req_header_def req_fields_def unpack_reply_header_def reply_fields_def
      rbind_assoc case_prod_unfold)

lemma u_consumes_fields: "u_consumes req_fields 20" "u_consumes reply_fields 8"
proof -
  have "u_consumes req_fields (4 + (4 + (4 + (4 + (4 + 0)))))"
    unfolding req_fields_def
    by (rule u_consumes_seq [OF u_consumes_unpack], rule u_consumes_seq [OF u_consumes_unpack],
        rule u_consumes_seq [OF u_consumes_unpack], rule u_consumes_seq [OF u_consumes_unpack],
        rule u_consumes_seq [OF u_consumes_unpack], rule u_consumes_return)
  then show "u_consumes req_fields 20" by simp
  have "u_consumes reply_fields (4 + (4 + 0))"
    unfolding reply_fields_def
    by (rule u_consumes_seq [OF u_consumes_unpack], rule u_consumes_seq [OF u_consumes_unpack],
        rule u_consumes_return)
  then show "u_consumes reply_fields 8" by simp
qed

lemma unpack_robust: "robust u_unpack"
  by (rule decodes_robust [OF u_unpack_decodes])

lemma req_fields_decodes: "decodes req_fields h (req_header_bytes h)"
proof -
  have "decodes req_fields h (be32 (h_xid h) @ be32 (h_proc h) @ be32 (h_clt_nonce h) @
      be32 (h_srv_nonce h) @ be32 (h_xid_rep h) @ [])"
    unfolding req_fields_def
    by (intro decodes_seq [OF u_unpack_decodes] robust_intros unpack_robust)
      (use decodes_return [of h] in \<open>cases h, simp\<close>)
  then show ?thesis by (simp add: req_header_bytes_def)
qed

lemma reply_fields_decodes: "decodes reply_fields h (reply_header_bytes h)"
proof -
  have "decodes reply_fields h (be32 (r_xid h) @ be32 (r_ret h) @ [])"
    unfolding reply_fields_def
    by (intro decodes_seq [OF u_unpack_decodes] robust_intros unpack_robust)
      (use decodes_return [of h] in \<open>cases h, simp\<close>)
  then show ?thesis by (simp add: reply_header_bytes_def)
qed

lemma unpack_req_header_ok:
  assumes "u_wf (u\<lparr>u_ind := 4\<rparr>)" "u_ok u" "u_rest (u\<lparr>u_ind := 4\<rparr>) = req_header_bytes h @ r"
  shows "unpack_req_header u = Inr (h, u\<lparr>u_ind := 24\<rparr>)"
  using req_fields_decodes [of h] assms by (simp add: unpack_header_fields decodes_def)

lemma unpack_reply_header_ok:
  assumes "u_wf (u\<lparr>u_ind := 4\<rparr>)" "u_ok u" "u_rest (u\<lparr>u_ind := 4\<rparr>) = reply_header_bytes h @ r"
  shows "unpack_reply_header u = Inr (h, u\<lparr>u_ind := 24\<rparr>)"
  using reply_fields_decodes [of h] assms by (simp add: unpack_header_fields decodes_def)

lemma unpack_header_total:
  assumes "u_block u" "u_consumes g n" "0 < n"
  obtains h u' where "rbind (g (u\<lparr>u_ind := 4\<rparr>)) (\<lambda>(h, u). Inr (h, u\<lparr>u_ind := 24\<rparr>)) = Inr (h, u')"
    "u_buf u' = u_buf u" "u_sz u' = u_sz u" "u_ind u' = 24" "u_ok u' \<longleftrightarrow> u_ok u \<and> 4 + n \<le> u_sz u"
proof -
  have "u_block (u\<lparr>u_ind := 4\<rparr>)" using assms(1) by (simp add: u_block_def)
  with assms(2) obtain v u1 where "g (u\<lparr>u_ind := 4\<rparr>) = Inr (v, u1)" "u_buf u1 = u_buf u"
      "u_sz u1 = u_sz u" "u_ok u1 \<longleftrightarrow> u_ok u \<and> (n = 0 \<or> 4 + n \<le> u_sz u)"
    unfolding u_consumes_def by fastforce
  with assms(3) show thesis using that [of v "u1\<lparr>u_ind := 24\<rparr>"] by auto
qed

lemma unpack_req_header_total:
  assumes "u_block u"
  obtains h u' where "unpack_req_header u = Inr (h, u')" "u_buf u' = u_buf u" "u_sz u' = u_sz u"
    "u_ind u' = 24" "u_ok u' \<longleftrightarrow> u_ok u \<and> 24 \<le> u_sz u"
  using unpack_header_total [OF assms u_consumes_fields(1)] that by (auto simp: unpack_header_fields)

lemma unpack_reply_header_total:
  assumes "u_block u"
  obtains h u' where "unpack_reply_header u = Inr (h, u')" "u_buf u' = u_buf u" "u_sz u' = u_sz u"
    "u_ind u' = 24" "u_ok u' \<longleftrightarrow> u_ok u \<and> 12 \<le> u_sz u"
  using unpack_header_total [OF assms u_consumes_fields(2)] that by (auto simp: unpack_header_fields)

section \<open>What the receiver gets\<close>

text \<open>The bytes \<open>bs\<close> a peer receives for a block: written cells arrive as written, unwritten ones as
  whatever the heap held.\<close>

definition wire_image :: "cells \<Rightarrow> byte list \<Rightarrow> bool" where
  "wire_image c bs \<longleftrightarrow> list_all2 (\<lambda>x b. x = None \<or> x = Some b) c bs"

lemma wire_image_append:
  "wire_image (c @ d) bs \<longleftrightarrow> (\<exists>xs ys. bs = xs @ ys \<and> wire_image c xs \<and> wire_image d ys)"
proof
  assume "wire_image (c @ d) bs"
  then show "\<exists>xs ys. bs = xs @ ys \<and> wire_image c xs \<and> wire_image d ys"
    unfolding wire_image_def list_all2_append1 by blast
next
  assume "\<exists>xs ys. bs = xs @ ys \<and> wire_image c xs \<and> wire_image d ys"
  then show "wire_image (c @ d) bs" by (auto simp: wire_image_def intro: list_all2_appendI)
qed

lemma wire_image_Some [simp]: "wire_image (map Some xs) bs \<longleftrightarrow> bs = xs"
  unfolding wire_image_def by (induction xs arbitrary: bs) (auto simp: list_all2_Cons1)

lemma wire_image_length: "wire_image c bs \<Longrightarrow> length bs = length c"
  by (simp add: wire_image_def list_all2_lengthD)

lemma m_cells_new: "m_cells marshall_new = replicate 24 None"
  by (simp add: m_cells_def marshall_new_def realloc_def DEFAULT_RPC_SZ_def)

lemma m_ind_eq: "m_wf m \<Longrightarrow> m_cells m = c \<Longrightarrow> m_ind m = length c"
  using length_m_cells by auto

lemma packed_request:
  assumes "m_wf m" "m_cells m = replicate 24 None @ map Some body"
  obtains m' where "pack_req_header h m = Inr m'" "m_wf m'"
    "m_cells m' = replicate 4 None @ map Some (req_header_bytes h @ body)"
proof -
  have "24 \<le> m_ind m" using m_ind_eq [OF assms] by simp
  with assms(1) obtain m' where "pack_req_header h m = Inr m'" "m_wf m'"
      "m_cells m' = overwrite (m_cells m) 4 (map Some (req_header_bytes h))"
    by (rule pack_req_header_ok)
  with that show thesis by (simp add: assms(2) overwrite_def)
qed

lemma packed_reply:
  assumes "m_wf m" "m_cells m = replicate 24 None @ map Some body"
  obtains m' where "pack_reply_header h m = Inr m'" "m_wf m'"
    "m_cells m' = replicate 4 None @ map Some (reply_header_bytes h) @ replicate 12 None @ map Some body"
proof -
  have "24 \<le> m_ind m" using m_ind_eq [OF assms] by simp
  with assms(1) obtain m' where "pack_reply_header h m = Inr m'" "m_wf m'"
      "m_cells m' = overwrite (m_cells m) 4 (map Some (reply_header_bytes h))"
    by (rule pack_reply_header_ok)
  with that show thesis by (simp add: assms(2) overwrite_def)
qed

lemma u_new_at:
  assumes "bs = ys @ r" "length ys = n" "length bs < 2 ^ 31"
  shows "u_wf ((unmarshall_new bs (length bs))\<lparr>u_ind := n\<rparr>)"
    "u_rest ((unmarshall_new bs (length bs))\<lparr>u_ind := n\<rparr>) = r"
  using assms by (auto simp: u_wf_def u_rest_def unmarshall_new_def)

lemma received_request:
  assumes "wire_image (replicate 4 None @ map Some (req_header_bytes h @ body)) bs" "length bs < 2 ^ 31"
  obtains u where "unpack_req_header (unmarshall_new bs (length bs)) = Inr (h, u)" "u_wf u" "u_ok u"
    "u_rest u = body" "u_sz u = length bs" "u_ind u = 24"
proof -
  let ?u = "unmarshall_new bs (length bs)"
  obtain ys where bs: "bs = ys @ req_header_bytes h @ body" "length ys = 4"
    using assms(1) by (auto simp: wire_image_append simp del: map_append dest: wire_image_length)
  then have "unpack_req_header ?u = Inr (h, ?u\<lparr>u_ind := 24\<rparr>)"
    using u_new_at [OF bs assms(2)] by (intro unpack_req_header_ok) (auto simp: unmarshall_new_def)
  moreover have "bs = (ys @ req_header_bytes h) @ body" "length (ys @ req_header_bytes h) = 24"
    using bs by simp_all
  then have "u_wf (?u\<lparr>u_ind := 24\<rparr>)" "u_rest (?u\<lparr>u_ind := 24\<rparr>) = body"
    using u_new_at assms(2) by blast+
  ultimately show thesis using that [of "?u\<lparr>u_ind := 24\<rparr>"] by (simp add: unmarshall_new_def)
qed

lemma received_reply:
  assumes "wire_image (replicate 4 None @ map Some (reply_header_bytes h) @ replicate 12 None @ map Some body) bs"
    "length bs < 2 ^ 31"
  obtains u where "unpack_reply_header (unmarshall_new bs (length bs)) = Inr (h, u)" "u_wf u" "u_ok u"
    "u_rest u = body" "u_sz u = length bs" "u_ind u = 24" "u_buf u = Some bs"
proof -
  let ?u = "unmarshall_new bs (length bs)"
  obtain ws xs where bs: "bs = ws @ reply_header_bytes h @ xs @ body" "length ws = 4" "length xs = 12"
    using assms(1) by (auto simp: wire_image_append dest!: wire_image_length)
  then have "unpack_reply_header ?u = Inr (h, ?u\<lparr>u_ind := 24\<rparr>)"
    using u_new_at [OF bs(1,2) assms(2)] by (intro unpack_reply_header_ok) (auto simp: unmarshall_new_def)
  moreover have "bs = (ws @ reply_header_bytes h @ xs) @ body" "length (ws @ reply_header_bytes h @ xs) = 24"
    using bs by simp_all
  then have "u_wf (?u\<lparr>u_ind := 24\<rparr>)" "u_rest (?u\<lparr>u_ind := 24\<rparr>) = body"
    using u_new_at assms(2) by blast+
  ultimately show thesis using that [of "?u\<lparr>u_ind := 24\<rparr>"] by (simp add: unmarshall_new_def)
qed

lemma decodes_done:
  assumes "decodes g x bs" "u_wf u" "u_ok u" "u_rest u = bs"
  obtains u' where "g u = Inr (x, u')" "u_okdone u'"
proof -
  have "g u = Inr (x, u_advance (length bs) u)"
    using assms by (simp add: decodes_def)
  moreover have "u_okdone (u_advance (length bs) u)"
    using length_u_rest [OF assms(2)] assms by (auto simp: u_okdone_def u_wf_def)
  ultimately show thesis by (rule that)
qed

section \<open>Properties\<close>

text \<open>
  C15. What \<^verbatim>\<open>testmarshall\<close> of \<^verbatim>\<open>src/rpc/rpctest.cc\<close> checks for one input holds for all: a header, an
  \<^verbatim>\<open>int\<close>, an \<^verbatim>\<open>unsigned long long\<close> and a string inserted into a fresh buffer give a block of
  exactly \<^verbatim>\<open>RPC_HEADER_SZ+sizeof(i)+sizeof(l)+s.size()+sizeof(int)\<close> bytes, and whoever receives that
  block extracts the same header and values and finds the input fully consumed.
\<close>

theorem marshall_roundtrip:
  assumes "length s < 2 ^ 30"
  shows "\<exists>m. rbind (pack_req_header rh marshall_new) (\<lambda>m. rbind (put_int i m) (\<lambda>m.
        rbind (put_ull l m) (put_string s))) = Inr m \<and>
      m_ind m = RPC_HEADER_SZ + 4 + 8 + length s + 4 \<and>
      (\<forall>bs. wire_image (m_cells m) bs \<longrightarrow>
        rbind (unpack_req_header (unmarshall_new bs (length bs))) (\<lambda>(rh', u).
        rbind (get_int u) (\<lambda>(i', u). rbind (get_ull u) (\<lambda>(l', u). rbind (get_string s0 u) (\<lambda>(s', u).
        Inr (rh', i', l', s', u_okdone u))))) = Inr (rh, i, l, s, True))"
proof -
  let ?body = "be32 i @ be64 l @ string_enc s"
  obtain m1 where m1: "pack_req_header rh marshall_new = Inr m1" "m_wf m1"
      "m_cells m1 = replicate 4 None @ map Some (req_header_bytes rh @ [])"
    by (rule packed_request [OF m_wf_new, of "[]" rh]) (auto simp: m_cells_new)
  have "appends (\<lambda>m. rbind (put_int i m) (\<lambda>m. rbind (put_ull l m) (put_string s))) ?body"
    by (intro appends_seq int_codec.put_appends ull_codec.put_appends put_string_appends TrueI)
  then obtain m where m: "rbind (put_int i m1) (\<lambda>m. rbind (put_ull l m) (put_string s)) = Inr m"
      "m_wf m" "m_cells m = m_cells m1 @ map Some ?body"
    using m1(2) by (rule appendsD)
  have cells: "m_cells m = replicate 4 None @ map Some (req_header_bytes rh @ ?body)"
    by (simp add: m(3) m1(3))
  have rd: "decodes (\<lambda>u. rbind (get_int u) (\<lambda>(i', u). rbind (get_ull u) (\<lambda>(l', u). rbind (get_string s0 u)
      (\<lambda>(s', u). Inr ((i', l', s'), u))))) (i, l, s) (be32 i @ be64 l @ string_enc s @ [])"
    using assms
    by (intro decodes_seq [OF int_codec.get_decodes] decodes_seq [OF ull_codec.get_decodes]
        decodes_seq [OF string_codec.get_decodes] robust_intros ull_codec.get_robust
        string_codec.get_robust decodes_return) simp_all
  have "rbind (unpack_req_header (unmarshall_new bs (length bs))) (\<lambda>(rh', u).
      rbind (get_int u) (\<lambda>(i', u). rbind (get_ull u) (\<lambda>(l', u). rbind (get_string s0 u) (\<lambda>(s', u).
      Inr (rh', i', l', s', u_okdone u))))) = Inr (rh, i, l, s, True)"
    if img: "wire_image (m_cells m) bs" for bs
  proof -
    have "length bs < 2 ^ 31" using wire_image_length [OF img] assms by (simp add: cells)
    with img [unfolded cells] obtain u where u: "unpack_req_header (unmarshall_new bs (length bs)) = Inr (rh, u)"
        "u_wf u" "u_ok u" "u_rest u = be32 i @ be64 l @ string_enc s @ []"
      by (rule received_request) simp
    obtain u' where "rbind (get_int u) (\<lambda>(i', u). rbind (get_ull u) (\<lambda>(l', u). rbind (get_string s0 u)
        (\<lambda>(s', u). Inr ((i', l', s'), u)))) = Inr ((i, l, s), u')" "u_okdone u'"
      by (rule decodes_done [OF rd u(2-4)])
    then show ?thesis by (auto simp: u(1) rbind_eq_Inr)
  qed
  then show ?thesis using m(1) m_ind_eq [OF m(2) cells] by (simp add: m1(1))
qed

theorem marshall_roundtrip_witness:
  "length ''hallo....'' < 2 ^ 30 \<and>
   (\<exists>m. rbind (pack_req_header \<lparr>h_xid = 1, h_proc = 2, h_clt_nonce = 3, h_srv_nonce = 4, h_xid_rep = 5\<rparr>
          marshall_new) (\<lambda>m. rbind (put_int 12345 m) (\<lambda>m. rbind (put_ull 1223344455 m) (put_string ''hallo....''))) = Inr m \<and>
      m_ind m = RPC_HEADER_SZ + 4 + 8 + length ''hallo....'' + 4 \<and>
      (\<forall>bs. wire_image (m_cells m) bs \<longrightarrow>
        rbind (unpack_req_header (unmarshall_new bs (length bs))) (\<lambda>(rh', u).
        rbind (get_int u) (\<lambda>(i', u). rbind (get_ull u) (\<lambda>(l', u). rbind (get_string [] u) (\<lambda>(s', u).
        Inr (rh', i', l', s', u_okdone u))))) =
        Inr (\<lparr>h_xid = 1, h_proc = 2, h_clt_nonce = 3, h_srv_nonce = 4, h_xid_rep = 5\<rparr>,
          12345, 1223344455, ''hallo....'', True)))"
  by (rule conjI, simp, rule marshall_roundtrip, simp)



text \<open>
  The length check of \<^verbatim>\<open>unmarshall::rawbytes\<close> (\<^verbatim>\<open>(_ind+n) > (unsigned)_sz\<close>) is computed modulo
  \<open>2 ^ 32\<close>.  A received string is read outside its block exactly when the announced length makes that
  sum wrap around to at most the size of the block; every other length is either read in bounds or
  rejected by clearing \<^verbatim>\<open>_ok\<close>.
\<close>

lemma rawbytes_wraps:
  assumes "u_wf u" "u_buf u = Some b" "length b \<le> u_sz u + 4"
  shows "u_rawbytes ss n u =
    (if u_ind u + unat n \<le> u_sz u
     then Inr (map char_of_byte (take (unat n) (u_rest u)), u\<lparr>u_ind := u_ind u + unat n\<rparr>)
     else if 2 ^ 32 \<le> u_ind u + unat n \<and> u_ind u + unat n - 2 ^ 32 \<le> u_sz u
     then Inl Wild_Access
     else Inr (ss, u\<lparr>u_ok := False\<rparr>))"
proof -
  have b: "u_sz u \<le> length b" "u_ind u \<le> u_sz u" "u_sz u < 2 ^ 31"
    using assms(1,2) by (auto simp: u_wf_def)
  have n: "unat n < 2 ^ 32" using unsigned_less [of n, where ?'a = nat] by simp
  have "unat (word_of_nat (u_ind u) + n :: u32) = (u_ind u + unat n) mod 2 ^ 32"
    using b by (simp add: unat_word_ariths unat_of_nat)
  then have chk: "word_of_nat (u_ind u) + n > (word_of_nat (u_sz u) :: u32) \<longleftrightarrow>
      (u_ind u + unat n) mod 2 ^ 32 > u_sz u"
    using b by (simp add: word_less_nat_alt unat_of_nat)
  have wrap: "(u_ind u + unat n) mod 2 ^ 32 =
      (if 2 ^ 32 \<le> u_ind u + unat n then u_ind u + unat n - 2 ^ 32 else u_ind u + unat n)"
    using b n by (simp add: le_mod_geq)
  show ?thesis
    using b n assms(2,3) unfolding u_rawbytes_def chk wrap
    by (auto simp: u_load_def u_rest_def drop_take min_absorb1)
qed

text \<open>A 32-byte request whose string announces 4294967272 bytes passes the check and is read far
  outside the block.\<close>

lemma rawbytes_wraps_example:
  "let u = \<lparr>u_buf = Some (replicate 36 0), u_sz = 32, u_ind = 28, u_ok = True\<rparr>
   in u_wf u \<and> u_buf u = Some (replicate 36 0) \<and> length (replicate 36 (0::byte)) \<le> u_sz u + 4 \<and>
      u_rawbytes [] 4294967272 u = Inl Wild_Access"
proof -
  let ?u = "\<lparr>u_buf = Some (replicate 36 0), u_sz = 32, u_ind = 28, u_ok = True\<rparr> :: unmarshall"
  have "u_wf ?u" by (simp add: u_wf_def)
  from rawbytes_wraps [OF this, of "replicate 36 0" "[]" 4294967272] this show ?thesis by simp
qed

text \<open>
  A reply leaves twelve bytes of the heap in the clear: \<^verbatim>\<open>pack_reply_header\<close> fills eight of the
  twenty-four header bytes and the channel the first four, so for every reply value the cells 12 to 23
  of the block that is sent have never been written, while everything after them has.
\<close>

lemma reply_header_leaves_heap_bytes:
  "\<exists>m. rbind (put_string r marshall_new) (pack_reply_header rh) = Inr m \<and>
     m_ind m = 24 + length (string_enc r) \<and>
     (\<forall>k < m_ind m. m_cells m ! k = None \<longleftrightarrow> k < 4 \<or> 12 \<le> k \<and> k < 24)"
proof -
  from put_string_appends m_wf_new obtain m1 where m1: "put_string r marshall_new = Inr m1" "m_wf m1"
      "m_cells m1 = m_cells marshall_new @ map Some (string_enc r)"
    by (rule appendsD)
  from m1(2) m1(3) [unfolded m_cells_new] obtain m where m: "pack_reply_header rh m1 = Inr m" "m_wf m"
      "m_cells m = replicate 4 None @ map Some (reply_header_bytes rh) @ replicate 12 None @ map Some (string_enc r)"
    by (rule packed_reply)
  have "m_cells m ! k = None \<longleftrightarrow> k < 4 \<or> 12 \<le> k \<and> k < 24" if "k < m_ind m" for k
    using that m_ind_eq [OF m(2,3)] by (auto simp: m(3) nth_append)
  with m1(1) m(1) m_ind_eq [OF m(2,3)] show ?thesis by auto
qed

lemma reply_header_leaves_heap_bytes_example:
  "\<exists>m. rbind (put_string ''ok'' marshall_new) (pack_reply_header \<lparr>r_xid = 7, r_ret = 0\<rparr>) = Inr m \<and>
     m_ind m = 30 \<and> m_cells m ! 8 \<noteq> None \<and> m_cells m ! 12 = None"
proof -
  obtain m where m: "rbind (put_string ''ok'' marshall_new) (pack_reply_header \<lparr>r_xid = 7, r_ret = 0\<rparr>) = Inr m"
      "m_ind m = 24 + length (string_enc ''ok'')"
      "\<forall>k < m_ind m. m_cells m ! k = None \<longleftrightarrow> k < 4 \<or> 12 \<le> k \<and> k < 24"
    using reply_header_leaves_heap_bytes [of "''ok''" "\<lparr>r_xid = 7, r_ret = 0\<rparr>"] by blast
  have "m_ind m = 30" using m(2) by (simp add: string_enc_def be32_def)
  moreover from this m(3) have "m_cells m ! 8 \<noteq> None" "m_cells m ! 12 = None" by simp_all
  ultimately show ?thesis using m(1) by blast
qed

end
