(* ===== verification/Rpc_Stubs.thy ===== *)
theory Rpc_Stubs
  imports Wire_Codec
begin

text \<open>
  The stub templates of \<^verbatim>\<open>src/rpc/rpc.h\<close>: the \<^verbatim>\<open>call\<close> family that marshals arguments on the client and the \<^verbatim>\<open>reg\<close>
  family that unmarshals them, runs a method and marshals its reply on the server. A template parameter is a
  pair of an insertion and an extraction operator; what they must satisfy is the locale \<open>wire_codec\<close>. \<open>direct_call1\<close> is the
  exchange of a client with the registered handlers of a server over a network that loses nothing.
\<close>

section \<open>Definitions\<close>

definition rpc_bind :: u32 where "rpc_bind = 1"
definition timeout_failure :: u32 where "timeout_failure = -1"
definition unmarshal_args_failure :: u32 where "unmarshal_args_failure = -2"
definition unmarshal_reply_failure :: u32 where "unmarshal_reply_failure = -3"
definition atmostonce_failure :: u32 where "atmostonce_failure = -4"
definition oldsrv_failure :: u32 where "oldsrv_failure = -5"
definition bind_failure :: u32 where "bind_failure = -6"
definition cancel_failure :: u32 where "cancel_failure = -7"

text \<open>A \<^verbatim>\<open>handler\<close>: its \<^verbatim>\<open>fn\<close> reads the arguments, acts on the object, and writes the reply.\<close>

type_synonym 's handler = "'s \<Rightarrow> unmarshall \<Rightarrow> marshall \<Rightarrow> fault + 's \<times> marshall \<times> u32"

subsection \<open>Handler templates\<close>

text \<open>
  The \<^verbatim>\<open>fn\<close> that \<^verbatim>\<open>reg\<close> builds around a method with one to seven arguments; \<open>r0\<close> is the value the local \<^verbatim>\<open>R r\<close>
  starts with. Extraction of an argument continues after a failed one, as the code's does.
\<close>

definition h1_fn ::
  "(unmarshall \<Rightarrow> fault + 'a \<times> unmarshall) \<Rightarrow> ('r \<Rightarrow> marshall \<Rightarrow> fault + marshall) \<Rightarrow> 'r \<Rightarrow>
   ('s \<Rightarrow> 'a \<Rightarrow> 'r \<Rightarrow> fault + 's \<times> u32 \<times> 'r) \<Rightarrow> 's handler" where
  "h1_fn getA putR r0 meth s args ret =
     rbind (getA args) (\<lambda>(a1, args).
       if \<not> u_okdone args then Inr (s, ret, unmarshal_args_failure)
       else rbind (meth s a1 r0) (\<lambda>(s, b, r). rbind (putR r ret) (\<lambda>ret. Inr (s, ret, b))))"

definition h2_fn ::
  "(unmarshall \<Rightarrow> fault + 'a \<times> unmarshall) \<Rightarrow> (unmarshall \<Rightarrow> fault + 'b \<times> unmarshall) \<Rightarrow>
   ('r \<Rightarrow> marshall \<Rightarrow> fault + marshall) \<Rightarrow> 'r \<Rightarrow> ('s \<Rightarrow> 'a \<Rightarrow> 'b \<Rightarrow> 'r \<Rightarrow> fault + 's \<times> u32 \<times> 'r) \<Rightarrow> 's handler" where
  "h2_fn getA getB putR r0 meth s args ret =
     rbind (getA args) (\<lambda>(a1, args). rbind (getB args) (\<lambda>(a2, args).
       if \<not> u_okdone args then Inr (s, ret, unmarshal_args_failure)
       else rbind (meth s a1 a2 r0) (\<lambda>(s, b, r). rbind (putR r ret) (\<lambda>ret. Inr (s, ret, b)))))"

definition h3_fn ::
  "(unmarshall \<Rightarrow> fault + 'a \<times> unmarshall) \<Rightarrow> (unmarshall \<Rightarrow> fault + 'b \<times> unmarshall) \<Rightarrow>
   (unmarshall \<Rightarrow> fault + 'c \<times> unmarshall) \<Rightarrow> ('r \<Rightarrow> marshall \<Rightarrow> fault + marshall) \<Rightarrow> 'r \<Rightarrow>
   ('s \<Rightarrow> 'a \<Rightarrow> 'b \<Rightarrow> 'c \<Rightarrow> 'r \<Rightarrow> fault + 's \<times> u32 \<times> 'r) \<Rightarrow> 's handler" where
  "h3_fn getA getB getC putR r0 meth s args ret =
     rbind (getA args) (\<lambda>(a1, args). rbind (getB args) (\<lambda>(a2, args). rbind (getC args) (\<lambda>(a3, args).
       if \<not> u_okdone args then Inr (s, ret, unmarshal_args_failure)
       else rbind (meth s a1 a2 a3 r0) (\<lambda>(s, b, r). rbind (putR r ret) (\<lambda>ret. Inr (s, ret, b))))))"

definition h4_fn ::
  "(unmarshall \<Rightarrow> fault + 'a \<times> unmarshall) \<Rightarrow> (unmarshall \<Rightarrow> fault + 'b \<times> unmarshall) \<Rightarrow>
   (unmarshall \<Rightarrow> fault + 'c \<times> unmarshall) \<Rightarrow> (unmarshall \<Rightarrow> fault + 'd \<times> unmarshall) \<Rightarrow>
   ('r \<Rightarrow> marshall \<Rightarrow> fault + marshall) \<Rightarrow> 'r \<Rightarrow>
   ('s \<Rightarrow> 'a \<Rightarrow> 'b \<Rightarrow> 'c \<Rightarrow> 'd \<Rightarrow> 'r \<Rightarrow> fault + 's \<times> u32 \<times> 'r) \<Rightarrow> 's handler" where
  "h4_fn getA getB getC getD putR r0 meth s args ret =
     rbind (getA args) (\<lambda>(a1, args). rbind (getB args) (\<lambda>(a2, args). rbind (getC args) (\<lambda>(a3, args).
     rbind (getD args) (\<lambda>(a4, args).
       if \<not> u_okdone args then Inr (s, ret, unmarshal_args_failure)
       else rbind (meth s a1 a2 a3 a4 r0) (\<lambda>(s, b, r). rbind (putR r ret) (\<lambda>ret. Inr (s, ret, b)))))))"

definition h5_fn ::
  "(unmarshall \<Rightarrow> fault + 'a \<times> unmarshall) \<Rightarrow> (unmarshall \<Rightarrow> fault + 'b \<times> unmarshall) \<Rightarrow>
   (unmarshall \<Rightarrow> fault + 'c \<times> unmarshall) \<Rightarrow> (unmarshall \<Rightarrow> fault + 'd \<times> unmarshall) \<Rightarrow>
   (unmarshall \<Rightarrow> fault + 'e \<times> unmarshall) \<Rightarrow> ('r \<Rightarrow> marshall \<Rightarrow> fault + marshall) \<Rightarrow> 'r \<Rightarrow>
   ('s \<Rightarrow> 'a \<Rightarrow> 'b \<Rightarrow> 'c \<Rightarrow> 'd \<Rightarrow> 'e \<Rightarrow> 'r \<Rightarrow> fault + 's \<times> u32 \<times> 'r) \<Rightarrow> 's handler" where
  "h5_fn getA getB getC getD getE putR r0 meth s args ret =
     rbind (getA args) (\<lambda>(a1, args). rbind (getB args) (\<lambda>(a2, args). rbind (getC args) (\<lambda>(a3, args).
     rbind (getD args) (\<lambda>(a4, args). rbind (getE args) (\<lambda>(a5, args).
       if \<not> u_okdone args then Inr (s, ret, unmarshal_args_failure)
       else rbind (meth s a1 a2 a3 a4 a5 r0) (\<lambda>(s, b, r). rbind (putR r ret) (\<lambda>ret. Inr (s, ret, b))))))))"

definition h6_fn ::
  "(unmarshall \<Rightarrow> fault + 'a \<times> unmarshall) \<Rightarrow> (unmarshall \<Rightarrow> fault + 'b \<times> unmarshall) \<Rightarrow>
   (unmarshall \<Rightarrow> fault + 'c \<times> unmarshall) \<Rightarrow> (unmarshall \<Rightarrow> fault + 'd \<times> unmarshall) \<Rightarrow>
   (unmarshall \<Rightarrow> fault + 'e \<times> unmarshall) \<Rightarrow> (unmarshall \<Rightarrow> fault + 'f \<times> unmarshall) \<Rightarrow>
   ('r \<Rightarrow> marshall \<Rightarrow> fault + marshall) \<Rightarrow> 'r \<Rightarrow>
   ('s \<Rightarrow> 'a \<Rightarrow> 'b \<Rightarrow> 'c \<Rightarrow> 'd \<Rightarrow> 'e \<Rightarrow> 'f \<Rightarrow> 'r \<Rightarrow> fault + 's \<times> u32 \<times> 'r) \<Rightarrow> 's handler" where
  "h6_fn getA getB getC getD getE getF putR r0 meth s args ret =
     rbind (getA args) (\<lambda>(a1, args). rbind (getB args) (\<lambda>(a2, args). rbind (getC args) (\<lambda>(a3, args).
     rbind (getD args) (\<lambda>(a4, args). rbind (getE args) (\<lambda>(a5, args). rbind (getF args) (\<lambda>(a6, args).
       if \<not> u_okdone args then Inr (s, ret, unmarshal_args_failure)
       else rbind (meth s a1 a2 a3 a4 a5 a6 r0) (\<lambda>(s, b, r). rbind (putR r ret) (\<lambda>ret. Inr (s, ret, b)))))))))"

definition h7_fn ::
  "(unmarshall \<Rightarrow> fault + 'a \<times> unmarshall) \<Rightarrow> (unmarshall \<Rightarrow> fault + 'b \<times> unmarshall) \<Rightarrow>
   (unmarshall \<Rightarrow> fault + 'c \<times> unmarshall) \<Rightarrow> (unmarshall \<Rightarrow> fault + 'd \<times> unmarshall) \<Rightarrow>
   (unmarshall \<Rightarrow> fault + 'e \<times> unmarshall) \<Rightarrow> (unmarshall \<Rightarrow> fault + 'f \<times> unmarshall) \<Rightarrow>
   (unmarshall \<Rightarrow> fault + 'g \<times> unmarshall) \<Rightarrow> ('r \<Rightarrow> marshall \<Rightarrow> fault + marshall) \<Rightarrow> 'r \<Rightarrow>
   ('s \<Rightarrow> 'a \<Rightarrow> 'b \<Rightarrow> 'c \<Rightarrow> 'd \<Rightarrow> 'e \<Rightarrow> 'f \<Rightarrow> 'g \<Rightarrow> 'r \<Rightarrow> fault + 's \<times> u32 \<times> 'r) \<Rightarrow> 's handler" where
  "h7_fn getA getB getC getD getE getF getG putR r0 meth s args ret =
     rbind (getA args) (\<lambda>(a1, args). rbind (getB args) (\<lambda>(a2, args). rbind (getC args) (\<lambda>(a3, args).
     rbind (getD args) (\<lambda>(a4, args). rbind (getE args) (\<lambda>(a5, args). rbind (getF args) (\<lambda>(a6, args).
     rbind (getG args) (\<lambda>(a7, args).
       if \<not> u_okdone args then Inr (s, ret, unmarshal_args_failure)
       else rbind (meth s a1 a2 a3 a4 a5 a6 a7 r0) (\<lambda>(s, b, r). rbind (putR r ret) (\<lambda>ret. Inr (s, ret, b))))))))))"

subsection \<open>Call templates\<close>

text \<open>
  \<^verbatim>\<open>call_m\<close> and the \<^verbatim>\<open>call\<close> templates of the client. The exchange itself, \<^verbatim>\<open>rpcc::call1\<close>, is the argument \<open>call1\<close>:
  it takes the procedure number and the marshalled request and gives back the client's state, the reply buffer
  and the integer result. A result is paired with the value left in the caller's \<^verbatim>\<open>R & r\<close>.
\<close>

type_synonym 'c call1 = "u32 \<Rightarrow> marshall \<Rightarrow> unmarshall \<Rightarrow> 'c \<Rightarrow> fault + 'c \<times> unmarshall \<times> u32"
type_synonym 'a getter = "unmarshall \<Rightarrow> fault + 'a \<times> unmarshall"
type_synonym 'a putter = "'a \<Rightarrow> marshall \<Rightarrow> fault + marshall"

definition call_m :: "'c call1 \<Rightarrow> ('r \<Rightarrow> 'r getter) \<Rightarrow> u32 \<Rightarrow> marshall \<Rightarrow> 'r \<Rightarrow> 'c \<Rightarrow> fault + 'c \<times> u32 \<times> 'r" where
  "call_m call1 getR proc req r c =
     rbind (call1 proc req unmarshall_empty c) (\<lambda>(c, u, intret).
       if sint intret < 0 then Inr (c, intret, r)
       else rbind (getR r u) (\<lambda>(r, u).
         if u_okdone u \<noteq> True then Inr (c, unmarshal_reply_failure, r) else Inr (c, intret, r)))"

definition rpc_call0 :: "'c call1 \<Rightarrow> ('r \<Rightarrow> 'r getter) \<Rightarrow> u32 \<Rightarrow> 'r \<Rightarrow> 'c \<Rightarrow> fault + 'c \<times> u32 \<times> 'r" where
  "rpc_call0 call1 getR proc r c = call_m call1 getR proc marshall_new r c"

definition rpc_call1 ::
  "'c call1 \<Rightarrow> ('r \<Rightarrow> 'r getter) \<Rightarrow> 'a putter \<Rightarrow> u32 \<Rightarrow> 'a \<Rightarrow> 'r \<Rightarrow> 'c \<Rightarrow> fault + 'c \<times> u32 \<times> 'r" where
  "rpc_call1 call1 getR putA proc a1 r c =
     rbind (putA a1 marshall_new) (\<lambda>m. call_m call1 getR proc m r c)"

definition rpc_call2 ::
  "'c call1 \<Rightarrow> ('r \<Rightarrow> 'r getter) \<Rightarrow> 'a putter \<Rightarrow> 'b putter \<Rightarrow> u32 \<Rightarrow> 'a \<Rightarrow> 'b \<Rightarrow> 'r \<Rightarrow> 'c \<Rightarrow> fault + 'c \<times> u32 \<times> 'r" where
  "rpc_call2 call1 getR putA putB proc a1 a2 r c =
     rbind (putA a1 marshall_new) (\<lambda>m. rbind (putB a2 m) (\<lambda>m. call_m call1 getR proc m r c))"

definition rpc_call3 ::
  "'c call1 \<Rightarrow> ('r \<Rightarrow> 'r getter) \<Rightarrow> 'a putter \<Rightarrow> 'b putter \<Rightarrow> 'd putter \<Rightarrow> u32 \<Rightarrow> 'a \<Rightarrow> 'b \<Rightarrow> 'd \<Rightarrow> 'r \<Rightarrow> 'c \<Rightarrow>
   fault + 'c \<times> u32 \<times> 'r" where
  "rpc_call3 call1 getR putA putB putC proc a1 a2 a3 r c =
     rbind (putA a1 marshall_new) (\<lambda>m. rbind (putB a2 m) (\<lambda>m. rbind (putC a3 m) (\<lambda>m.
       call_m call1 getR proc m r c)))"

definition rpc_call4 ::
  "'c call1 \<Rightarrow> ('r \<Rightarrow> 'r getter) \<Rightarrow> 'a putter \<Rightarrow> 'b putter \<Rightarrow> 'd putter \<Rightarrow> 'e putter \<Rightarrow> u32 \<Rightarrow> 'a \<Rightarrow> 'b \<Rightarrow> 'd \<Rightarrow> 'e \<Rightarrow>
   'r \<Rightarrow> 'c \<Rightarrow> fault + 'c \<times> u32 \<times> 'r" where
  "rpc_call4 call1 getR putA putB putC putD proc a1 a2 a3 a4 r c =
     rbind (putA a1 marshall_new) (\<lambda>m. rbind (putB a2 m) (\<lambda>m. rbind (putC a3 m) (\<lambda>m. rbind (putD a4 m) (\<lambda>m.
       call_m call1 getR proc m r c))))"

definition rpc_call5 ::
  "'c call1 \<Rightarrow> ('r \<Rightarrow> 'r getter) \<Rightarrow> 'a putter \<Rightarrow> 'b putter \<Rightarrow> 'd putter \<Rightarrow> 'e putter \<Rightarrow> 'f putter \<Rightarrow> u32 \<Rightarrow>
   'a \<Rightarrow> 'b \<Rightarrow> 'd \<Rightarrow> 'e \<Rightarrow> 'f \<Rightarrow> 'r \<Rightarrow> 'c \<Rightarrow> fault + 'c \<times> u32 \<times> 'r" where
  "rpc_call5 call1 getR putA putB putC putD putE proc a1 a2 a3 a4 a5 r c =
     rbind (putA a1 marshall_new) (\<lambda>m. rbind (putB a2 m) (\<lambda>m. rbind (putC a3 m) (\<lambda>m. rbind (putD a4 m) (\<lambda>m.
     rbind (putE a5 m) (\<lambda>m. call_m call1 getR proc m r c)))))"

definition rpc_call6 ::
  "'c call1 \<Rightarrow> ('r \<Rightarrow> 'r getter) \<Rightarrow> 'a putter \<Rightarrow> 'b putter \<Rightarrow> 'd putter \<Rightarrow> 'e putter \<Rightarrow> 'f putter \<Rightarrow> 'g putter \<Rightarrow> u32 \<Rightarrow>
   'a \<Rightarrow> 'b \<Rightarrow> 'd \<Rightarrow> 'e \<Rightarrow> 'f \<Rightarrow> 'g \<Rightarrow> 'r \<Rightarrow> 'c \<Rightarrow> fault + 'c \<times> u32 \<times> 'r" where
  "rpc_call6 call1 getR putA putB putC putD putE putF proc a1 a2 a3 a4 a5 a6 r c =
     rbind (putA a1 marshall_new) (\<lambda>m. rbind (putB a2 m) (\<lambda>m. rbind (putC a3 m) (\<lambda>m. rbind (putD a4 m) (\<lambda>m.
     rbind (putE a5 m) (\<lambda>m. rbind (putF a6 m) (\<lambda>m. call_m call1 getR proc m r c))))))"

definition rpc_call7 ::
  "'c call1 \<Rightarrow> ('r \<Rightarrow> 'r getter) \<Rightarrow> 'a putter \<Rightarrow> 'b putter \<Rightarrow> 'd putter \<Rightarrow> 'e putter \<Rightarrow> 'f putter \<Rightarrow> 'g putter \<Rightarrow>
   'h putter \<Rightarrow> u32 \<Rightarrow> 'a \<Rightarrow> 'b \<Rightarrow> 'd \<Rightarrow> 'e \<Rightarrow> 'f \<Rightarrow> 'g \<Rightarrow> 'h \<Rightarrow> 'r \<Rightarrow> 'c \<Rightarrow> fault + 'c \<times> u32 \<times> 'r" where
  "rpc_call7 call1 getR putA putB putC putD putE putF putG proc a1 a2 a3 a4 a5 a6 a7 r c =
     rbind (putA a1 marshall_new) (\<lambda>m. rbind (putB a2 m) (\<lambda>m. rbind (putC a3 m) (\<lambda>m. rbind (putD a4 m) (\<lambda>m.
     rbind (putE a5 m) (\<lambda>m. rbind (putF a6 m) (\<lambda>m. rbind (putG a7 m) (\<lambda>m. call_m call1 getR proc m r c)))))))"

section \<open>Every template is the one-argument template at a tuple\<close>

lemma h2_fn_tuple: "h2_fn getA getB putR r0 meth = h1_fn (get_pair getA getB) putR r0 (\<lambda>s (a, b). meth s a b)"
  by (intro ext) (simp add: h2_fn_def h1_fn_def get_pair_def rbind_assoc case_prod_unfold cong: if_cong)

lemma h3_fn_tuple:
  "h3_fn getA getB getC putR r0 meth =
   h1_fn (get_pair getA (get_pair getB getC)) putR r0 (\<lambda>s (a, b, c). meth s a b c)"
  by (intro ext) (simp add: h3_fn_def h1_fn_def get_pair_def rbind_assoc case_prod_unfold cong: if_cong)

lemma h4_fn_tuple:
  "h4_fn getA getB getC getD putR r0 meth =
   h1_fn (get_pair getA (get_pair getB (get_pair getC getD))) putR r0 (\<lambda>s (a, b, c, d). meth s a b c d)"
  by (intro ext) (simp add: h4_fn_def h1_fn_def get_pair_def rbind_assoc case_prod_unfold cong: if_cong)

lemma h5_fn_tuple:
  "h5_fn getA getB getC getD getE putR r0 meth =
   h1_fn (get_pair getA (get_pair getB (get_pair getC (get_pair getD getE)))) putR r0
     (\<lambda>s (a, b, c, d, e). meth s a b c d e)"
  by (intro ext) (simp add: h5_fn_def h1_fn_def get_pair_def rbind_assoc case_prod_unfold cong: if_cong)

lemma h6_fn_tuple:
  "h6_fn getA getB getC getD getE getF putR r0 meth =
   h1_fn (get_pair getA (get_pair getB (get_pair getC (get_pair getD (get_pair getE getF))))) putR r0
     (\<lambda>s (a, b, c, d, e, f). meth s a b c d e f)"
  by (intro ext) (simp add: h6_fn_def h1_fn_def get_pair_def rbind_assoc case_prod_unfold cong: if_cong)

lemma h7_fn_tuple:
  "h7_fn getA getB getC getD getE getF getG putR r0 meth =
   h1_fn (get_pair getA (get_pair getB (get_pair getC (get_pair getD (get_pair getE (get_pair getF getG)))))) putR r0
     (\<lambda>s (a, b, c, d, e, f, g). meth s a b c d e f g)"
  by (intro ext) (simp add: h7_fn_def h1_fn_def get_pair_def rbind_assoc case_prod_unfold cong: if_cong)

lemmas handler_tuples = h2_fn_tuple h3_fn_tuple h4_fn_tuple h5_fn_tuple h6_fn_tuple h7_fn_tuple

lemma rpc_call_tuples:
  "rpc_call2 call1 getR putA putB proc a b r = rpc_call1 call1 getR (put_pair putA putB) proc (a, b) r"
  "rpc_call3 call1 getR putA putB putC proc a b d r =
   rpc_call1 call1 getR (put_pair putA (put_pair putB putC)) proc (a, b, d) r"
  "rpc_call4 call1 getR putA putB putC putD proc a b d e r =
   rpc_call1 call1 getR (put_pair putA (put_pair putB (put_pair putC putD))) proc (a, b, d, e) r"
  "rpc_call5 call1 getR putA putB putC putD putE proc a b d e f r =
   rpc_call1 call1 getR (put_pair putA (put_pair putB (put_pair putC (put_pair putD putE)))) proc (a, b, d, e, f) r"
  "rpc_call6 call1 getR putA putB putC putD putE putF proc a b d e f g r =
   rpc_call1 call1 getR (put_pair putA (put_pair putB (put_pair putC (put_pair putD (put_pair putE putF))))) proc
     (a, b, d, e, f, g) r"
  "rpc_call7 call1 getR putA putB putC putD putE putF putG proc a b d e f g h r =
   rpc_call1 call1 getR (put_pair putA (put_pair putB (put_pair putC (put_pair putD (put_pair putE (put_pair putF putG)))))) proc
     (a, b, d, e, f, g, h) r"
  by (intro ext, simp add: rpc_call1_def rpc_call2_def rpc_call3_def rpc_call4_def rpc_call5_def rpc_call6_def
      rpc_call7_def put_pair_def rbind_assoc)+

section \<open>From call to reply\<close>

lemma request_built:
  assumes "wire_codec putA getA encA dmA" "dmA a"
  obtains m where "rbind (putA a marshall_new) (pack_req_header h) = Inr m" "m_wf m"
    "m_cells m = replicate 4 None @ map Some (req_header_bytes h @ encA a)"
proof -
  have "appends (putA a) (encA a)" using assms by (rule wire_codec.put_appends)
  then obtain m1 where m1: "putA a marshall_new = Inr m1" "m_wf m1" "m_cells m1 = replicate 24 None @ map Some (encA a)"
    using m_wf_new by (rule appendsD) (simp add: m_cells_new)
  from m1(2,3) obtain m where "pack_req_header h m1 = Inr m" "m_wf m"
      "m_cells m = replicate 4 None @ map Some (req_header_bytes h @ encA a)"
    by (rule packed_request)
  with m1(1) show thesis by (intro that) simp_all
qed

lemma handler_runs:
  assumes "wire_codec putA getA encA dmA" "wire_codec putR getR encR dmR" "dmA a" "dmR r"
    and "meth s a r0 = Inr (s', b, r)" "u_wf u" "u_ok u" "u_rest u = encA a"
  obtains m where "h1_fn getA putR r0 meth s u marshall_new = Inr (s', m, b)" "m_wf m"
    "m_cells m = replicate 24 None @ map Some (encR r)"
proof -
  have "decodes getA a (encA a)" using assms(1,3) by (rule wire_codec.get_decodes)
  then obtain u' where u': "getA u = Inr (a, u')" "u_okdone u'"
    using assms(6-8) by (rule decodes_done)
  have "appends (putR r) (encR r)" using assms(2,4) by (rule wire_codec.put_appends)
  then obtain m where m: "putR r marshall_new = Inr m" "m_wf m" "m_cells m = replicate 24 None @ map Some (encR r)"
    using m_wf_new by (rule appendsD) (simp add: m_cells_new)
  with u' assms(5) show thesis by (intro that [of m]) (simp_all add: h1_fn_def)
qed

lemma reply_accepted:
  assumes "wire_codec putR getR encR dmR" "dmR r" "length bs < 2 ^ 31"
    and "wire_image (replicate 4 None @ map Some (reply_header_bytes h) @ replicate 12 None @ map Some (encR r)) bs"
  obtains u v where "unpack_reply_header (unmarshall_new bs (length bs)) = Inr (h, u)" "u_ok u"
    "getR (fst (u_take_in u0 u)) = Inr (r, v)" "u_okdone v"
proof -
  obtain u where u: "unpack_reply_header (unmarshall_new bs (length bs)) = Inr (h, u)" "u_wf u" "u_ok u"
      "u_rest u = encR r" "u_sz u = length bs" "u_ind u = 24" "u_buf u = Some bs"
    using assms(4,3) by (rule received_reply)
  let ?u = "fst (u_take_in u0 u)"
  have eqs: "u_buf ?u = u_buf u" "u_sz ?u = u_sz u" "u_ind ?u = u_ind u" "u_ok ?u \<longleftrightarrow> 24 \<le> u_sz u"
    using u(6) by (simp_all add: u_take_in_def u_take_buf_def RPC_HEADER_SZ_def static_max_def
        sizeof_req_header_def sizeof_reply_header_def sizeof_rpc_sz_def)
  have "u_wf ?u" "u_rest ?u = encR r" "u_ok ?u"
    using u(2,4,6) by (auto simp: u_wf_def u_rest_def eqs)
  moreover have "decodes getR r (encR r)" using assms(1,2) by (rule wire_codec.get_decodes)
  ultimately obtain v where "getR ?u = Inr (r, v)" "u_okdone v"
    using decodes_done by metis
  with u(1,3) show thesis by (intro that)
qed

text \<open>
  The exchange a call is part of, with the network reduced to the bytes it delivers: the client marshals,
  the server dispatches to the handler and answers, the client's \<^verbatim>\<open>got_pdu\<close> takes the reply in.
\<close>

definition deliver_reply :: "byte list \<Rightarrow> 'c call1" where
  "deliver_reply bs proc req u c =
     rbind (unpack_reply_header (unmarshall_new bs (length bs))) (\<lambda>(h, rep).
       Inr (c, fst (u_take_in u rep), r_ret h))"

lemma rpc_exchange:
  assumes codecs: "wire_codec putA getA encA dmA" "wire_codec putR getR encR dmR"
    and dm: "dmA a" "dmR r" and meth: "meth s a r0 = Inr (s', b, r)" "0 \<le> sint b"
    and len: "length (encA a) < 2 ^ 30" "length (encR r) < 2 ^ 30"
  shows "\<exists>m. rbind (putA a marshall_new) (pack_req_header h) = Inr m \<and>
    (\<forall>bs. wire_image (m_cells m) bs \<longrightarrow>
      (\<exists>u ret rep. unpack_req_header (unmarshall_new bs (length bs)) = Inr (h, u) \<and> u_ok u \<and>
        h1_fn getA putR r0 meth s u marshall_new = Inr (s', ret, b) \<and>
        pack_reply_header \<lparr>r_xid = h_xid h, r_ret = b\<rparr> ret = Inr rep \<and>
        (\<forall>bs'. wire_image (m_cells rep) bs' \<longrightarrow>
          rpc_call1 (deliver_reply bs') (\<lambda>_. getR) putA proc a r1 c = Inr (c, b, r))))"
proof -
  obtain m where m: "rbind (putA a marshall_new) (pack_req_header h) = Inr m" "m_wf m"
      "m_cells m = replicate 4 None @ map Some (req_header_bytes h @ encA a)"
    using codecs(1) dm(1) by (rule request_built)
  have "\<exists>u ret rep. unpack_req_header (unmarshall_new bs (length bs)) = Inr (h, u) \<and> u_ok u \<and>
      h1_fn getA putR r0 meth s u marshall_new = Inr (s', ret, b) \<and>
      pack_reply_header \<lparr>r_xid = h_xid h, r_ret = b\<rparr> ret = Inr rep \<and>
      (\<forall>bs'. wire_image (m_cells rep) bs' \<longrightarrow>
        rpc_call1 (deliver_reply bs') (\<lambda>_. getR) putA proc a r1 c = Inr (c, b, r))"
    if img: "wire_image (m_cells m) bs" for bs
  proof -
    have "length bs < 2 ^ 31" using wire_image_length [OF img] len by (simp add: m(3))
    with img [unfolded m(3)] obtain u where u: "unpack_req_header (unmarshall_new bs (length bs)) = Inr (h, u)"
        "u_wf u" "u_ok u" "u_rest u = encA a" by (rule received_request)
    obtain ret where ret: "h1_fn getA putR r0 meth s u marshall_new = Inr (s', ret, b)" "m_wf ret"
        "m_cells ret = replicate 24 None @ map Some (encR r)"
      using codecs dm meth(1) u(2-4) by (rule handler_runs)
    from ret(2,3) obtain rep where rep: "pack_reply_header \<lparr>r_xid = h_xid h, r_ret = b\<rparr> ret = Inr rep" "m_wf rep"
        "m_cells rep = replicate 4 None @ map Some (reply_header_bytes \<lparr>r_xid = h_xid h, r_ret = b\<rparr>) @
           replicate 12 None @ map Some (encR r)"
      by (rule packed_reply)
    have "rpc_call1 (deliver_reply bs') (\<lambda>_. getR) putA proc a r1 c = Inr (c, b, r)"
      if img': "wire_image (m_cells rep) bs'" for bs'
    proof -
      have "length bs' < 2 ^ 31" using wire_image_length [OF img'] len by (simp add: rep(3))
      with codecs(2) dm(2) obtain v w where
          v: "unpack_reply_header (unmarshall_new bs' (length bs')) = Inr (\<lparr>r_xid = h_xid h, r_ret = b\<rparr>, v)"
          "getR (fst (u_take_in unmarshall_empty v)) = Inr (r, w)" "u_okdone w"
        using img' [unfolded rep(3)] by (rule reply_accepted)
      obtain m1 where "putA a marshall_new = Inr m1" using m(1) by (auto simp: rbind_eq_Inr)
      with v meth(2) show ?thesis by (simp add: rpc_call1_def call_m_def deliver_reply_def)
    qed
    with u(1,3) ret(1) rep(1) show ?thesis by blast
  qed
  with m(1) show ?thesis by blast
qed

text \<open>
  The server's side of an exchange: the packed request \<open>req\<close> arrives as some bytes, is dispatched to the handler
  \<open>f\<close>, which takes the state from \<open>s\<close> to \<open>s'\<close>, and the packed reply arrives at the client as the bytes \<open>bs'\<close>.
\<close>

definition served :: "'s handler \<Rightarrow> req_header \<Rightarrow> marshall \<Rightarrow> 's \<Rightarrow> 's \<Rightarrow> byte list \<Rightarrow> bool" where
  "served f h req s s' bs' \<longleftrightarrow>
     (\<exists>m bs h' u ret b rep. pack_req_header h req = Inr m \<and> wire_image (m_cells m) bs \<and>
        unpack_req_header (unmarshall_new bs (length bs)) = Inr (h', u) \<and> f s u marshall_new = Inr (s', ret, b) \<and>
        pack_reply_header \<lparr>r_xid = h_xid h', r_ret = b\<rparr> ret = Inr rep \<and> wire_image (m_cells rep) bs')"

lemma wire_image_exists: "\<exists>bs. wire_image c bs"
proof (induction c)
  case Nil
  show ?case by (auto simp: wire_image_def)
next
  case (Cons x c)
  then obtain bs where "wire_image c bs" by blast
  then have "wire_image (x # c) ((case x of None \<Rightarrow> 0 | Some b \<Rightarrow> b) # bs)" by (simp add: wire_image_def split: option.split)
  then show ?case by blast
qed

lemma served_call:
  assumes codecs: "wire_codec putA getA encA dmA" "wire_codec putR (getR r1) encR dmR"
    and dm: "dmA a" "dmR r" and meth: "meth s a r0 = Inr (s1, b, r)" "0 \<le> sint b"
    and len: "length (encA a) < 2 ^ 30" "length (encR r) < 2 ^ 30"
    and req: "putA a marshall_new = Inr req" "served (h1_fn getA putR r0 meth) h req s s' bs'"
  shows "s' = s1" "rpc_call1 (deliver_reply bs') getR putA proc a r1 c = Inr (c, b, r)"
proof -
  obtain m where m: "rbind (putA a marshall_new) (pack_req_header h) = Inr m"
      "\<forall>bs. wire_image (m_cells m) bs \<longrightarrow>
      (\<exists>u ret rep. unpack_req_header (unmarshall_new bs (length bs)) = Inr (h, u) \<and> u_ok u \<and>
        h1_fn getA putR r0 meth s u marshall_new = Inr (s1, ret, b) \<and>
        pack_reply_header \<lparr>r_xid = h_xid h, r_ret = b\<rparr> ret = Inr rep \<and>
        (\<forall>bs'. wire_image (m_cells rep) bs' \<longrightarrow>
          rpc_call1 (deliver_reply bs') (\<lambda>_. getR r1) putA proc a r1 c = Inr (c, b, r)))"
    using rpc_exchange [where getR = "getR r1" and a = a and r = r and meth = meth and s = s and ?r0.0 = r0 and s' = s1 and b = b
      and h = h and proc = proc and ?r1.0 = r1 and c = c, OF codecs dm meth len] by blast
  have call: "rpc_call1 (deliver_reply bs') getR putA proc a r1 c = rpc_call1 (deliver_reply bs') (\<lambda>_. getR r1) putA proc a r1 c" for bs'
    by (simp add: rpc_call1_def call_m_def)
  from req m show "s' = s1" "rpc_call1 (deliver_reply bs') getR putA proc a r1 c = Inr (c, b, r)"
    unfolding served_def call by fastforce+
qed

lemma served_exists:
  assumes codecs: "wire_codec putA getA encA dmA" "wire_codec putR getR encR dmR"
    and dm: "dmA a" "dmR r" and meth: "meth s a r0 = Inr (s1, b, r)" "0 \<le> sint b"
    and len: "length (encA a) < 2 ^ 30" "length (encR r) < 2 ^ 30"
  shows "\<exists>req bs'. putA a marshall_new = Inr req \<and> served (h1_fn getA putR r0 meth) h req s s1 bs'"
proof -
  obtain m where m: "rbind (putA a marshall_new) (pack_req_header h) = Inr m"
      "\<forall>bs. wire_image (m_cells m) bs \<longrightarrow>
      (\<exists>u ret rep. unpack_req_header (unmarshall_new bs (length bs)) = Inr (h, u) \<and> u_ok u \<and>
        h1_fn getA putR r0 meth s u marshall_new = Inr (s1, ret, b) \<and>
        pack_reply_header \<lparr>r_xid = h_xid h, r_ret = b\<rparr> ret = Inr rep \<and>
        (\<forall>bs'. wire_image (m_cells rep) bs' \<longrightarrow>
          rpc_call1 (deliver_reply bs') (\<lambda>_. getR) putA 0 a r () = Inr ((), b, r)))"
    using rpc_exchange [where a = a and r = r and meth = meth and s = s and ?r0.0 = r0 and s' = s1 and b = b
      and h = h and proc = 0 and ?r1.0 = r and c = "()", OF codecs dm meth len] by blast
  obtain req where req: "putA a marshall_new = Inr req" "pack_req_header h req = Inr m"
    using m(1) by (auto simp: rbind_eq_Inr)
  obtain bs where bs: "wire_image (m_cells m) bs" using wire_image_exists by blast
  then obtain u ret rep where x: "unpack_req_header (unmarshall_new bs (length bs)) = Inr (h, u)"
      "h1_fn getA putR r0 meth s u marshall_new = Inr (s1, ret, b)"
      "pack_reply_header \<lparr>r_xid = h_xid h, r_ret = b\<rparr> ret = Inr rep"
    using m(2) by blast
  obtain bs' where "wire_image (m_cells rep) bs'" using wire_image_exists by blast
  with req bs x show ?thesis unfolding served_def by blast
qed

section \<open>A network that loses nothing\<close>

text \<open>Bytes of a block that were never written arrive as zeros. A request for a procedure that is not registered is dropped
  by the server, so that the call times out.\<close>

definition fill :: "cells \<Rightarrow> byte list" where
  "fill cs = map (\<lambda>c. case c of None \<Rightarrow> 0 | Some b \<Rightarrow> b) cs"

definition direct_call1 :: "(u32 \<rightharpoonup> 's handler) \<Rightarrow> req_header \<Rightarrow> 's call1" where
  "direct_call1 hs h proc req u s =
     rbind (pack_req_header (h\<lparr>h_proc := proc\<rparr>) req) (\<lambda>m.
     rbind (unpack_req_header (unmarshall_new (fill (m_cells m)) (length (fill (m_cells m))))) (\<lambda>(h', args).
       case hs (h_proc h') of
         None \<Rightarrow> Inr (s, u, timeout_failure)
       | Some f \<Rightarrow>
           rbind (f s args marshall_new) (\<lambda>(s', ret, b).
           rbind (pack_reply_header \<lparr>r_xid = h_xid h', r_ret = b\<rparr> ret) (\<lambda>rep.
             deliver_reply (fill (m_cells rep)) proc req u s'))))"

lemma wire_image_fill: "wire_image cs (fill cs)"
proof (induction cs)
  case (Cons c cs)
  then show ?case by (auto simp: wire_image_def fill_def split: option.split)
qed (simp add: wire_image_def fill_def)

lemma direct_call:
  assumes hs: "hs proc = Some (h1_fn getA putR r0 meth)"
    and codecs: "wire_codec putA getA encA dmA" "wire_codec putR (getR r1) encR dmR"
    and dm: "dmA a" "dmR r" and meth: "meth s a r0 = Inr (s1, b, r)" "0 \<le> sint b"
    and len: "length (encA a) < 2 ^ 30" "length (encR r) < 2 ^ 30"
  shows "rpc_call1 (direct_call1 hs h) getR putA proc a r1 s = Inr (s1, b, r)"
proof -
  let ?h = "h\<lparr>h_proc := proc\<rparr>"
  obtain m where m: "rbind (putA a marshall_new) (pack_req_header ?h) = Inr m"
      "\<forall>bs. wire_image (m_cells m) bs \<longrightarrow>
      (\<exists>u ret rep. unpack_req_header (unmarshall_new bs (length bs)) = Inr (?h, u) \<and> u_ok u \<and>
        h1_fn getA putR r0 meth s u marshall_new = Inr (s1, ret, b) \<and>
        pack_reply_header \<lparr>r_xid = h_xid ?h, r_ret = b\<rparr> ret = Inr rep \<and>
        (\<forall>bs'. wire_image (m_cells rep) bs' \<longrightarrow>
          rpc_call1 (deliver_reply bs') (\<lambda>_. getR r1) putA proc a r1 s1 = Inr (s1, b, r)))"
    using rpc_exchange [where getR = "getR r1" and a = a and r = r and meth = meth and s = s and ?r0.0 = r0 and s' = s1 and b = b
      and h = ?h and proc = proc and ?r1.0 = r1 and c = s1, OF codecs dm meth len] by blast
  obtain req where req: "putA a marshall_new = Inr req" "pack_req_header ?h req = Inr m" using m(1) by (auto simp: rbind_eq_Inr)
  from m(2) wire_image_fill [of "m_cells m"] obtain u ret rep where
    x: "unpack_req_header (unmarshall_new (fill (m_cells m)) (length (fill (m_cells m)))) = Inr (?h, u)"
      "h1_fn getA putR r0 meth s u marshall_new = Inr (s1, ret, b)"
      "pack_reply_header \<lparr>r_xid = h_xid ?h, r_ret = b\<rparr> ret = Inr rep"
      "\<forall>bs'. wire_image (m_cells rep) bs' \<longrightarrow> rpc_call1 (deliver_reply bs') (\<lambda>_. getR r1) putA proc a r1 s1 = Inr (s1, b, r)"
    by blast
  have "direct_call1 hs h proc req unmarshall_empty s = deliver_reply (fill (m_cells rep)) proc req unmarshall_empty s1"
    unfolding direct_call1_def req(2) using x(1-3) hs by simp
  moreover have "rpc_call1 (deliver_reply (fill (m_cells rep))) (\<lambda>_. getR r1) putA proc a r1 s1 = Inr (s1, b, r)"
    using x(4) wire_image_fill by blast
  ultimately show ?thesis by (simp add: rpc_call1_def call_m_def req(1))
qed

section \<open>Properties\<close>

text \<open>
  C8. A remote call is transparent: for any argument and reply types whose operators obey the wire contract,
  the value the client's \<^verbatim>\<open>call\<close> marshals reaches the method unchanged, and the method's return value and
  reply reach the caller unchanged, whatever the bytes the network shows for the parts of the blocks that the
  protocol leaves unwritten.
\<close>

theorem rpc_transparent:
  assumes codecs: "wire_codec putA getA encA dmA" "wire_codec putR getR encR dmR"
    and dm: "dmA a" "dmR r" and meth: "meth s a r0 = Inr (s', b, r)" "0 \<le> sint b"
    and len: "length (encA a) < 2 ^ 30" "length (encR r) < 2 ^ 30"
  shows "\<exists>m. rbind (putA a marshall_new) (pack_req_header h) = Inr m \<and>
    (\<forall>bs. wire_image (m_cells m) bs \<longrightarrow>
      (\<exists>u ret rep. unpack_req_header (unmarshall_new bs (length bs)) = Inr (h, u) \<and> u_ok u \<and>
        h1_fn getA putR r0 meth s u marshall_new = Inr (s', ret, b) \<and>
        pack_reply_header \<lparr>r_xid = h_xid h, r_ret = b\<rparr> ret = Inr rep \<and>
        (\<forall>bs'. wire_image (m_cells rep) bs' \<longrightarrow>
          rpc_call1 (deliver_reply bs') (\<lambda>_. getR) putA proc a r1 c = Inr (c, b, r))))"
  using assms by (rule rpc_exchange)

theorem rpc_transparent_witness:
  "\<exists>m. rbind (put_pair put_ull put_string (7, ''abc'') marshall_new)
       (pack_req_header \<lparr>h_xid = 3, h_proc = 5, h_clt_nonce = 9, h_srv_nonce = 0, h_xid_rep = 2\<rparr>) = Inr m \<and>
     (\<forall>bs. wire_image (m_cells m) bs \<longrightarrow> (\<exists>rep. \<forall>bs'. wire_image (m_cells rep) bs' \<longrightarrow>
        rpc_call1 (deliver_reply bs') (\<lambda>_. get_int) (put_pair put_ull put_string) 5 (7, ''abc'') 0 () = Inr ((), 0, 42)))"
proof -
  note pair = ull_string.pair_codec [of "[]"]
  have "length (case (7, ''abc'') of (a, b) \<Rightarrow> be64 a @ string_enc b) < 2 ^ 30" "length (be32 42) < 2 ^ 30"
    by (simp_all add: string_enc_def)
  moreover have "case (7, ''abc'') of (a :: u64, b) \<Rightarrow> True \<and> length b < (2::nat) ^ 31" by simp
  ultimately show ?thesis
    using rpc_transparent [where a = "(7, ''abc'')" and r = 42
        and meth = "\<lambda>n (a, b) r. Inr (n + 1, 0, 42)" and s = "5 :: nat" and ?r0.0 = 0 and s' = 6 and b = 0
        and h = "\<lparr>h_xid = 3, h_proc = 5, h_clt_nonce = 9, h_srv_nonce = 0, h_xid_rep = 2\<rparr>"
        and proc = 5 and ?r1.0 = 0 and c = "()", OF pair int_codec.wire_codec_axioms]
    by (simp, blast)
qed

end
