(* ===== verification/Rpc_Time.thy ===== *)
theory Rpc_Time
  imports Yfs_Prelude "HOL-Library.Signed_Division"
begin

text \<open>
  The deadline arithmetic of \<^verbatim>\<open>src/rpc/rpc.cc\<close>: \<^verbatim>\<open>cmp_timespec\<close>, \<^verbatim>\<open>add_timespec\<close> and \<^verbatim>\<open>diff_timespec\<close>.
  The two fields of a \<^verbatim>\<open>struct timespec\<close> are 64 bits wide and hold calendar times, so they are integers
  here; the 32-bit \<^verbatim>\<open>int\<close> that \<^verbatim>\<open>diff_timespec\<close> returns is written out as a conversion, and \<^verbatim>\<open>/\<close> and \<^verbatim>\<open>%\<close>
  are the truncating division of C++.
\<close>

section \<open>Definitions\<close>

record timespec =
  tv_sec :: int
  tv_nsec :: int

text \<open>Conversion of a wider integer to \<^verbatim>\<open>int\<close>.\<close>

definition to_int32 :: "int \<Rightarrow> int" where
  "to_int32 x = signed_take_bit 31 x"

definition cmp_timespec :: "timespec \<Rightarrow> timespec \<Rightarrow> int" where
  "cmp_timespec a b =
     (if tv_sec a > tv_sec b then 1
      else if tv_sec a < tv_sec b then -1
      else if tv_nsec a > tv_nsec b then 1
      else if tv_nsec a < tv_nsec b then -1
      else 0)"

function carry_nsec :: "timespec \<Rightarrow> timespec" where
  "carry_nsec t =
     (if tv_nsec t > 1000000000
      then carry_nsec (t\<lparr>tv_sec := tv_sec t + 1, tv_nsec := tv_nsec t - 1000000000\<rparr>)
      else t)"
  by pat_completeness auto
termination by (relation "measure (\<lambda>t. nat (tv_nsec t))") auto

declare carry_nsec.simps [simp del]

definition add_timespec :: "timespec \<Rightarrow> int \<Rightarrow> fault + timespec" where
  "add_timespec a b =
     (let t = \<lparr>tv_sec = tv_sec a + b sdiv 1000, tv_nsec = tv_nsec a + (b smod 1000) * 1000000\<rparr>
      in rbind (verify (tv_nsec t \<ge> 0)) (\<lambda>_. Inr (carry_nsec t)))"

definition diff_timespec :: "timespec \<Rightarrow> timespec \<Rightarrow> fault + int" where
  "diff_timespec end start =
     (let diff = (if tv_sec end > tv_sec start then to_int32 ((tv_sec end - tv_sec start) * 1000) else 0)
      in rbind (verify (diff \<noteq> 0 \<or> tv_sec end = tv_sec start)) (\<lambda>_.
           Inr (if tv_nsec end > tv_nsec start
                then to_int32 (diff + (tv_nsec end - tv_nsec start) sdiv 1000000)
                else to_int32 (diff - (tv_nsec start - tv_nsec end) sdiv 1000000))))"

text \<open>The instant a \<^verbatim>\<open>timespec\<close> denotes, and the form the clock and \<^verbatim>\<open>pthread_cond_timedwait\<close> require.\<close>

definition nanos :: "timespec \<Rightarrow> int" where
  "nanos t = tv_sec t * 1000000000 + tv_nsec t"

definition normal :: "timespec \<Rightarrow> bool" where
  "normal t \<longleftrightarrow> 0 \<le> tv_nsec t \<and> tv_nsec t < 1000000000"

section \<open>Lemmas\<close>

lemma to_int32_id [simp]: "- (2 ^ 31) \<le> x \<Longrightarrow> x < 2 ^ 31 \<Longrightarrow> to_int32 x = x"
  by (simp add: to_int32_def signed_take_bit_int_eq_self)

lemma to_int32_add [simp]:
  "to_int32 (to_int32 x + y) = to_int32 (x + y)"
  "to_int32 (to_int32 x - y) = to_int32 (x - y)"
proof -
  have t: "take_bit 32 (signed_take_bit 31 x) = take_bit 32 x" by (simp add: take_bit_signed_take_bit)
  have "take_bit 32 (signed_take_bit 31 x + y) = take_bit 32 (x + y)"
    by (metis t take_bit_add)
  moreover have "take_bit 32 (signed_take_bit 31 x - y) = take_bit 32 (x - y)"
    by (metis t take_bit_diff)
  ultimately show
    "to_int32 (to_int32 x + y) = to_int32 (x + y)"
    "to_int32 (to_int32 x - y) = to_int32 (x - y)"
    by (simp_all add: to_int32_def signed_take_bit_eq_iff_take_bit_eq)
qed

lemma sdivmod_nonneg:
  "0 \<le> (b::int) \<Longrightarrow> b sdiv 1000 = b div 1000" "0 \<le> (b::int) \<Longrightarrow> b smod 1000 = b mod 1000"
  by (simp_all add: signed_divide_int_def signed_modulo_int_def sgn_if)

lemma carry_nsec_once:
  assumes "tv_nsec t \<le> 2000000000"
  shows "carry_nsec t =
    (if tv_nsec t > 1000000000
     then t\<lparr>tv_sec := tv_sec t + 1, tv_nsec := tv_nsec t - 1000000000\<rparr> else t)"
proof -
  let ?t = "t\<lparr>tv_sec := tv_sec t + 1, tv_nsec := tv_nsec t - 1000000000\<rparr>"
  have "carry_nsec ?t = ?t" using assms by (subst carry_nsec.simps) simp
  then show ?thesis by (subst carry_nsec.simps) simp
qed

lemma add_timespec_eq:
  assumes "normal a" "0 \<le> b"
  shows "add_timespec a b = Inr
    (let n = tv_nsec a + b mod 1000 * 1000000
     in if n > 1000000000 then \<lparr>tv_sec = tv_sec a + b div 1000 + 1, tv_nsec = n - 1000000000\<rparr>
        else \<lparr>tv_sec = tv_sec a + b div 1000, tv_nsec = n\<rparr>)"
proof -
  have "0 \<le> b mod 1000" "b mod 1000 < 1000" by simp_all
  with assms(1) have "0 \<le> tv_nsec a + b mod 1000 * 1000000" "tv_nsec a + b mod 1000 * 1000000 \<le> 2000000000"
    unfolding normal_def by linarith+
  with assms(2) show ?thesis
    by (simp add: add_timespec_def Let_def sdivmod_nonneg carry_nsec_once)
qed

lemma cmp_timespec_nanos:
  assumes "0 \<le> tv_nsec a" "tv_nsec a < 1000000000" "0 \<le> tv_nsec b" "tv_nsec b < 1000000000"
  shows "cmp_timespec a b = sgn (nanos a - nanos b)"
  using assms by (auto simp: cmp_timespec_def nanos_def sgn_if)

lemma to_int32_neq_0:
  assumes "0 < x" "x < 2 ^ 32" shows "to_int32 x \<noteq> 0"
proof -
  have "take_bit 32 x = x" using assms by (simp add: take_bit_int_eq_self)
  with assms show ?thesis
    by (auto simp: to_int32_def signed_take_bit_eq_iff_take_bit_eq [of 31 x 0, simplified])
qed

lemma sdiv_exact: "0 < (m::int) \<Longrightarrow> (k * m) sdiv m = k"
  by (simp add: signed_divide_int_def sgn_mult abs_mult) (simp add: sgn_if)

lemma diff_timespec_exact:
  assumes "nanos t = nanos a + b * 1000000" "tv_sec a \<le> tv_sec t" "(tv_sec t - tv_sec a) * 1000 < 2 ^ 32"
    "0 \<le> b" "b < 2 ^ 31"
  shows "diff_timespec t a = Inr b"
proof -
  define d where "d = tv_sec t - tv_sec a"
  have n: "tv_nsec t - tv_nsec a = (b - 1000 * d) * 1000000"
    using assms(1) by (simp add: nanos_def d_def)
  then have n': "tv_nsec a - tv_nsec t = (1000 * d - b) * 1000000" by simp
  have "(tv_nsec t - tv_nsec a) sdiv 1000000 = b - 1000 * d"
    "(tv_nsec a - tv_nsec t) sdiv 1000000 = 1000 * d - b"
    unfolding n n' by (rule sdiv_exact, simp)+
  moreover have "to_int32 (d * 1000) \<noteq> 0" if "d > 0"
    using that assms(3) by (intro to_int32_neq_0) (simp_all add: d_def)
  ultimately show ?thesis
    using assms(2,4,5) by (auto simp: diff_timespec_def Let_def d_def)
qed

section \<open>Deadlines\<close>

text \<open>
  C40. For a normalised clock value \<open>a\<close> and a timeout of \<open>b\<close> milliseconds, \<^verbatim>\<open>add_timespec\<close> never aborts and
  gives the instant exactly \<open>b\<close> milliseconds later, and \<^verbatim>\<open>diff_timespec\<close> recovers \<open>b\<close>. The result is again
  normalised except in one case: the loop stops at \<^verbatim>\<open>tv_nsec > 1000000000\<close>, so when the nanoseconds add
  up to exactly one second the result has \<^verbatim>\<open>tv_nsec == 1000000000\<close>, a deadline that
  \<^verbatim>\<open>pthread_cond_timedwait\<close> rejects.
\<close>

theorem add_timespec_deadline:
  assumes "normal a" "0 \<le> b" "b < 2 ^ 31"
  shows "\<exists>t. add_timespec a b = Inr t \<and> nanos t = nanos a + b * 1000000 \<and> diff_timespec t a = Inr b \<and>
    (normal t \<longleftrightarrow> tv_nsec a + b mod 1000 * 1000000 \<noteq> 1000000000)"
proof -
  define n where "n = tv_nsec a + b mod 1000 * 1000000"
  define t where "t = (if n > 1000000000 then \<lparr>tv_sec = tv_sec a + b div 1000 + 1, tv_nsec = n - 1000000000\<rparr>
    else \<lparr>tv_sec = tv_sec a + b div 1000, tv_nsec = n\<rparr>)"
  have add: "add_timespec a b = Inr t"
    using add_timespec_eq [OF assms(1,2)] by (simp add: t_def n_def Let_def)
  have "b mod 1000 * 1000000 = b * 1000000 - b div 1000 * 1000000000"
    using div_mult_mod_eq [of b 1000] by linarith
  then have inst: "nanos t = nanos a + b * 1000000" by (simp add: t_def nanos_def n_def)
  have "0 \<le> b mod 1000" "b mod 1000 < 1000" by simp_all
  then have n: "0 \<le> n" "n < 2000000000" using assms(1) unfolding n_def normal_def by linarith+
  have "normal t \<longleftrightarrow> n \<noteq> 1000000000" using n by (auto simp: t_def normal_def)
  moreover have "0 \<le> b div 1000" "b div 1000 \<le> 2147483" using assms(2,3) by simp_all
  then have "tv_sec a \<le> tv_sec t" "(tv_sec t - tv_sec a) * 1000 < 2 ^ 32" by (simp_all add: t_def)
  with inst assms(2,3) have "diff_timespec t a = Inr b" by (intro diff_timespec_exact)
  ultimately show ?thesis using add inst by (simp add: n_def)
qed

theorem add_timespec_deadline_witness:
  "\<exists>t. add_timespec \<lparr>tv_sec = 5, tv_nsec = 400000000\<rparr> 1600 = Inr t \<and> \<not> normal t"
  using add_timespec_deadline [of "\<lparr>tv_sec = 5, tv_nsec = 400000000\<rparr>" 1600]
  by (auto simp: normal_def)

end
