(* ===== verification/Pollmgr.thy ===== *)
theory Pollmgr
  imports Yfs_Prelude
begin

text \<open>
  The poll manager of \<^verbatim>\<open>src/rpc/pollmgr.cc\<close>: the \<^verbatim>\<open>select\<close>-based and the \<^verbatim>\<open>epoll\<close>-based implementations of the
  abstract class \<^verbatim>\<open>aio_mgr\<close>, and \<^verbatim>\<open>PollMgr\<close> with its thread. File descriptors are natural numbers, an \<^verbatim>\<open>fd_set\<close> is a
  set of them. The pipe of \<^verbatim>\<open>SelectAIO\<close> is the number of bytes in it; the sets that \<^verbatim>\<open>select\<close> and \<^verbatim>\<open>epoll_wait\<close>
  report are arguments, and \<^verbatim>\<open>epoll_ctl\<close> succeeds as its manual page says: adding an unregistered descriptor,
  changing or removing a registered one.
\<close>

section \<open>Definitions\<close>

definition MAX_POLL_FDS :: nat where "MAX_POLL_FDS = 128"

datatype poll_flag = CB_NONE | CB_RDONLY | CB_WRONLY | CB_RDWR | CB_MASK

fun flag_bits :: "poll_flag \<Rightarrow> u32" where
  "flag_bits CB_NONE = 0x0"
| "flag_bits CB_RDONLY = 0x1"
| "flag_bits CB_WRONLY = 0x10"
| "flag_bits CB_RDWR = 0x11"
| "flag_bits CB_MASK = NOT 0x11"

subsection \<open>\<^verbatim>\<open>SelectAIO\<close>\<close>

record select_aio =
  sa_rfds :: "nat set"
  sa_wfds :: "nat set"
  sa_highfds :: nat
  sa_pipe :: nat            \<comment> \<open>\<^verbatim>\<open>pipefd_[0]\<close>\<close>
  sa_pipe_bytes :: nat

definition select_new :: "nat \<Rightarrow> select_aio" where
  "select_new pipe = \<lparr>sa_rfds = {pipe}, sa_wfds = {}, sa_highfds = pipe, sa_pipe = pipe, sa_pipe_bytes = 0\<rparr>"

definition select_watch :: "nat \<Rightarrow> poll_flag \<Rightarrow> select_aio \<Rightarrow> fault + select_aio" where
  "select_watch fd flag a =
     (let a = (if sa_highfds a \<le> fd then a\<lparr>sa_highfds := fd\<rparr> else a);
          a = (if flag = CB_RDONLY then a\<lparr>sa_rfds := insert fd (sa_rfds a)\<rparr>
               else if flag = CB_WRONLY then a\<lparr>sa_wfds := insert fd (sa_wfds a)\<rparr>
               else a\<lparr>sa_rfds := insert fd (sa_rfds a), sa_wfds := insert fd (sa_wfds a)\<rparr>)
      in Inr (a\<lparr>sa_pipe_bytes := sa_pipe_bytes a + 1\<rparr>))"

definition select_is_watched :: "nat \<Rightarrow> poll_flag \<Rightarrow> select_aio \<Rightarrow> fault + bool" where
  "select_is_watched fd flag a =
     Inr (if flag = CB_RDONLY then fd \<in> sa_rfds a
          else if flag = CB_WRONLY then fd \<in> sa_wfds a
          else fd \<in> sa_rfds a \<and> fd \<in> sa_wfds a)"

text \<open>The loop that looks for the highest watched descriptor from 0 to \<^verbatim>\<open>highfds_\<close>.\<close>

fun new_high :: "nat set \<Rightarrow> nat \<Rightarrow> nat list \<Rightarrow> nat" where
  "new_high W newh [] = newh"
| "new_high W newh (i # is) = new_high W (if i \<in> W then i else newh) is"

definition select_unwatch :: "nat \<Rightarrow> poll_flag \<Rightarrow> select_aio \<Rightarrow> fault + select_aio \<times> bool" where
  "select_unwatch fd flag a =
     rbind (if flag = CB_RDONLY then Inr (a\<lparr>sa_rfds := sa_rfds a - {fd}\<rparr>)
            else if flag = CB_WRONLY then Inr (a\<lparr>sa_wfds := sa_wfds a - {fd}\<rparr>)
            else if flag = CB_RDWR then Inr (a\<lparr>sa_rfds := sa_rfds a - {fd}, sa_wfds := sa_wfds a - {fd}\<rparr>)
            else Inl Verify_Failed) (\<lambda>a.
       let gone = (fd \<notin> sa_rfds a \<and> fd \<notin> sa_wfds a);
           a = (if gone \<and> fd = sa_highfds a
                then a\<lparr>sa_highfds := new_high (sa_rfds a \<union> sa_wfds a) (sa_pipe a) [0..<sa_highfds a + 1]\<rparr>
                else a);
           a = (if flag = CB_RDWR then a\<lparr>sa_pipe_bytes := sa_pipe_bytes a + 1\<rparr> else a)
       in Inr (a, gone))"

text \<open>
  \<^verbatim>\<open>wait_ready\<close> from the return of \<^verbatim>\<open>select\<close> on, with the copy \<^verbatim>\<open>high\<close> taken before the call: a wake-up byte is taken
  from the pipe, every other ready descriptor up to \<^verbatim>\<open>high\<close> is reported.
\<close>

fun collect_ready :: "nat \<Rightarrow> nat set \<Rightarrow> nat set \<Rightarrow> nat list \<Rightarrow> nat list \<times> nat list" where
  "collect_ready pipe tr tw [] = ([], [])"
| "collect_ready pipe tr tw (fd # fds) =
     (let (rs, ws) = collect_ready pipe tr tw fds
      in if fd = pipe \<and> fd \<in> tr then (rs, ws)
         else ((if fd \<in> tr then fd # rs else rs), (if fd \<in> tw then fd # ws else ws)))"

datatype select_ret = Sel_Ready "nat set" "nat set" | Sel_EINTR | Sel_Error

definition select_wait_ready :: "select_ret \<Rightarrow> nat \<Rightarrow> select_aio \<Rightarrow> fault + select_aio \<times> nat list \<times> nat list" where
  "select_wait_ready ret high a =
     (case ret of
        Sel_EINTR \<Rightarrow> Inr (a, [], [])
      | Sel_Error \<Rightarrow> Inl Verify_Failed
      | Sel_Ready tr tw \<Rightarrow>
          rbind (if sa_pipe a \<in> tr \<and> sa_pipe a \<le> high
                 then rbind (verify (sa_pipe_bytes a > 0)) (\<lambda>_. Inr (a\<lparr>sa_pipe_bytes := sa_pipe_bytes a - 1\<rparr>))
                 else Inr a) (\<lambda>a'.
            Inr (a', collect_ready (sa_pipe a) tr tw [0..<high + 1])))"

subsection \<open>\<^verbatim>\<open>EPollAIO\<close>\<close>

record epoll_aio =
  ea_fdstatus :: "nat \<Rightarrow> u32"
  ea_registered :: "nat set"    \<comment> \<open>the kernel's interest list\<close>

definition epoll_new :: epoll_aio where
  "epoll_new = \<lparr>ea_fdstatus = (\<lambda>_. 0), ea_registered = {}\<rparr>"

definition epoll_watch :: "nat \<Rightarrow> poll_flag \<Rightarrow> epoll_aio \<Rightarrow> fault + epoll_aio" where
  "epoll_watch fd flag a =
     rbind (verify (fd < MAX_POLL_FDS)) (\<lambda>_.
       let modify = (ea_fdstatus a fd \<noteq> 0);
           st = ea_fdstatus a fd OR flag_bits flag;
           a = a\<lparr>ea_fdstatus := (ea_fdstatus a)(fd := st)\<rparr>;
           events = (st AND 0x1 \<noteq> 0, st AND 0x10 \<noteq> 0)
       in rbind (verify (flag = CB_RDWR \<longrightarrow> events = (True, True))) (\<lambda>_.
          rbind (verify (modify \<longleftrightarrow> fd \<in> ea_registered a)) (\<lambda>_.
            Inr (a\<lparr>ea_registered := insert fd (ea_registered a)\<rparr>))))"

definition epoll_unwatch :: "nat \<Rightarrow> poll_flag \<Rightarrow> epoll_aio \<Rightarrow> fault + epoll_aio \<times> bool" where
  "epoll_unwatch fd flag a =
     rbind (verify (fd < MAX_POLL_FDS)) (\<lambda>_.
       let st = ea_fdstatus a fd AND NOT (flag_bits flag);
           a = a\<lparr>ea_fdstatus := (ea_fdstatus a)(fd := st)\<rparr>;
           del = (st = 0)
       in rbind (verify (flag = CB_RDWR \<longrightarrow> del)) (\<lambda>_.
          rbind (verify (fd \<in> ea_registered a)) (\<lambda>_.
            Inr (if del then a\<lparr>ea_registered := ea_registered a - {fd}\<rparr> else a, del))))"

definition epoll_is_watched :: "nat \<Rightarrow> poll_flag \<Rightarrow> epoll_aio \<Rightarrow> fault + bool" where
  "epoll_is_watched fd flag a =
     rbind (verify (fd < MAX_POLL_FDS)) (\<lambda>_. Inr ((ea_fdstatus a fd AND flag_bits CB_MASK) = flag_bits flag))"

definition epoll_wait_ready :: "(nat \<times> bool \<times> bool) list \<Rightarrow> nat list \<times> nat list" where
  "epoll_wait_ready ready = (map fst (filter (\<lambda>(fd, i, o'). i) ready), map fst (filter (\<lambda>(fd, i, o'). o') ready))"

definition wants_read :: "poll_flag \<Rightarrow> bool" where "wants_read f \<longleftrightarrow> f = CB_RDONLY \<or> f = CB_RDWR"
definition wants_write :: "poll_flag \<Rightarrow> bool" where "wants_write f \<longleftrightarrow> f = CB_WRONLY \<or> f = CB_RDWR"
definition real_flag :: "poll_flag \<Rightarrow> bool" where "real_flag f \<longleftrightarrow> f = CB_RDONLY \<or> f = CB_WRONLY \<or> f = CB_RDWR"

subsection \<open>\<^verbatim>\<open>PollMgr\<close>\<close>

text \<open>
  The thread of \<^verbatim>\<open>wait_loop\<close> is between its critical sections in one of these phases. An entry of the work list
  is a descriptor with True for \<^verbatim>\<open>read_cb\<close> and False for \<^verbatim>\<open>write_cb\<close>. \<^verbatim>\<open>callbacks_[fd]\<close> is read twice without a
  lock, once for the test and once for the call.
\<close>

datatype loop_phase =
    At_Top
  | Before_Wait
  | In_Select "nat set" "nat set" nat
  | Dispatching "(nat \<times> bool) list"
  | Tested nat bool "(nat \<times> bool) list"
  | In_Callback nat "(nat \<times> bool) list"

record pollmgr =
  pm_aio :: select_aio
  pm_callbacks :: "nat \<Rightarrow> nat option"     \<comment> \<open>\<^verbatim>\<open>callbacks_\<close>, a callback object named by a number\<close>
  pm_pending :: bool
  pm_waiting :: "nat set"                 \<comment> \<open>the \<^verbatim>\<open>block_remove_fd(fd)\<close> calls blocked on \<^verbatim>\<open>changedone_c_\<close>\<close>
  pm_woken :: "nat set"                   \<comment> \<open>those woken that do not yet hold the mutex again\<close>
  pm_loop :: loop_phase

definition pollmgr_new :: "nat \<Rightarrow> pollmgr" where
  "pollmgr_new pipe = \<lparr>pm_aio = select_new pipe, pm_callbacks = (\<lambda>_. None), pm_pending = False,
     pm_waiting = {}, pm_woken = {}, pm_loop = At_Top\<rparr>"

definition add_callback :: "nat \<Rightarrow> poll_flag \<Rightarrow> nat \<Rightarrow> pollmgr \<Rightarrow> fault + pollmgr" where
  "add_callback fd flag ch pm =
     rbind (verify (fd < MAX_POLL_FDS)) (\<lambda>_.
     rbind (select_watch fd flag (pm_aio pm)) (\<lambda>a.
     rbind (verify (pm_callbacks pm fd = None \<or> pm_callbacks pm fd = Some ch)) (\<lambda>_.
       Inr (pm\<lparr>pm_aio := a, pm_callbacks := (pm_callbacks pm)(fd := Some ch)\<rparr>))))"

text \<open>\<^verbatim>\<open>block_remove_fd\<close> up to \<^verbatim>\<open>pthread_cond_wait\<close>, and from its return on.\<close>

definition block_remove_start :: "nat \<Rightarrow> pollmgr \<Rightarrow> fault + pollmgr" where
  "block_remove_start fd pm =
     rbind (select_unwatch fd CB_RDWR (pm_aio pm)) (\<lambda>(a, _).
       Inr (pm\<lparr>pm_aio := a, pm_pending := True, pm_waiting := insert fd (pm_waiting pm)\<rparr>))"

definition block_remove_finish :: "nat \<Rightarrow> pollmgr \<Rightarrow> pollmgr" where
  "block_remove_finish fd pm =
     pm\<lparr>pm_woken := pm_woken pm - {fd}, pm_callbacks := (pm_callbacks pm)(fd := None)\<rparr>"

definition del_callback :: "nat \<Rightarrow> poll_flag \<Rightarrow> pollmgr \<Rightarrow> fault + pollmgr" where
  "del_callback fd flag pm =
     rbind (select_unwatch fd flag (pm_aio pm)) (\<lambda>(a, gone).
       Inr (pm\<lparr>pm_aio := a, pm_callbacks := (if gone then (pm_callbacks pm)(fd := None) else pm_callbacks pm)\<rparr>))"

definition has_callback :: "nat \<Rightarrow> poll_flag \<Rightarrow> nat \<Rightarrow> pollmgr \<Rightarrow> fault + bool" where
  "has_callback fd flag c pm =
     (if pm_callbacks pm fd = None \<or> pm_callbacks pm fd \<noteq> Some c then Inr False
      else select_is_watched fd flag (pm_aio pm))"

definition loop_top :: "pollmgr \<Rightarrow> pollmgr" where
  "loop_top pm =
     (if pm_pending pm
      then pm\<lparr>pm_pending := False, pm_woken := pm_woken pm \<union> pm_waiting pm, pm_waiting := {}, pm_loop := Before_Wait\<rparr>
      else pm\<lparr>pm_loop := Before_Wait\<rparr>)"

definition loop_ready :: "select_ret \<Rightarrow> nat \<Rightarrow> pollmgr \<Rightarrow> fault + pollmgr" where
  "loop_ready ret high pm =
     rbind (select_wait_ready ret high (pm_aio pm)) (\<lambda>(a, readable, writable).
       Inr (pm\<lparr>pm_aio := a,
               pm_loop := Dispatching (map (\<lambda>fd. (fd, True)) readable @ map (\<lambda>fd. (fd, False)) writable)\<rparr>))"

text \<open>The events of the threads that use the poll manager and of its own thread.\<close>

datatype pm_event =
    Add nat poll_flag nat
  | Remove_Start nat
  | Remove_Finish nat
  | Spurious nat                 \<comment> \<open>\<^verbatim>\<open>pthread_cond_wait\<close> returns without a broadcast\<close>
  | Del nat poll_flag
  | Loop_Top
  | Loop_Snapshot
  | Loop_Ready select_ret
  | Loop_Test
  | Loop_Call nat bool nat
  | Loop_Return
  | Loop_Again

text \<open>None: the event cannot happen in this state.\<close>

fun pm_step :: "pm_event \<Rightarrow> pollmgr \<Rightarrow> (fault + pollmgr) option" where
  "pm_step (Add fd flag ch) pm = Some (add_callback fd flag ch pm)"
| "pm_step (Remove_Start fd) pm = Some (block_remove_start fd pm)"
| "pm_step (Remove_Finish fd) pm = (if fd \<in> pm_woken pm then Some (Inr (block_remove_finish fd pm)) else None)"
| "pm_step (Spurious fd) pm =
     (if fd \<in> pm_waiting pm
      then Some (Inr (pm\<lparr>pm_waiting := pm_waiting pm - {fd}, pm_woken := insert fd (pm_woken pm)\<rparr>)) else None)"
| "pm_step (Del fd flag) pm = Some (del_callback fd flag pm)"
| "pm_step Loop_Top pm = (if pm_loop pm = At_Top then Some (Inr (loop_top pm)) else None)"
| "pm_step Loop_Snapshot pm =
     (if pm_loop pm = Before_Wait
      then Some (Inr (pm\<lparr>pm_loop := In_Select (sa_rfds (pm_aio pm)) (sa_wfds (pm_aio pm)) (sa_highfds (pm_aio pm))\<rparr>))
      else None)"
| "pm_step (Loop_Ready ret) pm =
     (case pm_loop pm of In_Select r w high \<Rightarrow> Some (loop_ready ret high pm) | _ \<Rightarrow> None)"
| "pm_step Loop_Test pm =
     (case pm_loop pm of
        Dispatching ((fd, b) # todo) \<Rightarrow>
          Some (Inr (pm\<lparr>pm_loop := (if pm_callbacks pm fd = None then Dispatching todo else Tested fd b todo)\<rparr>))
      | _ \<Rightarrow> None)"
| "pm_step (Loop_Call fd b ch) pm =
     (case pm_loop pm of
        Tested fd' b' todo \<Rightarrow>
          (if fd = fd' \<and> b = b' then
             (case pm_callbacks pm fd of
                None \<Rightarrow> Some (Inl Null_Access)
              | Some c \<Rightarrow> if c = ch then Some (Inr (pm\<lparr>pm_loop := In_Callback fd todo\<rparr>)) else None)
           else None)
      | _ \<Rightarrow> None)"
| "pm_step Loop_Return pm =
     (case pm_loop pm of In_Callback fd todo \<Rightarrow> Some (Inr (pm\<lparr>pm_loop := Dispatching todo\<rparr>)) | _ \<Rightarrow> None)"
| "pm_step Loop_Again pm = (if pm_loop pm = Dispatching [] then Some (Inr (pm\<lparr>pm_loop := At_Top\<rparr>)) else None)"

text \<open>
  How the rest of the library uses the poll manager: descriptors below the limit other than the pipe, a descriptor
  is not registered while it is being removed nor for two callbacks, \<^verbatim>\<open>del_callback\<close> is called from within a
  callback only (as \<^verbatim>\<open>connection\<close> does), and a descriptor is removed by one thread. And what the operating system
  promises: \<^verbatim>\<open>select\<close> reports descriptors it was asked about, below its first argument, the pipe only when it has
  a byte, and no wake-up is spurious.
\<close>

definition being_removed :: "pollmgr \<Rightarrow> nat set" where
  "being_removed pm = pm_waiting pm \<union> pm_woken pm"

fun disciplined :: "pm_event \<Rightarrow> pollmgr \<Rightarrow> bool" where
  "disciplined (Add fd flag ch) pm \<longleftrightarrow> fd < MAX_POLL_FDS \<and> real_flag flag \<and> fd \<noteq> sa_pipe (pm_aio pm) \<and>
     fd \<notin> being_removed pm \<and> pm_callbacks pm fd \<in> {None, Some ch}"
| "disciplined (Remove_Start fd) pm \<longleftrightarrow> fd \<noteq> sa_pipe (pm_aio pm) \<and> fd \<notin> being_removed pm"
| "disciplined (Spurious fd) pm \<longleftrightarrow> False"
| "disciplined (Del fd flag) pm \<longleftrightarrow> real_flag flag \<and> fd \<noteq> sa_pipe (pm_aio pm) \<and>
     (case pm_loop pm of In_Callback _ _ \<Rightarrow> True | _ \<Rightarrow> False)"
| "disciplined (Loop_Ready ret) pm \<longleftrightarrow>
     (case (ret, pm_loop pm) of
        (Sel_Ready tr tw, In_Select r w high) \<Rightarrow>
          tr \<subseteq> r \<and> tw \<subseteq> w \<and> (sa_pipe (pm_aio pm) \<in> tr \<longrightarrow> 0 < sa_pipe_bytes (pm_aio pm))
      | (Sel_Error, _) \<Rightarrow> False
      | _ \<Rightarrow> True)"
| "disciplined _ pm \<longleftrightarrow> True"

inductive pm_run :: "pollmgr \<Rightarrow> pm_event list \<Rightarrow> pollmgr \<Rightarrow> bool" where
  pm_nil: "pm_run pm [] pm"
| pm_snoc: "pm_run pm es pm1 \<Longrightarrow> disciplined ev pm1 \<Longrightarrow> pm_step ev pm1 = Some (Inr pm2) \<Longrightarrow> pm_run pm (es @ [ev]) pm2"

section \<open>The contract of \<^verbatim>\<open>aio_mgr\<close>\<close>

text \<open>
  What \<^verbatim>\<open>PollMgr\<close> relies on, in terms of the descriptors watched for reading (\<open>rd\<close>) and for writing (\<open>wr\<close>):
  the first locale for \<^verbatim>\<open>watch_fd\<close> and \<^verbatim>\<open>unwatch_fd\<close>, the second also for \<^verbatim>\<open>is_watched\<close>.
\<close>

locale aio_watch =
  fixes watch :: "nat \<Rightarrow> poll_flag \<Rightarrow> 'a \<Rightarrow> fault + 'a"
    and unwatch :: "nat \<Rightarrow> poll_flag \<Rightarrow> 'a \<Rightarrow> fault + 'a \<times> bool"
    and inv :: "'a \<Rightarrow> bool"
    and rd :: "'a \<Rightarrow> nat set"
    and wr :: "'a \<Rightarrow> nat set"
  assumes watch_law: "inv a \<Longrightarrow> fd < MAX_POLL_FDS \<Longrightarrow> real_flag f \<Longrightarrow>
      \<exists>a'. watch fd f a = Inr a' \<and> inv a' \<and> rd a' = (if wants_read f then insert fd (rd a) else rd a) \<and>
        wr a' = (if wants_write f then insert fd (wr a) else wr a)"
    and unwatch_law: "inv a \<Longrightarrow> fd < MAX_POLL_FDS \<Longrightarrow> real_flag f \<Longrightarrow> fd \<in> rd a \<union> wr a \<Longrightarrow>
      \<exists>a'. unwatch fd f a = Inr (a', fd \<notin> rd a' \<union> wr a') \<and> inv a' \<and>
        rd a' = (if wants_read f then rd a - {fd} else rd a) \<and> wr a' = (if wants_write f then wr a - {fd} else wr a)"
begin

lemma unwatch_all: "inv a \<Longrightarrow> fd < MAX_POLL_FDS \<Longrightarrow> fd \<in> rd a \<union> wr a \<Longrightarrow>
    \<exists>a'. unwatch fd CB_RDWR a = Inr (a', True) \<and> inv a' \<and> rd a' = rd a - {fd} \<and> wr a' = wr a - {fd}"
  using unwatch_law [of a fd CB_RDWR] by (auto simp: real_flag_def wants_read_def wants_write_def)

lemma watch_unwatch:
  assumes "inv a" "fd < MAX_POLL_FDS" "real_flag f" "fd \<notin> rd a" "fd \<notin> wr a"
  shows "\<exists>a1 a2. watch fd f a = Inr a1 \<and> unwatch fd f a1 = Inr (a2, True) \<and> rd a2 = rd a \<and> wr a2 = wr a"
proof -
  obtain a1 where a1: "watch fd f a = Inr a1" "inv a1" "rd a1 = (if wants_read f then insert fd (rd a) else rd a)"
      "wr a1 = (if wants_write f then insert fd (wr a) else wr a)"
    using watch_law [OF assms(1-3)] by blast
  have "fd \<in> rd a1 \<union> wr a1" using assms(3) by (auto simp: a1 real_flag_def wants_read_def wants_write_def)
  with unwatch_law [OF a1(2) assms(2,3)] obtain a2 where "unwatch fd f a1 = Inr (a2, fd \<notin> rd a2 \<union> wr a2)"
      "rd a2 = (if wants_read f then rd a1 - {fd} else rd a1)" "wr a2 = (if wants_write f then wr a1 - {fd} else wr a1)"
    by blast
  with a1 assms show ?thesis by auto
qed

end

locale aio_mgr = aio_watch +
  fixes is_watched :: "nat \<Rightarrow> poll_flag \<Rightarrow> 'a \<Rightarrow> fault + bool"
  assumes is_watched_law: "inv a \<Longrightarrow> fd < MAX_POLL_FDS \<Longrightarrow> real_flag f \<Longrightarrow>
      is_watched fd f a = Inr ((wants_read f \<longrightarrow> fd \<in> rd a) \<and> (wants_write f \<longrightarrow> fd \<in> wr a))"
begin

lemma watched_after_watch:
  "inv a \<Longrightarrow> fd < MAX_POLL_FDS \<Longrightarrow> real_flag f \<Longrightarrow> \<exists>a'. watch fd f a = Inr a' \<and> is_watched fd f a' = Inr True"
  using watch_law [of a fd f] is_watched_law [of _ fd f] by fastforce

end

section \<open>\<^verbatim>\<open>SelectAIO\<close> fulfils the contract\<close>

abbreviation sa_watched :: "select_aio \<Rightarrow> nat set" where
  "sa_watched a \<equiv> sa_rfds a \<union> sa_wfds a"

definition select_inv :: "select_aio \<Rightarrow> bool" where
  "select_inv a \<longleftrightarrow> (\<forall>x \<in> sa_watched a. x \<le> sa_highfds a)"

lemma new_high_cases: "new_high W h is = h \<and> (\<forall>i \<in> set is. i \<notin> W) \<or> new_high W h is \<in> W \<inter> set is"
  by (induction W h "is" rule: new_high.induct) auto

lemma new_high_upper:
  assumes "sorted is" "x \<in> W" "x \<in> set is"
  shows "x \<le> new_high W h is"
  using assms
proof (induction W h "is" rule: new_high.induct)
  case (2 W h i "is")
  show ?case
  proof (cases "x \<in> set is")
    case True
    with 2 show ?thesis by simp
  next
    case False
    with "2.prems" have "x = i" by simp
    moreover have "i \<le> new_high W i is"
      using new_high_cases [of W i "is"] "2.prems"(1) by auto
    ultimately show ?thesis using "2.prems"(2) by simp
  qed
qed simp

lemma select_unwatch_eq:
  assumes "real_flag f"
  shows "\<exists>a'. select_unwatch fd f a = Inr (a', fd \<notin> sa_watched a') \<and>
    sa_rfds a' = (if wants_read f then sa_rfds a - {fd} else sa_rfds a) \<and>
    sa_wfds a' = (if wants_write f then sa_wfds a - {fd} else sa_wfds a) \<and> sa_pipe a' = sa_pipe a \<and>
    sa_pipe_bytes a' = (if f = CB_RDWR then Suc (sa_pipe_bytes a) else sa_pipe_bytes a) \<and>
    sa_highfds a' = (if fd \<notin> sa_watched a' \<and> fd = sa_highfds a
      then new_high (sa_watched a') (sa_pipe a) [0..<sa_highfds a + 1] else sa_highfds a)"
  using assms by (auto simp: select_unwatch_def real_flag_def wants_read_def wants_write_def Let_def)

lemma select_watch_inv:
  assumes "select_inv a" "real_flag f"
  shows "\<exists>a'. select_watch fd f a = Inr a' \<and> select_inv a' \<and> sa_pipe a' = sa_pipe a \<and>
    sa_rfds a' = (if wants_read f then insert fd (sa_rfds a) else sa_rfds a) \<and>
    sa_wfds a' = (if wants_write f then insert fd (sa_wfds a) else sa_wfds a) \<and>
    sa_highfds a' = max fd (sa_highfds a) \<and> sa_pipe_bytes a' = Suc (sa_pipe_bytes a)"
proof -
  have "\<forall>x \<in> sa_watched a. x \<le> sa_highfds a" using assms(1) by (simp add: select_inv_def)
  moreover from this have "\<forall>x \<in> sa_watched a. x \<le> fd" if "sa_highfds a \<le> fd"
    using that order_trans by blast
  ultimately show ?thesis using assms(2)
    by (cases f) (simp_all add: select_watch_def select_inv_def real_flag_def wants_read_def wants_write_def Let_def max_def)
qed

lemma select_unwatch_inv:
  assumes "select_inv a" "real_flag f"
  shows "\<exists>a'. select_unwatch fd f a = Inr (a', fd \<notin> sa_watched a') \<and> select_inv a' \<and> sa_pipe a' = sa_pipe a \<and>
    sa_pipe_bytes a' = (if f = CB_RDWR then Suc (sa_pipe_bytes a) else sa_pipe_bytes a) \<and>
    sa_rfds a' = (if wants_read f then sa_rfds a - {fd} else sa_rfds a) \<and>
    sa_wfds a' = (if wants_write f then sa_wfds a - {fd} else sa_wfds a)"
proof -
  obtain a' where a': "select_unwatch fd f a = Inr (a', fd \<notin> sa_watched a')"
      "sa_rfds a' = (if wants_read f then sa_rfds a - {fd} else sa_rfds a)"
      "sa_wfds a' = (if wants_write f then sa_wfds a - {fd} else sa_wfds a)"
      "sa_pipe a' = sa_pipe a" "sa_pipe_bytes a' = (if f = CB_RDWR then Suc (sa_pipe_bytes a) else sa_pipe_bytes a)"
      "sa_highfds a' = (if fd \<notin> sa_watched a' \<and> fd = sa_highfds a
        then new_high (sa_watched a') (sa_pipe a) [0..<sa_highfds a + 1] else sa_highfds a)"
    using select_unwatch_eq [OF assms(2)] by blast
  have sub: "sa_watched a' \<subseteq> sa_watched a" using a'(2,3) by auto
  have "x \<le> sa_highfds a'" if "x \<in> sa_watched a'" for x
  proof -
    have "x \<le> sa_highfds a" using that sub assms(1) by (auto simp: select_inv_def)
    then have "x \<in> set [0..<sa_highfds a + 1]" by auto
    from new_high_upper [OF sorted_upt that this] \<open>x \<le> sa_highfds a\<close> show ?thesis unfolding a'(6) by (simp del: upt_Suc)
  qed
  with a'(1-5) show ?thesis by (intro exI [of _ a']) (simp add: select_inv_def)
qed

interpretation sel: aio_mgr select_watch select_unwatch select_inv sa_rfds sa_wfds select_is_watched
proof
  fix a :: select_aio and fd :: nat and f :: poll_flag
  assume a: "select_inv a" "real_flag f"
  show "\<exists>a'. select_watch fd f a = Inr a' \<and> select_inv a' \<and>
      sa_rfds a' = (if wants_read f then insert fd (sa_rfds a) else sa_rfds a) \<and>
      sa_wfds a' = (if wants_write f then insert fd (sa_wfds a) else sa_wfds a)"
    using select_watch_inv [OF a, of fd] by blast
  show "\<exists>a'. select_unwatch fd f a = Inr (a', fd \<notin> sa_rfds a' \<union> sa_wfds a') \<and> select_inv a' \<and>
      sa_rfds a' = (if wants_read f then sa_rfds a - {fd} else sa_rfds a) \<and>
      sa_wfds a' = (if wants_write f then sa_wfds a - {fd} else sa_wfds a)"
    using select_unwatch_inv [OF a, of fd] by blast
  show "select_is_watched fd f a = Inr ((wants_read f \<longrightarrow> fd \<in> sa_rfds a) \<and> (wants_write f \<longrightarrow> fd \<in> sa_wfds a))"
    using a(2) by (auto simp: select_is_watched_def real_flag_def wants_read_def wants_write_def)
qed

section \<open>\<^verbatim>\<open>EPollAIO\<close> fulfils the first part of the contract only\<close>

definition epoll_inv :: "epoll_aio \<Rightarrow> bool" where
  "epoll_inv a \<longleftrightarrow> (\<forall>fd. ea_fdstatus a fd \<in> {0, 0x1, 0x10, 0x11} \<and> (fd \<in> ea_registered a \<longleftrightarrow> ea_fdstatus a fd \<noteq> 0))"

definition ea_rd :: "epoll_aio \<Rightarrow> nat set" where "ea_rd a = {fd. ea_fdstatus a fd AND 0x1 \<noteq> 0}"
definition ea_wr :: "epoll_aio \<Rightarrow> nat set" where "ea_wr a = {fd. ea_fdstatus a fd AND 0x10 \<noteq> 0}"

lemma ea_sets_upd:
  "ea_rd (a\<lparr>ea_fdstatus := (ea_fdstatus a)(fd := st), ea_registered := r\<rparr>) = (if st AND 0x1 \<noteq> 0 then insert fd (ea_rd a) else ea_rd a - {fd})"
  "ea_wr (a\<lparr>ea_fdstatus := (ea_fdstatus a)(fd := st), ea_registered := r\<rparr>) = (if st AND 0x10 \<noteq> 0 then insert fd (ea_wr a) else ea_wr a - {fd})"
  "ea_rd (a\<lparr>ea_fdstatus := (ea_fdstatus a)(fd := st)\<rparr>) = (if st AND 0x1 \<noteq> 0 then insert fd (ea_rd a) else ea_rd a - {fd})"
  "ea_wr (a\<lparr>ea_fdstatus := (ea_fdstatus a)(fd := st)\<rparr>) = (if st AND 0x10 \<noteq> 0 then insert fd (ea_wr a) else ea_wr a - {fd})"
  by (auto simp: ea_rd_def ea_wr_def split: if_splits)

lemma epoll_inv_upd:
  assumes "epoll_inv a" "st \<in> {0, 0x1, 0x10, 0x11}"
  shows "epoll_inv (a\<lparr>ea_fdstatus := (ea_fdstatus a)(fd := st),
    ea_registered := (if st = 0 then ea_registered a - {fd} else insert fd (ea_registered a))\<rparr>)"
  using assms by (auto simp: epoll_inv_def)

interpretation ep: aio_watch epoll_watch epoll_unwatch epoll_inv ea_rd ea_wr
proof
  fix a :: epoll_aio and fd :: nat and f :: poll_flag
  assume a: "epoll_inv a" "fd < MAX_POLL_FDS" "real_flag f"
  have st: "ea_fdstatus a fd \<in> {0, 0x1, 0x10, 0x11}" "fd \<in> ea_registered a \<longleftrightarrow> ea_fdstatus a fd \<noteq> 0"
    using a(1) by (simp_all add: epoll_inv_def)
  let ?w = "ea_fdstatus a fd OR flag_bits f"
  have w: "?w \<in> {0x1, 0x10, 0x11}" "?w AND 0x1 \<noteq> 0 \<longleftrightarrow> wants_read f \<or> fd \<in> ea_rd a"
      "?w AND 0x10 \<noteq> 0 \<longleftrightarrow> wants_write f \<or> fd \<in> ea_wr a" "f = CB_RDWR \<longrightarrow> ?w AND 0x1 \<noteq> 0 \<and> ?w AND 0x10 \<noteq> 0"
    using st(1) a(3) by (auto simp: real_flag_def wants_read_def wants_write_def ea_rd_def ea_wr_def)
  have "epoll_watch fd f a = Inr (a\<lparr>ea_fdstatus := (ea_fdstatus a)(fd := ?w), ea_registered := insert fd (ea_registered a)\<rparr>)"
    using a(2) w(4) st(2) by (auto simp: epoll_watch_def Let_def)
  moreover have "epoll_inv (a\<lparr>ea_fdstatus := (ea_fdstatus a)(fd := ?w), ea_registered := insert fd (ea_registered a)\<rparr>)"
    using epoll_inv_upd [OF a(1), of ?w fd] w(1) by auto
  ultimately show "\<exists>a'. epoll_watch fd f a = Inr a' \<and> epoll_inv a' \<and>
      ea_rd a' = (if wants_read f then insert fd (ea_rd a) else ea_rd a) \<and>
      ea_wr a' = (if wants_write f then insert fd (ea_wr a) else ea_wr a)"
    using w(2,3) by (auto simp: ea_sets_upd)
  assume mem: "fd \<in> ea_rd a \<union> ea_wr a"
  let ?u = "ea_fdstatus a fd AND NOT (flag_bits f)"
  have u: "?u \<in> {0, 0x1, 0x10}" "?u AND 0x1 \<noteq> 0 \<longleftrightarrow> \<not> wants_read f \<and> fd \<in> ea_rd a"
      "?u AND 0x10 \<noteq> 0 \<longleftrightarrow> \<not> wants_write f \<and> fd \<in> ea_wr a" "f = CB_RDWR \<longrightarrow> ?u = 0"
      "?u = 0 \<longleftrightarrow> \<not> (\<not> wants_read f \<and> fd \<in> ea_rd a) \<and> \<not> (\<not> wants_write f \<and> fd \<in> ea_wr a)"
    using st(1) a(3) by (auto simp: real_flag_def wants_read_def wants_write_def ea_rd_def ea_wr_def)
  have reg: "fd \<in> ea_registered a" using mem st(2) by (auto simp: ea_rd_def ea_wr_def)
  let ?a = "a\<lparr>ea_fdstatus := (ea_fdstatus a)(fd := ?u),
    ea_registered := (if ?u = 0 then ea_registered a - {fd} else insert fd (ea_registered a))\<rparr>"
  have "epoll_unwatch fd f a = Inr (?a, ?u = 0)"
    using a(2) u(4) reg by (auto simp: epoll_unwatch_def Let_def insert_absorb)
  moreover have "epoll_inv ?a" using epoll_inv_upd [OF a(1), of ?u fd] u(1) by auto
  moreover have "fd \<notin> ea_rd ?a \<union> ea_wr ?a \<longleftrightarrow> ?u = 0" using u by (simp add: ea_sets_upd)
  moreover have "ea_rd ?a = (if wants_read f then ea_rd a - {fd} else ea_rd a)"
    "ea_wr ?a = (if wants_write f then ea_wr a - {fd} else ea_wr a)"
    using u(2,3) by (auto simp: ea_sets_upd)
  ultimately show "\<exists>a'. epoll_unwatch fd f a = Inr (a', fd \<notin> ea_rd a' \<union> ea_wr a') \<and> epoll_inv a' \<and>
      ea_rd a' = (if wants_read f then ea_rd a - {fd} else ea_rd a) \<and>
      ea_wr a' = (if wants_write f then ea_wr a - {fd} else ea_wr a)"
    by (intro exI [of _ ?a]) simp
qed

section \<open>The poll manager keeps its promise\<close>

subsection \<open>The invariant\<close>

fun phase_clear :: "nat \<Rightarrow> loop_phase \<Rightarrow> bool" where
  "phase_clear fd (In_Select r w high) \<longleftrightarrow> fd \<notin> r \<union> w"
| "phase_clear fd (Dispatching todo) \<longleftrightarrow> fd \<notin> fst ` set todo"
| "phase_clear fd (Tested f b todo) \<longleftrightarrow> fd \<noteq> f \<and> fd \<notin> fst ` set todo"
| "phase_clear fd (In_Callback f todo) \<longleftrightarrow> fd \<noteq> f \<and> fd \<notin> fst ` set todo"
| "phase_clear fd _ \<longleftrightarrow> True"

fun phase_ok :: "pollmgr \<Rightarrow> loop_phase \<Rightarrow> bool" where
  "phase_ok pm (In_Select r w high) \<longleftrightarrow> sa_pipe (pm_aio pm) \<in> r \<and> (\<forall>x \<in> r \<union> w. x \<le> high) \<and>
     (pm_waiting pm \<noteq> {} \<longrightarrow> 0 < sa_pipe_bytes (pm_aio pm))"
| "phase_ok pm Before_Wait \<longleftrightarrow> (pm_waiting pm \<noteq> {} \<longrightarrow> 0 < sa_pipe_bytes (pm_aio pm))"
| "phase_ok pm (Tested fd b todo) \<longleftrightarrow> pm_callbacks pm fd \<noteq> None"
| "phase_ok pm _ \<longleftrightarrow> True"

definition pm_inv :: "pollmgr \<Rightarrow> bool" where
  "pm_inv pm \<longleftrightarrow> select_inv (pm_aio pm) \<and> sa_pipe (pm_aio pm) \<in> sa_rfds (pm_aio pm) \<and>
     (\<forall>fd \<in> being_removed pm. fd \<notin> sa_watched (pm_aio pm)) \<and> (\<forall>fd \<in> pm_woken pm. phase_clear fd (pm_loop pm)) \<and>
     (pm_waiting pm \<noteq> {} \<longrightarrow> pm_pending pm) \<and> phase_ok pm (pm_loop pm)"

text \<open>A descriptor that is out of reach: not watched, and not in the work of the loop.\<close>

definition quiet :: "nat \<Rightarrow> pollmgr \<Rightarrow> bool" where
  "quiet fd pm \<longleftrightarrow> fd \<notin> sa_watched (pm_aio pm) \<and> phase_clear fd (pm_loop pm)"

lemma collect_ready_sets:
  "set (fst (collect_ready pipe tr tw fds)) \<subseteq> tr" "set (snd (collect_ready pipe tr tw fds)) \<subseteq> tw"
  by (induction fds) (auto simp: Let_def split: prod.splits)

lemma pollmgr_new_inv: "pm_inv (pollmgr_new pipe)"
  by (simp add: pm_inv_def pollmgr_new_def select_new_def select_inv_def being_removed_def)

lemma phase_ok_cong:
  assumes "sa_pipe (pm_aio pm') = sa_pipe (pm_aio pm)" "pm_waiting pm' = pm_waiting pm"
    "sa_pipe_bytes (pm_aio pm) \<le> sa_pipe_bytes (pm_aio pm')"
    "\<And>fd b todo. ph = Tested fd b todo \<Longrightarrow> pm_callbacks pm fd \<noteq> None \<Longrightarrow> pm_callbacks pm' fd \<noteq> None"
    "phase_ok pm ph"
  shows "phase_ok pm' ph"
  using assms by (cases ph) auto

lemma add_callback_step:
  assumes "pm_inv pm" "disciplined (Add fd flag ch) pm"
  shows "\<exists>pm'. add_callback fd flag ch pm = Inr pm' \<and> pm_inv pm' \<and> (\<forall>x. quiet x pm \<and> x \<noteq> fd \<longrightarrow> quiet x pm')"
proof -
  have inv: "select_inv (pm_aio pm)" and fl: "real_flag flag" using assms by (simp_all add: pm_inv_def)
  obtain a' where a': "select_watch fd flag (pm_aio pm) = Inr a'" "select_inv a'" "sa_pipe a' = sa_pipe (pm_aio pm)"
      "sa_rfds a' = (if wants_read flag then insert fd (sa_rfds (pm_aio pm)) else sa_rfds (pm_aio pm))"
      "sa_wfds a' = (if wants_write flag then insert fd (sa_wfds (pm_aio pm)) else sa_wfds (pm_aio pm))"
      "sa_pipe_bytes a' = Suc (sa_pipe_bytes (pm_aio pm))"
    using select_watch_inv [OF inv fl, of fd] by blast
  let ?pm = "pm\<lparr>pm_aio := a', pm_callbacks := (pm_callbacks pm)(fd := Some ch)\<rparr>"
  have w: "sa_watched a' \<subseteq> insert fd (sa_watched (pm_aio pm))" using a'(4,5) by auto
  have "add_callback fd flag ch pm = Inr ?pm" using assms(2) a'(1) by (auto simp: add_callback_def)
  moreover have "phase_ok ?pm (pm_loop ?pm)"
    using assms(1) a'(3,6) by (intro phase_ok_cong [of ?pm pm]) (simp_all add: pm_inv_def)
  then have "pm_inv ?pm"
    using assms a'(2-4) w by (auto simp: pm_inv_def being_removed_def)
  moreover have "\<forall>x. quiet x pm \<and> x \<noteq> fd \<longrightarrow> quiet x ?pm" using w by (auto simp: quiet_def)
  ultimately show ?thesis by blast
qed

lemma remove_start_step:
  assumes "pm_inv pm" "disciplined (Remove_Start fd) pm"
  shows "\<exists>pm'. block_remove_start fd pm = Inr pm' \<and> pm_inv pm' \<and> (\<forall>x. quiet x pm \<longrightarrow> quiet x pm')"
proof -
  have inv: "select_inv (pm_aio pm)" and fl: "real_flag CB_RDWR" using assms by (simp_all add: pm_inv_def real_flag_def)
  obtain a' where a': "select_unwatch fd CB_RDWR (pm_aio pm) = Inr (a', fd \<notin> sa_watched a')" "select_inv a'"
      "sa_pipe a' = sa_pipe (pm_aio pm)" "sa_pipe_bytes a' = Suc (sa_pipe_bytes (pm_aio pm))"
      "sa_rfds a' = sa_rfds (pm_aio pm) - {fd}" "sa_wfds a' = sa_wfds (pm_aio pm) - {fd}"
    using select_unwatch_inv [OF inv fl, of fd] by (auto simp: wants_read_def wants_write_def)
  let ?pm = "pm\<lparr>pm_aio := a', pm_pending := True, pm_waiting := insert fd (pm_waiting pm)\<rparr>"
  have "block_remove_start fd pm = Inr ?pm" using a'(1) by (simp add: block_remove_start_def)
  moreover have "phase_ok ?pm (pm_loop pm)"
    using assms(1) a'(3,4) by (cases "pm_loop pm") (auto simp: pm_inv_def)
  then have "pm_inv ?pm"
    using assms a'(2,3,5,6) by (auto simp: pm_inv_def being_removed_def)
  moreover have "\<forall>x. quiet x pm \<longrightarrow> quiet x ?pm" using a'(5,6) by (auto simp: quiet_def)
  ultimately show ?thesis by blast
qed

lemma del_callback_step:
  assumes "pm_inv pm" "disciplined (Del fd flag) pm"
  shows "\<exists>pm'. del_callback fd flag pm = Inr pm' \<and> pm_inv pm' \<and> (\<forall>x. quiet x pm \<longrightarrow> quiet x pm')"
proof -
  have inv: "select_inv (pm_aio pm)" and fl: "real_flag flag" using assms by (simp_all add: pm_inv_def)
  obtain a' where a': "select_unwatch fd flag (pm_aio pm) = Inr (a', fd \<notin> sa_watched a')" "select_inv a'"
      "sa_pipe a' = sa_pipe (pm_aio pm)"
      "sa_rfds a' = (if wants_read flag then sa_rfds (pm_aio pm) - {fd} else sa_rfds (pm_aio pm))"
      "sa_wfds a' = (if wants_write flag then sa_wfds (pm_aio pm) - {fd} else sa_wfds (pm_aio pm))"
    using select_unwatch_inv [OF inv fl, of fd] by blast
  obtain f todo where ph: "pm_loop pm = In_Callback f todo"
    using assms(2) by (auto split: loop_phase.splits)
  let ?pm = "pm\<lparr>pm_aio := a', pm_callbacks := (if fd \<notin> sa_watched a' then (pm_callbacks pm)(fd := None) else pm_callbacks pm)\<rparr>"
  have w: "sa_watched a' \<subseteq> sa_watched (pm_aio pm)" using a'(4,5) by auto
  have "del_callback fd flag pm = Inr ?pm" using a'(1) by (simp add: del_callback_def)
  moreover have "pm_inv ?pm"
    using assms a'(2-4) w ph by (auto simp: pm_inv_def being_removed_def)
  moreover have "\<forall>x. quiet x pm \<longrightarrow> quiet x ?pm" using w by (auto simp: quiet_def)
  ultimately show ?thesis by blast
qed

lemma dispatch_step:
  assumes "pm_inv pm" "pm_loop pm = In_Select r w high" "fst ` set todo \<subseteq> r \<union> w"
  shows "pm_inv (pm\<lparr>pm_aio := (pm_aio pm)\<lparr>sa_pipe_bytes := b\<rparr>, pm_loop := Dispatching todo\<rparr>)"
    "\<forall>x. quiet x pm \<longrightarrow> quiet x (pm\<lparr>pm_aio := (pm_aio pm)\<lparr>sa_pipe_bytes := b\<rparr>, pm_loop := Dispatching todo\<rparr>)"
proof -
  have "x \<notin> fst ` set todo" if "x \<notin> r \<union> w" for x using that assms(3) by blast
  with assms(1,2) show "pm_inv (pm\<lparr>pm_aio := (pm_aio pm)\<lparr>sa_pipe_bytes := b\<rparr>, pm_loop := Dispatching todo\<rparr>)"
    by (simp add: pm_inv_def being_removed_def select_inv_def)
  show "\<forall>x. quiet x pm \<longrightarrow> quiet x (pm\<lparr>pm_aio := (pm_aio pm)\<lparr>sa_pipe_bytes := b\<rparr>, pm_loop := Dispatching todo\<rparr>)"
    using assms(2,3) by (auto simp: quiet_def)
qed

lemma loop_ready_step:
  assumes "pm_inv pm" "disciplined (Loop_Ready ret) pm" "pm_loop pm = In_Select r w high"
  shows "\<exists>b todo. loop_ready ret high pm = Inr (pm\<lparr>pm_aio := (pm_aio pm)\<lparr>sa_pipe_bytes := b\<rparr>, pm_loop := Dispatching todo\<rparr>) \<and>
    fst ` set todo \<subseteq> r \<union> w"
proof (cases ret)
  case (Sel_Ready tr tw)
  obtain rs ws where c: "collect_ready (sa_pipe (pm_aio pm)) tr tw [0..<high + 1] = (rs, ws)" by fastforce
  have sub: "tr \<subseteq> r" "tw \<subseteq> w" "sa_pipe (pm_aio pm) \<in> tr \<longrightarrow> 0 < sa_pipe_bytes (pm_aio pm)"
    using assms(2,3) Sel_Ready by simp_all
  let ?todo = "map (\<lambda>fd. (fd, True)) rs @ map (\<lambda>fd. (fd, False)) ws"
  let ?b = "if sa_pipe (pm_aio pm) \<in> tr \<and> sa_pipe (pm_aio pm) \<le> high then sa_pipe_bytes (pm_aio pm) - 1
    else sa_pipe_bytes (pm_aio pm)"
  have "set rs \<subseteq> tr" "set ws \<subseteq> tw"
    using collect_ready_sets [of "sa_pipe (pm_aio pm)" tr tw "[0..<high + 1]"] c by simp_all
  then have "fst ` set ?todo \<subseteq> r \<union> w" using sub(1,2) by auto
  moreover have "loop_ready ret high pm = Inr (pm\<lparr>pm_aio := (pm_aio pm)\<lparr>sa_pipe_bytes := ?b\<rparr>, pm_loop := Dispatching ?todo\<rparr>)"
    using sub(3) c by (simp add: loop_ready_def select_wait_ready_def Sel_Ready del: upt_Suc)
  ultimately show ?thesis by (intro exI conjI)
next
  case Sel_EINTR
  have "loop_ready ret high pm = Inr (pm\<lparr>pm_aio := (pm_aio pm)\<lparr>sa_pipe_bytes := sa_pipe_bytes (pm_aio pm)\<rparr>, pm_loop := Dispatching []\<rparr>)"
    by (simp add: loop_ready_def select_wait_ready_def Sel_EINTR)
  moreover have "fst ` set ([] :: (nat \<times> bool) list) \<subseteq> r \<union> w" by simp
  ultimately show ?thesis by (intro exI conjI)
qed (use assms in simp)

text \<open>One disciplined event: it does not fault, keeps the invariant, and disturbs no quiet descriptor but the one added.\<close>

definition step_ok :: "pm_event \<Rightarrow> pollmgr \<Rightarrow> fault + pollmgr \<Rightarrow> bool" where
  "step_ok ev pm r \<longleftrightarrow> (case r of Inl _ \<Rightarrow> False
     | Inr pm' \<Rightarrow> pm_inv pm' \<and> (\<forall>x. quiet x pm \<and> (\<forall>f c. ev \<noteq> Add x f c) \<longrightarrow> quiet x pm'))"

lemma step_okI: "\<exists>pm'. r = Inr pm' \<and> pm_inv pm' \<and> (\<forall>x. quiet x pm \<longrightarrow> quiet x pm') \<Longrightarrow> step_ok ev pm r"
  unfolding step_ok_def by (elim exE) simp

lemma remove_finish_step:
  assumes "pm_inv pm" "fd \<in> pm_woken pm"
  shows "step_ok ev pm (Inr (block_remove_finish fd pm))" "quiet fd (block_remove_finish fd pm)"
proof -
  have c: "phase_clear fd (pm_loop pm)" "fd \<notin> sa_watched (pm_aio pm)"
    using assms by (simp_all add: pm_inv_def being_removed_def)
  then show "quiet fd (block_remove_finish fd pm)" by (simp add: quiet_def block_remove_finish_def)
  have "phase_ok (block_remove_finish fd pm) (pm_loop pm)"
    using assms(1) c by (intro phase_ok_cong [of "block_remove_finish fd pm" pm]) (auto simp: pm_inv_def block_remove_finish_def)
  then have "pm_inv (block_remove_finish fd pm)"
    using assms(1) by (auto simp: pm_inv_def block_remove_finish_def being_removed_def)
  then show "step_ok ev pm (Inr (block_remove_finish fd pm))"
    by (simp add: step_ok_def quiet_def block_remove_finish_def)
qed

lemma phase_step:
  assumes "pm_inv pm" "phase_ok pm ph" "\<And>x. phase_clear x (pm_loop pm) \<Longrightarrow> phase_clear x ph"
  shows "step_ok ev pm (Inr (pm\<lparr>pm_loop := ph\<rparr>))"
proof -
  have "phase_ok (pm\<lparr>pm_loop := ph\<rparr>) ph" by (rule phase_ok_cong [OF _ _ _ _ assms(2)]) simp_all
  with assms(1,3) show ?thesis by (simp add: step_ok_def pm_inv_def being_removed_def quiet_def)
qed

lemma pm_step_ok:
  assumes "pm_inv pm" "disciplined ev pm" "pm_step ev pm = Some r"
  shows "step_ok ev pm r"
proof (cases ev)
  case (Add fd f c)
  with assms have r: "r = add_callback fd f c pm" and d: "disciplined (Add fd f c) pm" by simp_all
  obtain pm' where "add_callback fd f c pm = Inr pm'" "pm_inv pm'" "\<forall>x. quiet x pm \<and> x \<noteq> fd \<longrightarrow> quiet x pm'"
    using add_callback_step [OF assms(1) d] by (elim exE conjE)
  with r Add show ?thesis by (simp add: step_ok_def)
next
  case (Remove_Start fd)
  with assms have r: "r = block_remove_start fd pm" and d: "disciplined (Remove_Start fd) pm" by simp_all
  show ?thesis unfolding r by (rule step_okI [OF remove_start_step [OF assms(1) d]])
next
  case (Remove_Finish fd)
  with assms(3) have r: "r = Inr (block_remove_finish fd pm)" and w: "fd \<in> pm_woken pm" by (simp_all split: if_splits)
  show ?thesis unfolding r by (rule remove_finish_step(1) [OF assms(1) w])
next
  case (Del fd f)
  with assms have r: "r = del_callback fd f pm" and d: "disciplined (Del fd f) pm" by simp_all
  show ?thesis unfolding r by (rule step_okI [OF del_callback_step [OF assms(1) d]])
next
  case Loop_Top
  with assms(3) have r: "r = Inr (loop_top pm)" by (simp split: if_splits)
  have "pm_inv (loop_top pm)" using assms(1) by (auto simp: pm_inv_def loop_top_def being_removed_def)
  with r show ?thesis by (simp add: step_ok_def quiet_def loop_top_def)
next
  case Loop_Snapshot
  let ?ph = "In_Select (sa_rfds (pm_aio pm)) (sa_wfds (pm_aio pm)) (sa_highfds (pm_aio pm))"
  have r: "r = Inr (pm\<lparr>pm_loop := ?ph\<rparr>)" and b: "pm_loop pm = Before_Wait"
    using assms(3) Loop_Snapshot by (simp_all split: if_splits)
  have "pm_inv (pm\<lparr>pm_loop := ?ph\<rparr>)" using assms(1) b by (simp add: pm_inv_def being_removed_def select_inv_def)
  with r show ?thesis by (simp add: step_ok_def quiet_def)
next
  case (Loop_Ready ret)
  with assms(3) obtain r' w high where ph: "pm_loop pm = In_Select r' w high" "r = loop_ready ret high pm"
    by (auto split: loop_phase.splits)
  have d: "disciplined (Loop_Ready ret) pm" using assms(2) Loop_Ready by (rule subst [rotated])
  obtain b todo where l: "loop_ready ret high pm = Inr (pm\<lparr>pm_aio := (pm_aio pm)\<lparr>sa_pipe_bytes := b\<rparr>, pm_loop := Dispatching todo\<rparr>)"
      "fst ` set todo \<subseteq> r' \<union> w" using loop_ready_step [OF assms(1) d ph(1)] by (elim exE conjE)
  show ?thesis unfolding ph(2) l(1)
    by (rule step_okI, rule exI, intro conjI, rule refl, rule dispatch_step [OF assms(1) ph(1) l(2)], rule dispatch_step [OF assms(1) ph(1) l(2)])
next
  case Loop_Test
  with assms(3) obtain fd b todo where ph: "pm_loop pm = Dispatching ((fd, b) # todo)"
      "r = Inr (pm\<lparr>pm_loop := (if pm_callbacks pm fd = None then Dispatching todo else Tested fd b todo)\<rparr>)"
    by (auto split: loop_phase.splits list.splits)
  show ?thesis unfolding ph(2) by (rule phase_step [OF assms(1)]) (simp_all add: ph(1))
next
  case (Loop_Call fd b ch)
  with assms(3) obtain todo where ph: "pm_loop pm = Tested fd b todo" by (auto split: loop_phase.splits if_splits)
  moreover have "pm_callbacks pm fd \<noteq> None" using assms(1) ph by (simp add: pm_inv_def)
  ultimately have r: "r = Inr (pm\<lparr>pm_loop := In_Callback fd todo\<rparr>)"
    using assms(3) Loop_Call by (auto split: if_splits)
  show ?thesis unfolding r by (rule phase_step [OF assms(1)]) (simp_all add: ph)
next
  case Loop_Return
  with assms(3) obtain fd todo where ph: "pm_loop pm = In_Callback fd todo" "r = Inr (pm\<lparr>pm_loop := Dispatching todo\<rparr>)"
    by (auto split: loop_phase.splits)
  show ?thesis unfolding ph(2) by (rule phase_step [OF assms(1)]) (simp_all add: ph(1))
next
  case Loop_Again
  with assms(3) have r: "r = Inr (pm\<lparr>pm_loop := At_Top\<rparr>)" by (simp split: if_splits)
  show ?thesis unfolding r by (rule phase_step [OF assms(1)]) simp_all
qed (use assms in simp)

lemma pm_run_inv: "pm_run pm es pm' \<Longrightarrow> pm_inv pm \<Longrightarrow> pm_inv pm'"
proof (induction rule: pm_run.induct)
  case (pm_snoc pm es pm1 ev pm2)
  from pm_step_ok [OF _ pm_snoc.hyps(2,3)] pm_snoc.IH pm_snoc.prems show ?case by (simp add: step_ok_def)
qed

lemma quiet_no_call: "quiet fd pm \<Longrightarrow> pm_step (Loop_Call fd b ch) pm = None"
  by (auto simp: quiet_def split: loop_phase.split)

lemma pm_run_quiet:
  assumes "pm_run pm es pm'" "pm_inv pm" "quiet fd pm" "\<And>f c. Add fd f c \<notin> set es"
  shows "quiet fd pm' \<and> (\<forall>b ch. Loop_Call fd b ch \<notin> set es)"
  using assms
proof (induction rule: pm_run.induct)
  case (pm_snoc pm es pm1 ev pm2)
  have q: "quiet fd pm1" "\<forall>b ch. Loop_Call fd b ch \<notin> set es" using pm_snoc.IH pm_snoc.prems by auto
  have inv: "pm_inv pm1" by (rule pm_run_inv [OF pm_snoc.hyps(1) pm_snoc.prems(1)])
  have "\<forall>f c. ev \<noteq> Add fd f c" using pm_snoc.prems(3) by auto
  with pm_step_ok [OF inv pm_snoc.hyps(2,3)] q(1) have "quiet fd pm2" by (simp add: step_ok_def)
  moreover have "\<forall>b ch. ev \<noteq> Loop_Call fd b ch" using quiet_no_call [OF q(1)] pm_snoc.hyps(3) by auto
  ultimately show ?case using q(2) by auto
qed simp

subsection \<open>What the poll manager promises\<close>

text \<open>
  C10. The comment over \<^verbatim>\<open>block_remove_fd\<close>: once a disciplined run, in which no wake-up is spurious, has come to its return, no callback of the
  descriptor is being executed, and none is ever called until somebody registers the descriptor again.
\<close>

theorem block_remove_fd_guarantee:
  assumes "pm_run (pollmgr_new pipe) (es @ [Remove_Finish fd]) pm" "pm_run pm es' pm'" "\<And>f c. Add fd f c \<notin> set es'"
  shows "(\<forall>todo. pm_loop pm \<noteq> In_Callback fd todo) \<and> (\<forall>b ch. Loop_Call fd b ch \<notin> set es')"
proof -
  obtain pm1 where pm1: "pm_run (pollmgr_new pipe) es pm1" "pm_step (Remove_Finish fd) pm1 = Some (Inr pm)"
    using assms(1) by (cases rule: pm_run.cases) auto
  have inv1: "pm_inv pm1" by (rule pm_run_inv [OF pm1(1) pollmgr_new_inv])
  have inv: "pm_inv pm" by (rule pm_run_inv [OF assms(1) pollmgr_new_inv])
  have "fd \<in> pm_woken pm1" "pm = block_remove_finish fd pm1" using pm1(2) by (simp_all split: if_splits)
  with remove_finish_step(2) [OF inv1] have q: "quiet fd pm" by simp
  then have "\<forall>todo. pm_loop pm \<noteq> In_Callback fd todo" by (auto simp: quiet_def)
  with pm_run_quiet [OF assms(2) inv q assms(3)] show ?thesis by simp
qed

text \<open>A run used by the witnesses: register, let the loop call the callback, remove the descriptor meanwhile.\<close>

fun pm_exec :: "pm_event list \<Rightarrow> pollmgr \<Rightarrow> pollmgr option" where
  "pm_exec [] pm = Some pm"
| "pm_exec (ev # es) pm =
     (if disciplined ev pm then (case pm_step ev pm of Some (Inr pm') \<Rightarrow> pm_exec es pm' | _ \<Rightarrow> None) else None)"

lemma pm_run_cons: "pm_run pm1 es pm2 \<Longrightarrow> disciplined ev pm \<Longrightarrow> pm_step ev pm = Some (Inr pm1) \<Longrightarrow> pm_run pm (ev # es) pm2"
proof (induction rule: pm_run.induct)
  case (pm_nil pm1)
  from pm_snoc [OF pm_run.pm_nil pm_nil] show ?case by simp
next
  case (pm_snoc pm1 es pm3 ev' pm2)
  from pm_run.pm_snoc [OF pm_snoc.IH [OF pm_snoc.prems] pm_snoc.hyps(2,3)] show ?case by simp
qed

lemma pm_exec_run: "pm_exec es pm = Some pm' \<Longrightarrow> pm_run pm es pm'"
  by (induction es pm rule: pm_exec.induct)
    (auto simp: pm_run.pm_nil intro: pm_run_cons split: if_splits option.splits sum.splits)

definition demo_add :: "pm_event list" where
  "demo_add = [Add 5 CB_RDONLY 7, Loop_Top, Loop_Snapshot, Loop_Ready (Sel_Ready {5} {}), Loop_Test, Remove_Start 5,
     Loop_Call 5 True 7, Loop_Return, Loop_Again, Loop_Top]"

definition demo_rest :: "pm_event list" where
  "demo_rest = [Loop_Snapshot, Loop_Ready (Sel_Ready {3} {}), Loop_Again]"

theorem block_remove_fd_guarantee_witness:
  "\<exists>pm pm'. pm_exec (demo_add @ [Remove_Finish 5]) (pollmgr_new 3) = Some pm \<and> pm_exec demo_rest pm = Some pm' \<and>
     (\<forall>todo. pm_loop pm \<noteq> In_Callback 5 todo) \<and> (\<forall>b ch. Loop_Call 5 b ch \<notin> set demo_rest)"
proof -
  have "case pm_exec (demo_add @ [Remove_Finish 5]) (pollmgr_new 3) of None \<Rightarrow> False
      | Some pm \<Rightarrow> (case pm_exec demo_rest pm of None \<Rightarrow> False | Some _ \<Rightarrow> True)"
    by code_simp
  then obtain pm pm' where e: "pm_exec (demo_add @ [Remove_Finish 5]) (pollmgr_new 3) = Some pm" "pm_exec demo_rest pm = Some pm'"
    by (auto split: option.splits)
  have "\<And>f c. Add 5 f c \<notin> set demo_rest" by (simp add: demo_rest_def)
  from block_remove_fd_guarantee [OF pm_exec_run [OF e(1)] pm_exec_run [OF e(2)] this] e show ?thesis by blast
qed

text \<open>
  C25. No wake-up is lost: when a \<^verbatim>\<open>block_remove_fd\<close> waits while the loop is in \<^verbatim>\<open>select\<close>, the pipe is among the
  descriptors \<^verbatim>\<open>select\<close> looks at and holds a byte, and one round of the loop wakes every waiting call.
\<close>

theorem block_remove_fd_wakes:
  assumes "pm_run (pollmgr_new pipe) es pm" "pm_waiting pm \<noteq> {}" "pm_loop pm = In_Select r w high"
  shows "sa_pipe (pm_aio pm) \<in> r \<and> sa_pipe (pm_aio pm) \<le> high \<and> 0 < sa_pipe_bytes (pm_aio pm) \<and>
    (\<exists>pm'. pm_exec [Loop_Ready (Sel_Ready {sa_pipe (pm_aio pm)} {}), Loop_Again, Loop_Top] pm = Some pm' \<and>
       pm_waiting pm' = {} \<and> pm_woken pm' = pm_woken pm \<union> pm_waiting pm)"
proof -
  have inv: "pm_inv pm" by (rule pm_run_inv [OF assms(1) pollmgr_new_inv])
  have p: "sa_pipe (pm_aio pm) \<in> r" "sa_pipe (pm_aio pm) \<le> high" "0 < sa_pipe_bytes (pm_aio pm)" "pm_pending pm"
    using inv assms(2,3) by (auto simp: pm_inv_def)
  have c: "collect_ready (sa_pipe (pm_aio pm)) {sa_pipe (pm_aio pm)} {} fds = ([], [])" for fds
    by (induction fds) (auto simp: Let_def)
  show ?thesis using p assms(3) by (simp add: loop_ready_def select_wait_ready_def c loop_top_def del: upt_Suc)
qed

definition demo_blocked :: "pm_event list" where
  "demo_blocked = [Add 5 CB_RDONLY 7, Loop_Top, Loop_Snapshot, Remove_Start 5]"

theorem block_remove_fd_wakes_witness:
  "\<exists>pm r w high. pm_exec demo_blocked (pollmgr_new 3) = Some pm \<and> pm_loop pm = In_Select r w high \<and>
     pm_waiting pm = {5} \<and> 0 < sa_pipe_bytes (pm_aio pm)"
proof -
  have "case pm_exec demo_blocked (pollmgr_new 3) of None \<Rightarrow> False
      | Some pm \<Rightarrow> pm_waiting pm = {5} \<and> (case pm_loop pm of In_Select r w high \<Rightarrow> True | _ \<Rightarrow> False)"
    by code_simp
  then obtain pm r w high where e: "pm_exec demo_blocked (pollmgr_new 3) = Some pm" "pm_waiting pm = {5}"
      "pm_loop pm = In_Select r w high"
    by (auto split: option.splits loop_phase.splits)
  from block_remove_fd_wakes [OF pm_exec_run [OF e(1)] _ e(3)] e show ?thesis by auto
qed



text \<open>The events without the discipline.\<close>

fun pm_raw :: "pm_event list \<Rightarrow> pollmgr \<Rightarrow> (fault + pollmgr) option" where
  "pm_raw [] pm = Some (Inr pm)"
| "pm_raw (ev # es) pm = (case pm_step ev pm of Some (Inr pm') \<Rightarrow> pm_raw es pm' | r \<Rightarrow> r)"

text \<open>
  \<^verbatim>\<open>block_remove_fd\<close> waits without testing a condition in a loop. A spurious return of \<^verbatim>\<open>pthread_cond_wait\<close>, which
  POSIX allows, lets it return while the loop is between its test of \<^verbatim>\<open>callbacks_[fd]\<close> and its call, which then goes
  through a null pointer; when the loop has already made the call, the callback runs after the return.
\<close>

lemma block_remove_fd_spurious:
  "(case pm_raw [Add 5 CB_RDONLY 7, Loop_Top, Loop_Snapshot, Loop_Ready (Sel_Ready {5} {}), Loop_Test, Remove_Start 5, Spurious 5,
      Remove_Finish 5, Loop_Call 5 True 7] (pollmgr_new 3) of Some (Inl f) \<Rightarrow> f = Null_Access | _ \<Rightarrow> False) \<and>
   (case pm_raw [Add 5 CB_RDONLY 7, Loop_Top, Loop_Snapshot, Loop_Ready (Sel_Ready {5} {}), Loop_Test, Loop_Call 5 True 7,
      Remove_Start 5, Spurious 5, Remove_Finish 5] (pollmgr_new 3) of
     Some (Inr pm) \<Rightarrow> pm_loop pm = In_Callback 5 [] | _ \<Rightarrow> False)"
  by code_simp

text \<open>
  \<^verbatim>\<open>EPollAIO::is_watched\<close> masks with \<^verbatim>\<open>CB_MASK = ~0x11\<close>, which removes exactly the two bits it should compare:
  right after \<^verbatim>\<open>watch_fd\<close> it denies that the descriptor is watched, where \<^verbatim>\<open>SelectAIO\<close> confirms it.
\<close>

lemma epoll_is_watched_after_watch:
  assumes "real_flag f" "fd < MAX_POLL_FDS" "epoll_inv a" "select_inv b"
  shows "(\<exists>a'. epoll_watch fd f a = Inr a' \<and> epoll_is_watched fd f a' = Inr False) \<and>
    (\<exists>b'. select_watch fd f b = Inr b' \<and> select_is_watched fd f b' = Inr True)"
proof -
  have "(x AND NOT 0x11) AND 0x11 = (0 :: u32)" for x by (simp add: ac_simps)
  moreover have "flag_bits f AND 0x11 \<noteq> 0" using assms(1) by (auto simp: real_flag_def)
  ultimately have "(x AND NOT 0x11) \<noteq> flag_bits f" for x by metis
  then have "epoll_is_watched fd f a' = Inr False" for a' using assms(2) by (simp add: epoll_is_watched_def)
  moreover obtain a' where "epoll_watch fd f a = Inr a'" using ep.watch_law [OF assms(3,2,1)] by blast
  ultimately show ?thesis using sel.watched_after_watch [OF assms(4,2,1)] by blast
qed

lemma epoll_is_watched_after_watch_example:
  "(\<exists>a'. epoll_watch 5 CB_RDWR epoll_new = Inr a' \<and> epoll_is_watched 5 CB_RDWR a' = Inr False) \<and>
   (\<exists>b'. select_watch 5 CB_RDWR (select_new 3) = Inr b' \<and> select_is_watched 5 CB_RDWR b' = Inr True)"
  by (rule epoll_is_watched_after_watch)
    (simp_all add: real_flag_def MAX_POLL_FDS_def epoll_inv_def epoll_new_def select_inv_def select_new_def)

end
