(* ===== verification/Connection.thy ===== *)
theory Connection
  imports Wire_Codec Rpc_Time Pollmgr
begin

text \<open>
  The TCP connection object of \<^verbatim>\<open>src/rpc/connection.cc\<close>: reference counting, the framing of PDUs on the
  byte stream (\<^verbatim>\<open>writepdu\<close>, \<^verbatim>\<open>readpdu\<close>), sending (\<^verbatim>\<open>send\<close>, \<^verbatim>\<open>write_cb\<close>) and receiving (\<^verbatim>\<open>read_cb\<close>).

  The results of \<^verbatim>\<open>read\<close>, \<^verbatim>\<open>write\<close> and \<^verbatim>\<open>random\<close> are arguments; the calls a method makes to the poll
  manager and to \<^verbatim>\<open>shutdown\<close> are the list of actions it returns. A method that blocks on a condition
  variable is split where it blocks: \<^verbatim>\<open>send\<close> into \<open>conn_send_enter\<close>, \<open>conn_send_start\<close> and \<open>conn_send_finish\<close>.
\<close>

section \<open>Definitions\<close>

datatype poll_action = Add_Callback int poll_flag | Del_Callback int poll_flag | Block_Remove int | Shut_Down int

record charbuf =
  cb_buf :: "cells option"
  cb_sz :: int
  cb_solong :: int

definition charbuf_new :: charbuf where
  "charbuf_new = \<lparr>cb_buf = None, cb_sz = 0, cb_solong = 0\<rparr>"

record connection =
  conn_fd :: int
  conn_dead :: bool
  conn_wpdu :: charbuf
  conn_rpdu :: charbuf
  conn_create_time :: "int \<times> int"   \<comment> \<open>\<^verbatim>\<open>tv_sec\<close>, \<^verbatim>\<open>tv_usec\<close>\<close>
  conn_waiters :: int
  conn_refno :: int
  conn_lossy :: int

definition MAX_PDU :: int where
  "MAX_PDU = 10 * 2 ^ 20"

definition conn_new :: "int \<Rightarrow> int \<Rightarrow> int \<times> int \<Rightarrow> connection \<times> poll_action list" where
  "conn_new f1 l1 now =
     (\<lparr>conn_fd = f1, conn_dead = False, conn_wpdu = charbuf_new, conn_rpdu = charbuf_new,
       conn_create_time = now, conn_waiters = 0, conn_refno = 1, conn_lossy = l1\<rparr>,
      [Add_Callback f1 CB_RDONLY])"

text \<open>The destructor: \<open>Inr ()\<close> when none of its checks fails.\<close>

definition conn_delete :: "connection \<Rightarrow> fault + unit" where
  "conn_delete c =
     rbind (verify (conn_dead c)) (\<lambda>_. verify (cb_buf (conn_wpdu c) = None))"

definition conn_incref :: "connection \<Rightarrow> connection" where
  "conn_incref c = c\<lparr>conn_refno := conn_refno c + 1\<rparr>"

text \<open>\<^verbatim>\<open>decref\<close>; the result is \<^term>\<open>None\<close> when the object has deleted itself.\<close>

definition conn_decref :: "connection \<Rightarrow> fault + connection option" where
  "conn_decref c =
     (let c = c\<lparr>conn_refno := conn_refno c - 1\<rparr>
      in rbind (verify (conn_refno c \<ge> 0)) (\<lambda>_.
           if conn_refno c = 0 \<and> conn_dead c then rbind (conn_delete c) (\<lambda>_. Inr None)
           else Inr (Some c)))"

definition conn_closeconn :: "connection \<Rightarrow> connection \<times> poll_action list" where
  "conn_closeconn c =
     (if \<not> conn_dead c
      then (c\<lparr>conn_dead := True\<rparr>, [Shut_Down (conn_fd c), Block_Remove (conn_fd c)])
      else (c, []))"

definition conn_compare :: "connection \<Rightarrow> connection \<Rightarrow> int" where
  "conn_compare c another =
     (if fst (conn_create_time c) > fst (conn_create_time another) then 1
      else if fst (conn_create_time c) < fst (conn_create_time another) then -1
      else if snd (conn_create_time c) > snd (conn_create_time another) then 1
      else if snd (conn_create_time c) < snd (conn_create_time another) then -1
      else 0)"

subsection \<open>Writing\<close>

text \<open>What \<^verbatim>\<open>write\<close> returned: a count, or -1 with \<^verbatim>\<open>errno\<close> equal to \<^verbatim>\<open>EAGAIN\<close> or not.\<close>

datatype write_result = Wrote nat | Write_Again | Write_Error

text \<open>Result of \<^verbatim>\<open>writepdu\<close>: the charbuf, the return value and the cells that went to the socket.\<close>

definition writepdu :: "write_result \<Rightarrow> charbuf \<Rightarrow> fault + charbuf \<times> bool \<times> cells" where
  "writepdu r w =
     rbind (verify (cb_solong w \<ge> 0)) (\<lambda>_.
       if cb_solong w = cb_sz w then Inr (w, True, [])
       else case cb_buf w of
         None \<Rightarrow> Inl Null_Access
       | Some buf \<Rightarrow>
           if cb_solong w = 0 \<and> length buf < 4 \<or> int (length buf) < cb_sz w \<or> cb_sz w < cb_solong w
           then Inl Wild_Access
           else
             let buf = (if cb_solong w = 0 then overwrite buf 0 (map Some (be32 (word_of_int (cb_sz w)))) else buf);
                 w = w\<lparr>cb_buf := Some buf\<rparr>
             in case r of
                  Wrote n \<Rightarrow> Inr (w\<lparr>cb_solong := cb_solong w + int n\<rparr>, True, take n (drop (nat (cb_solong w)) buf))
                | Write_Again \<Rightarrow> Inr (w, True, [])
                | Write_Error \<Rightarrow> Inr (w\<lparr>cb_solong := -1, cb_sz := 0\<rparr>, False, []))"

datatype send_status =
    Send_Done bool     \<comment> \<open>the caller returns with this value after \<open>conn_send_finish\<close>\<close>
  | Send_Rejected      \<comment> \<open>the connection was dead: \<^verbatim>\<open>send\<close> has returned false\<close>
  | Send_Pending       \<comment> \<open>the caller sleeps on \<^verbatim>\<open>send_complete_\<close>\<close>

definition conn_send_enter :: "connection \<Rightarrow> connection" where
  "conn_send_enter c = c\<lparr>conn_waiters := conn_waiters c + 1\<rparr>"

text \<open>The condition of the first wait loop: the caller keeps sleeping on \<^verbatim>\<open>send_wait_\<close>.\<close>

definition conn_send_blocked :: "connection \<Rightarrow> bool" where
  "conn_send_blocked c \<longleftrightarrow> \<not> conn_dead c \<and> cb_buf (conn_wpdu c) \<noteq> None"

definition conn_send_waits :: "connection \<Rightarrow> bool" where
  "conn_send_waits c \<longleftrightarrow> \<not> conn_dead c \<and> cb_solong (conn_wpdu c) \<ge> 0 \<and> cb_solong (conn_wpdu c) < cb_sz (conn_wpdu c)"

definition conn_send_finish :: "connection \<Rightarrow> connection \<times> bool" where
  "conn_send_finish c =
     (c\<lparr>conn_wpdu := \<lparr>cb_buf = None, cb_sz = 0, cb_solong = 0\<rparr>\<rparr>,
      \<not> conn_dead c \<and> cb_solong (conn_wpdu c) = cb_sz (conn_wpdu c))"

definition conn_send_start ::
  "cells \<Rightarrow> int \<Rightarrow> int \<Rightarrow> write_result \<Rightarrow> connection \<Rightarrow> fault + connection \<times> send_status \<times> poll_action list \<times> cells" where
  "conn_send_start b sz roll r c =
     (let c = c\<lparr>conn_waiters := conn_waiters c - 1\<rparr>
      in if conn_dead c then Inr (c, Send_Rejected, [], [])
         else
           let c = c\<lparr>conn_wpdu := \<lparr>cb_buf = Some b, cb_sz = sz, cb_solong = 0\<rparr>\<rparr>;
               acts = (if conn_lossy c \<noteq> 0 \<and> roll smod 100 < conn_lossy c then [Shut_Down (conn_fd c)] else [])
           in rbind (writepdu r (conn_wpdu c)) (\<lambda>(w, ok, out).
                let c = c\<lparr>conn_wpdu := w\<rparr>
                in if \<not> ok then
                     let (c, ret) = conn_send_finish (c\<lparr>conn_dead := True\<rparr>)
                     in Inr (c, Send_Done ret, acts @ [Block_Remove (conn_fd c)], out)
                   else if cb_solong w = cb_sz w then
                     let (c, ret) = conn_send_finish c in Inr (c, Send_Done ret, acts, out)
                   else if conn_send_waits c then
                     Inr (c, Send_Pending, acts @ [Add_Callback (conn_fd c) CB_WRONLY], out)
                   else
                     let (c, ret) = conn_send_finish c
                     in Inr (c, Send_Done ret, acts @ [Add_Callback (conn_fd c) CB_WRONLY], out)))"

text \<open>\<^verbatim>\<open>write_cb\<close>; the flag says whether \<^verbatim>\<open>send_complete_\<close> is signalled.\<close>

definition conn_write_cb ::
  "int \<Rightarrow> write_result \<Rightarrow> connection \<Rightarrow> fault + connection \<times> bool \<times> poll_action list \<times> cells" where
  "conn_write_cb s r c =
     rbind (verify (\<not> conn_dead c)) (\<lambda>_. rbind (verify (conn_fd c = s)) (\<lambda>_.
       if cb_sz (conn_wpdu c) = 0 then Inr (c, False, [Del_Callback (conn_fd c) CB_WRONLY], [])
       else rbind (writepdu r (conn_wpdu c)) (\<lambda>(w, ok, out).
         let c = c\<lparr>conn_wpdu := w\<rparr>
         in if \<not> ok then Inr (c\<lparr>conn_dead := True\<rparr>, True, [Del_Callback (conn_fd c) CB_RDWR], out)
            else rbind (verify (cb_solong w \<ge> 0)) (\<lambda>_.
              if cb_solong w < cb_sz w then Inr (c, False, [], out) else Inr (c, True, [], out)))))"

subsection \<open>Reading\<close>

text \<open>
  What \<^verbatim>\<open>read\<close> returned: bytes (a positive count), end of file, or -1. The flag of the last two says
  whether \<^verbatim>\<open>errno\<close> is \<^verbatim>\<open>EAGAIN\<close> afterwards (end of file does not set it, so it is whatever it was).
\<close>

datatype read_result = Got "byte list" | Read_Eof bool | Read_Error bool

fun ntohl_bytes :: "byte list \<Rightarrow> u32" where
  "ntohl_bytes [a, b, c, d] =
     push_bit 24 (ucast a) OR push_bit 16 (ucast b) OR push_bit 8 (ucast c) OR ucast d"
| "ntohl_bytes _ = 0"

text \<open>
  The first half of \<^verbatim>\<open>readpdu\<close>, run when no PDU is in progress: read the four size bytes and allocate.
  The argument of \<^verbatim>\<open>malloc\<close> is \<^verbatim>\<open>sz+sizeof(sz)\<close> as a \<^verbatim>\<open>size_t\<close>; a request above the largest object size
  fails, and a block shorter than four bytes is overrun by \<^verbatim>\<open>bcopy\<close>. \<^term>\<open>None\<close> stands for returning false.
\<close>

definition readpdu_size :: "read_result \<Rightarrow> charbuf \<Rightarrow> fault + charbuf option" where
  "readpdu_size r p =
     (case r of
        Read_Eof _ \<Rightarrow> Inr None
      | Read_Error again \<Rightarrow> rbind (verify (\<not> again)) (\<lambda>_. Inr None)
      | Got bs \<Rightarrow>
          if length bs \<noteq> 4 then Inr None
          else
            let sz = sint (ntohl_bytes bs)
            in if sz > MAX_PDU then Inr None
               else rbind (verify (cb_buf p = None)) (\<lambda>_.
                 let n = (sz + 4) mod 2 ^ 64
                 in rbind (verify (n < 2 ^ 63)) (\<lambda>_.
                      if n < 4 then Inl Wild_Access
                      else Inr (Some \<lparr>cb_buf = Some (map Some bs @ replicate (nat n - 4) None),
                                      cb_sz = sz, cb_solong = 4\<rparr>))))"

text \<open>The number of bytes the second \<^verbatim>\<open>read\<close> asks for, a \<^verbatim>\<open>size_t\<close>.\<close>

definition readpdu_count :: "charbuf \<Rightarrow> int" where
  "readpdu_count p = (cb_sz p - cb_solong p) mod 2 ^ 64"

definition readpdu_body :: "read_result \<Rightarrow> charbuf \<Rightarrow> fault + charbuf \<times> bool" where
  "readpdu_body r p =
     (case r of
        Got bs \<Rightarrow>
          (case cb_buf p of
             None \<Rightarrow> Inl Null_Access
           | Some buf \<Rightarrow>
               if int (length buf) < cb_solong p + int (length bs) then Inl Wild_Access
               else Inr (p\<lparr>cb_buf := Some (overwrite buf (nat (cb_solong p)) (map Some bs)),
                            cb_solong := cb_solong p + int (length bs)\<rparr>, True))
      | Read_Eof again \<Rightarrow> Inr (if again then (p, True) else (charbuf_new, False))
      | Read_Error again \<Rightarrow> Inr (if again then (p, True) else (charbuf_new, False)))"

definition readpdu :: "read_result \<Rightarrow> read_result \<Rightarrow> charbuf \<Rightarrow> fault + charbuf \<times> bool" where
  "readpdu r1 r2 p =
     (if cb_sz p = 0 then
        rbind (readpdu_size r1 p) (\<lambda>q. case q of None \<Rightarrow> Inr (p, False) | Some p \<Rightarrow> readpdu_body r2 p)
      else readpdu_body r2 p)"

text \<open>
  \<^verbatim>\<open>read_cb\<close>, with the channel manager's answer to \<^verbatim>\<open>got_pdu\<close> as the argument \<open>mgr\<close>. The result carries the PDU
  that was passed to \<^verbatim>\<open>got_pdu\<close> (block and size), if one was.
\<close>

definition conn_read_cb ::
  "int \<Rightarrow> (cells \<Rightarrow> int \<Rightarrow> bool) \<Rightarrow> read_result \<Rightarrow> read_result \<Rightarrow> connection \<Rightarrow>
     fault + connection \<times> (cells \<times> int) option \<times> poll_action list" where
  "conn_read_cb s mgr r1 r2 c =
     rbind (verify (conn_fd c = s)) (\<lambda>_.
       if conn_dead c then Inr (c, None, [])
       else
         rbind (if cb_buf (conn_rpdu c) = None \<or> cb_solong (conn_rpdu c) < cb_sz (conn_rpdu c)
                then readpdu r1 r2 (conn_rpdu c) else Inr (conn_rpdu c, True)) (\<lambda>(p, succ).
           let c = c\<lparr>conn_rpdu := p\<rparr>;
               acts = (if succ then [] else [Del_Callback (conn_fd c) CB_RDWR]);
               c = (if succ then c else c\<lparr>conn_dead := True\<rparr>)
           in case cb_buf p of
                None \<Rightarrow> Inr (c, None, acts)
              | Some buf \<Rightarrow>
                  if cb_sz p = cb_solong p then
                    if mgr buf (cb_sz p) then Inr (c\<lparr>conn_rpdu := charbuf_new\<rparr>, Some (buf, cb_sz p), acts)
                    else Inr (c, Some (buf, cb_sz p), acts)
                  else Inr (c, None, acts)))"

subsection \<open>Sequences of callbacks\<close>

fun conn_read_cbs ::
  "int \<Rightarrow> (cells \<Rightarrow> int \<Rightarrow> bool) \<Rightarrow> (read_result \<times> read_result) list \<Rightarrow> connection \<Rightarrow>
     fault + connection \<times> (cells \<times> int) list" where
  "conn_read_cbs s mgr [] c = Inr (c, [])"
| "conn_read_cbs s mgr ((r1, r2) # rs) c =
     rbind (conn_read_cb s mgr r1 r2 c) (\<lambda>(c, d, _).
       rbind (conn_read_cbs s mgr rs c) (\<lambda>(c, ds).
         Inr (c, (case d of None \<Rightarrow> ds | Some x \<Rightarrow> x # ds))))"

text \<open>
  The callbacks from \<^verbatim>\<open>send\<close> being asleep to its return: they run until \<^verbatim>\<open>send_complete_\<close> is signalled with
  nothing left to wait for.
\<close>

fun conn_write_cbs :: "int \<Rightarrow> write_result list \<Rightarrow> connection \<Rightarrow> fault + connection \<times> cells" where
  "conn_write_cbs s [] c = Inr (c, [])"
| "conn_write_cbs s (r # rs) c =
     rbind (conn_write_cb s r c) (\<lambda>(c, _, _, out).
       rbind (conn_write_cbs s rs c) (\<lambda>(c, outs). Inr (c, out @ outs)))"

definition conn_send ::
  "cells \<Rightarrow> int \<Rightarrow> int \<Rightarrow> write_result \<Rightarrow> write_result list \<Rightarrow> connection \<Rightarrow> fault + connection \<times> bool option \<times> cells" where
  "conn_send b sz roll r rs c =
     rbind (conn_send_start b sz roll r (conn_send_enter c)) (\<lambda>(c, st, _, out).
       case st of
         Send_Rejected \<Rightarrow> Inr (c, Some False, out)
       | Send_Done ret \<Rightarrow> Inr (c, Some ret, out)
       | Send_Pending \<Rightarrow>
           rbind (conn_write_cbs (conn_fd c) rs c) (\<lambda>(c, outs).
             if conn_send_waits c then Inr (c, None, out @ outs)
             else let (c, ret) = conn_send_finish c in Inr (c, Some ret, out @ outs)))"

section \<open>Reference counts\<close>

text \<open>The count a connection has given out: a connection that is referenced is never deleted.\<close>

lemma conn_decref_cases:
  "0 < conn_refno c \<Longrightarrow> conn_refno c \<noteq> 1 \<or> \<not> conn_dead c \<Longrightarrow>
     conn_decref c = Inr (Some (c\<lparr>conn_refno := conn_refno c - 1\<rparr>))"
  "conn_refno c = 1 \<Longrightarrow> conn_dead c \<Longrightarrow> cb_buf (conn_wpdu c) = None \<Longrightarrow> conn_decref c = Inr None"
  "conn_refno c \<le> 0 \<Longrightarrow> conn_decref c = Inl Verify_Failed"
  by (auto simp: conn_decref_def conn_delete_def Let_def)

section \<open>Reassembly of PDUs\<close>

lemma ntohl_be32 [simp]: "ntohl_bytes (be32 x) = x"
  by (simp add: be32_def join_be32)

definition framed :: "byte list \<Rightarrow> bool" where
  "framed p \<longleftrightarrow> 4 < length p \<and> int (length p) \<le> MAX_PDU \<and> take 4 p = be32 (word_of_nat (length p))"

definition chunk_read :: "byte list \<Rightarrow> read_result" where
  "chunk_read c = (if c = [] then Read_Error True else Got c)"

text \<open>A receiver that has taken the first bytes \<open>got\<close> of a PDU of \<open>n\<close> bytes.\<close>

definition partial_pdu :: "nat \<Rightarrow> byte list \<Rightarrow> charbuf" where
  "partial_pdu n got =
     \<lparr>cb_buf = Some (map Some got @ replicate (n + 4 - length got) None), cb_sz = int n, cb_solong = int (length got)\<rparr>"

lemma readpdu_body_chunk:
  assumes "length got + length c \<le> n"
  shows "readpdu_body (chunk_read c) (partial_pdu n got) = Inr (partial_pdu n (got @ c), True)"
proof -
  have "overwrite (map Some got @ replicate (n + 4 - length got) None) (length got) (map Some c) =
      map Some (got @ c) @ replicate (n + 4 - length (got @ c)) None"
    using assms by (simp add: overwrite_def)
  with assms show ?thesis by (auto simp: readpdu_body_def chunk_read_def partial_pdu_def)
qed

lemma sint_word_of_nat: "n < 2 ^ 31 \<Longrightarrow> sint (word_of_nat n :: u32) = int n"
  by (simp add: sint_uint unsigned_of_nat signed_take_bit_int_eq_self take_bit_nat_eq_self)

lemma readpdu_size_framed:
  assumes "framed p"
  shows "readpdu_size (Got (take 4 p)) charbuf_new = Inr (Some (partial_pdu (length p) (take 4 p)))"
proof -
  have len: "length p < 2 ^ 31" "4 < length p" using assms by (simp_all add: framed_def MAX_PDU_def)
  have "sint (ntohl_bytes (take 4 p)) = int (length p)"
    using assms len(1) by (simp add: framed_def sint_word_of_nat)
  moreover have "(int (length p) + 4) mod 2 ^ 64 = int (length p + 4)" using len(1) by simp
  ultimately show ?thesis
    using assms len by (simp add: readpdu_size_def partial_pdu_def framed_def charbuf_new_def Let_def nat_add_distrib)
qed

lemma charbuf_new_sel [simp]: "cb_buf charbuf_new = None" "cb_sz charbuf_new = 0" "cb_solong charbuf_new = 0"
  by (simp_all add: charbuf_new_def)

definition conn_idle :: "int \<Rightarrow> connection \<Rightarrow> bool" where
  "conn_idle s c \<longleftrightarrow> \<not> conn_dead c \<and> conn_fd c = s \<and> conn_rpdu c = charbuf_new"

text \<open>Where a callback leaves the connection once \<open>got\<close> of the \<open>n\<close> bytes have arrived.\<close>

definition after_bytes :: "connection \<Rightarrow> nat \<Rightarrow> byte list \<Rightarrow> connection \<times> (cells \<times> int) option \<times> poll_action list" where
  "after_bytes c n got =
     (if length got = n then (c\<lparr>conn_rpdu := charbuf_new\<rparr>, Some (map Some got @ replicate 4 None, int n), [])
      else (c\<lparr>conn_rpdu := partial_pdu n got\<rparr>, None, []))"

lemma read_cb_more:
  assumes "\<not> conn_dead c" "conn_fd c = s" "length got < n" "length got + length ch \<le> n" "0 < n" "\<forall>b k. mgr b k"
  shows "conn_read_cb s mgr r1 (chunk_read ch) (c\<lparr>conn_rpdu := partial_pdu n got\<rparr>) = Inr (after_bytes c n (got @ ch))"
proof -
  have "readpdu r1 (chunk_read ch) (partial_pdu n got) = Inr (partial_pdu n (got @ ch), True)"
    using assms by (simp add: readpdu_def readpdu_body_chunk) (simp add: partial_pdu_def)
  with assms show ?thesis
    by (auto simp: conn_read_cb_def after_bytes_def Let_def) (auto simp: partial_pdu_def)
qed

lemma read_cb_first:
  assumes "conn_idle s c" "framed p" "4 + length ch \<le> length p" "\<forall>b k. mgr b k"
  shows "conn_read_cb s mgr (Got (take 4 p)) (chunk_read ch) c = Inr (after_bytes c (length p) (take 4 p @ ch))"
proof -
  have "length (take 4 p) + length ch \<le> length p" using assms(2,3) by (simp add: framed_def)
  then have "readpdu (Got (take 4 p)) (chunk_read ch) charbuf_new = Inr (partial_pdu (length p) (take 4 p @ ch), True)"
    using assms(2) by (simp add: readpdu_def readpdu_size_framed readpdu_body_chunk)
  with assms show ?thesis
    by (auto simp: conn_idle_def conn_read_cb_def after_bytes_def Let_def) (auto simp: partial_pdu_def)
qed

lemma read_cbs_more:
  assumes "\<not> conn_dead c" "conn_fd c = s" "length got < n" "0 < n" "\<forall>b k. mgr b k"
    "length got + length (concat (map snd chs)) = n" "chs = [] \<or> snd (last chs) \<noteq> []"
  shows "conn_read_cbs s mgr (map (\<lambda>(r, ch). (r, chunk_read ch)) chs) (c\<lparr>conn_rpdu := partial_pdu n got\<rparr>) =
    Inr (c\<lparr>conn_rpdu := charbuf_new\<rparr>, [(map Some (got @ concat (map snd chs)) @ replicate 4 None, int n)])"
  using assms(3,6,7)
proof (induction chs arbitrary: got)
  case (Cons rc chs)
  obtain r ch where rc: "rc = (r, ch)" by (cases rc)
  have le: "length got + length ch \<le> n" using Cons.prems(2) by (simp add: rc)
  note step = read_cb_more [OF assms(1,2) Cons.prems(1) le assms(4,5), of r]
  show ?case
  proof (cases "length (got @ ch) = n")
    case True
    then have "length (concat (map snd chs)) = 0" using Cons.prems(2) by (simp add: rc del: length_0_conv length_concat)
    then have "concat (map snd chs) = []" by (simp only: length_0_conv)
    then have "chs = []" using Cons.prems(3)
      by (cases chs rule: rev_cases) auto
    with step True show ?thesis by (simp add: rc after_bytes_def)
  next
    case False
    then have "length (got @ ch) < n" using le by simp
    moreover have "chs \<noteq> []" using False Cons.prems(2) by (auto simp: rc)
    ultimately show ?thesis
      using step False Cons.IH [of "got @ ch"] Cons.prems by (simp add: rc after_bytes_def)
  qed
qed simp

text \<open>
  The callbacks that bring in one PDU \<open>p\<close>: the size bytes come whole, the rest in the chunks \<open>ch\<close> and \<open>chs\<close>
  (an empty chunk is a \<^verbatim>\<open>read\<close> that would block).
\<close>

definition pdu_reads :: "byte list \<Rightarrow> byte list \<Rightarrow> (read_result \<times> byte list) list \<Rightarrow> (read_result \<times> read_result) list" where
  "pdu_reads p ch chs = (Got (take 4 p), chunk_read ch) # map (\<lambda>(r, c). (r, chunk_read c)) chs"

definition splits_pdu :: "byte list \<Rightarrow> byte list \<Rightarrow> (read_result \<times> byte list) list \<Rightarrow> bool" where
  "splits_pdu p ch chs \<longleftrightarrow> framed p \<and> ch @ concat (map snd chs) = drop 4 p \<and> (chs = [] \<or> snd (last chs) \<noteq> [])"

lemma conn_idle_rpdu: "conn_idle s c \<Longrightarrow> c\<lparr>conn_rpdu := charbuf_new\<rparr> = c"
  by (cases c) (simp add: conn_idle_def)

lemma read_cbs_pdu:
  assumes "conn_idle s c" "splits_pdu p ch chs" "\<forall>b k. mgr b k"
  shows "conn_read_cbs s mgr (pdu_reads p ch chs) c = Inr (c, [(map Some p @ replicate 4 None, int (length p))])"
proof -
  have fr: "framed p" and all: "ch @ concat (map snd chs) = drop 4 p" and la: "chs = [] \<or> snd (last chs) \<noteq> []"
    using assms(2) by (simp_all add: splits_pdu_def)
  have len: "4 < length p" using fr by (simp add: framed_def)
  have tot: "length ch + length (concat (map snd chs)) = length p - 4"
    using arg_cong [OF all, of length] by simp
  then have le: "4 + length ch \<le> length p" using len by simp
  note step = read_cb_first [OF assms(1) fr le assms(3)]
  have p: "take 4 p @ ch @ concat (map snd chs) = p" using all by simp
  show ?thesis
  proof (cases "4 + length ch = length p")
    case True
    then have "length (concat (map snd chs)) = 0" using tot by linarith
    then have "concat (map snd chs) = []" by (simp only: length_0_conv)
    then have "chs = []" using la by (cases chs rule: rev_cases) auto
    moreover from this have "map Some (take 4 p) @ map Some ch = map Some p"
      unfolding map_append [symmetric] using p by simp
    ultimately show ?thesis using step True len conn_idle_rpdu [OF assms(1)]
      by (simp add: pdu_reads_def after_bytes_def)
  next
    case False
    with le have lt: "length (take 4 p @ ch) < length p" using len by simp
    have "length (take 4 p @ ch) + length (concat (map snd chs)) = length p" using tot len by simp
    moreover have "\<not> conn_dead c" "conn_fd c = s" "0 < length p" using assms(1) len by (auto simp: conn_idle_def)
    ultimately have "conn_read_cbs s mgr (map (\<lambda>(r, ch). (r, chunk_read ch)) chs)
        (c\<lparr>conn_rpdu := partial_pdu (length p) (take 4 p @ ch)\<rparr>) = Inr (c, [(map Some p @ replicate 4 None, int (length p))])"
      using read_cbs_more [OF _ _ lt _ assms(3) _ la] p conn_idle_rpdu [OF assms(1)] by simp
    with step False len show ?thesis by (simp add: pdu_reads_def after_bytes_def)
  qed
qed

lemma conn_read_cbs_append:
  "conn_read_cbs s mgr (xs @ ys) c =
     rbind (conn_read_cbs s mgr xs c) (\<lambda>(c, ds). rbind (conn_read_cbs s mgr ys c) (\<lambda>(c, es). Inr (c, ds @ es)))"
  by (induction s mgr xs c rule: conn_read_cbs.induct)
    (auto simp: rbind_def split: sum.splits option.splits)

lemma read_cbs_pdus:
  assumes "conn_idle s c" "\<forall>(p, ch, chs) \<in> set ps. splits_pdu p ch chs" "\<forall>b k. mgr b k"
  shows "conn_read_cbs s mgr (concat (map (\<lambda>(p, ch, chs). pdu_reads p ch chs) ps)) c =
    Inr (c, map (\<lambda>(p, _). (map Some p @ replicate 4 None, int (length p))) ps)"
  using assms(2)
proof (induction ps)
  case (Cons x ps)
  obtain p ch chs where x: "x = (p, ch, chs)" by (cases x)
  with Cons read_cbs_pdu [OF assms(1) _ assms(3), of p ch chs] show ?case
    by (simp add: conn_read_cbs_append)
qed simp

section \<open>Transmission of PDUs\<close>

text \<open>A sender that has written the first \<open>k\<close> cells of the block \<open>b\<close>.\<close>

definition partial_write :: "cells \<Rightarrow> nat \<Rightarrow> charbuf" where
  "partial_write b k = \<lparr>cb_buf = Some b, cb_sz = int (length b), cb_solong = int k\<rparr>"

definition stamped :: "cells \<Rightarrow> cells" where
  "stamped b = overwrite b 0 (map Some (be32 (word_of_nat (length b))))"

lemma stamped_props [simp]: "4 \<le> length b \<Longrightarrow> length (stamped b) = length b" "4 \<le> length b \<Longrightarrow> stamped (stamped b) = stamped b"
  by (simp_all add: stamped_def) (simp add: overwrite_def)

text \<open>A \<^verbatim>\<open>write\<close> of \<open>n\<close> cells; zero stands for one that would block.\<close>

definition chunk_write :: "nat \<Rightarrow> write_result" where
  "chunk_write n = (if n = 0 then Write_Again else Wrote n)"

lemma writepdu_chunk:
  assumes "4 \<le> length b" "k < length b" "k + n \<le> length b" "0 < k \<Longrightarrow> stamped b = b"
  shows "writepdu (chunk_write n) (partial_write b k) =
    Inr (partial_write (stamped b) (k + n), True, take n (drop k (stamped b)))"
proof (cases "k = 0")
  case True
  with assms show ?thesis
    by (auto simp: writepdu_def partial_write_def chunk_write_def stamped_def Let_def)
next
  case False
  with assms(4) have "stamped b = b" by simp
  with assms False show ?thesis
    by (auto simp: writepdu_def partial_write_def chunk_write_def Let_def)
qed

lemma write_cbs_chunks:
  assumes "4 \<le> length b" "\<not> conn_dead c" "conn_fd c = s" "stamped b = b" "k < length b"
    "k + sum_list ns = length b" "ns = [] \<or> last ns \<noteq> 0"
  shows "conn_write_cbs s (map chunk_write ns) (c\<lparr>conn_wpdu := partial_write b k\<rparr>) =
    Inr (c\<lparr>conn_wpdu := partial_write b (length b)\<rparr>, drop k b)"
  using assms(5-7)
proof (induction ns arbitrary: k)
  case (Cons n ns)
  have sz: "cb_sz (partial_write b k) \<noteq> 0" using assms(1) by (auto simp: partial_write_def)
  have step: "writepdu (chunk_write n) (partial_write b k) = Inr (partial_write b (k + n), True, take n (drop k b))"
    using writepdu_chunk [OF assms(1) Cons.prems(1), of n] Cons.prems(2) assms(4) by simp
  have cb: "\<exists>sig acts. conn_write_cb s (chunk_write n) (c\<lparr>conn_wpdu := partial_write b k\<rparr>) =
      Inr (c\<lparr>conn_wpdu := partial_write b (k + n)\<rparr>, sig, acts, take n (drop k b))"
    using assms(2,3) step sz by (auto simp: conn_write_cb_def Let_def) (auto simp: partial_write_def)
  show ?case
  proof (cases "k + n = length b")
    case True
    then have "sum_list ns = 0" using Cons.prems(2) unfolding sum_list.Cons by linarith
    then have "ns = []" using Cons.prems(3) by (cases ns rule: rev_cases) auto
    with cb True show ?thesis by auto
  next
    case False
    then have "k + n < length b" using Cons.prems(2) by simp
    moreover have "ns \<noteq> []" using False Cons.prems(2) by auto
    ultimately have "conn_write_cbs s (map chunk_write ns) (c\<lparr>conn_wpdu := partial_write b (k + n)\<rparr>) =
        Inr (c\<lparr>conn_wpdu := partial_write b (length b)\<rparr>, drop (k + n) b)"
      using Cons.IH [of "k + n"] Cons.prems by (simp add: add.assoc)
    moreover have "take n (drop k b) @ drop (k + n) b = drop k b"
      by (metis append_take_drop_id drop_drop add.commute)
    ultimately show ?thesis using cb by auto
  qed
qed simp

lemma conn_send_chunks:
  assumes "4 < length b" "\<not> conn_dead c" "conn_lossy c = 0" "n + sum_list ns = length b" "ns = [] \<or> last ns \<noteq> 0"
  shows "conn_send b (int (length b)) roll (chunk_write n) (map chunk_write ns) c =
    Inr (c\<lparr>conn_wpdu := charbuf_new\<rparr>, Some True, stamped b)"
proof -
  have len: "4 \<le> length b" "0 < length b" "n \<le> length b" using assms(1,4) by auto
  have w: "writepdu (chunk_write n) (partial_write b 0) =
      Inr (partial_write (stamped b) n, True, take n (stamped b))"
    using writepdu_chunk [OF len(1,2), of n] len(3) by simp
  note ev = conn_send_def conn_send_start_def conn_send_enter_def conn_send_finish_def conn_send_waits_def Let_def
  let ?c = "\<lambda>k. c\<lparr>conn_wpdu := partial_write (stamped b) k\<rparr>"
  show ?thesis
  proof (cases "n = length b")
    case True
    with w assms(2,3) len show ?thesis by (simp add: ev charbuf_new_def partial_write_def)
  next
    case False
    have "conn_write_cbs (conn_fd c) (map chunk_write ns) (?c n) = Inr (?c (length b), drop n (stamped b))"
      using write_cbs_chunks [of "stamped b" c "conn_fd c" n ns] assms len False by simp
    with False w assms(2,3) len show ?thesis by (simp add: ev charbuf_new_def partial_write_def)
  qed
qed

section \<open>The channel\<close>





section \<open>A race with the poll manager\<close>

text \<open>
  \<^verbatim>\<open>closeconn\<close> marks the connection dead before it blocks in \<^verbatim>\<open>block_remove_fd\<close>; a write callback the poll
  manager's thread has already been told to make then fails its first check and aborts the process.
\<close>

lemma closeconn_then_write_cb: "conn_write_cb s r (fst (conn_closeconn c)) = Inl Verify_Failed"
  by (simp add: conn_write_cb_def conn_closeconn_def)

end
