(* ===== verification/Rpc_Server.thy ===== *)
theory Rpc_Server
  imports Reply_Window Rpc_Stubs Connection "HOL-Library.Multiset"
begin

text \<open>
  The RPC server \<^verbatim>\<open>rpcs\<close> of \<^verbatim>\<open>src/rpc/rpc.cc\<close>. The state holds the members of the class, the connection
  objects it refers to by address, and the state of the object whose methods are registered. \<^verbatim>\<open>dispatch\<close> is
  composed of the part that runs up to the verdict on the request and the part that executes a new request;
  what it passes to \<^verbatim>\<open>connection::send\<close> is its output.
\<close>

section \<open>Definitions\<close>

record 's rpcs =
  s_nonce :: u32
  s_reply_window :: "u32 \<rightharpoonup> reply_t list"
  s_conns :: "u32 \<rightharpoonup> addr"
  s_counting :: int
  s_curr_counts :: int
  s_counts :: "u32 \<Rightarrow> int"
  s_reachable :: bool
  s_procs :: "u32 \<rightharpoonup> 's handler"
  s_heap :: "addr \<rightharpoonup> connection"
  s_app :: 's

subsection \<open>Connections by address\<close>

definition srv_conn :: "addr \<Rightarrow> 's rpcs \<Rightarrow> fault + connection" where
  "srv_conn a s = (case s_heap s a of None \<Rightarrow> Inl Wild_Access | Some c \<Rightarrow> Inr c)"

definition srv_incref :: "addr \<Rightarrow> 's rpcs \<Rightarrow> fault + 's rpcs" where
  "srv_incref a s = rbind (srv_conn a s) (\<lambda>c. Inr (s\<lparr>s_heap := (s_heap s)(a \<mapsto> conn_incref c)\<rparr>))"

definition srv_decref :: "addr \<Rightarrow> 's rpcs \<Rightarrow> fault + 's rpcs" where
  "srv_decref a s =
     rbind (srv_conn a s) (\<lambda>c. rbind (conn_decref c) (\<lambda>r. Inr (s\<lparr>s_heap := (s_heap s)(a := r)\<rparr>)))"

subsection \<open>Registration, statistics, arrival\<close>

definition reg1 :: "u32 \<Rightarrow> 's handler \<Rightarrow> 's rpcs \<Rightarrow> fault + 's rpcs" where
  "reg1 proc h s =
     rbind (verify (s_procs s proc = None)) (\<lambda>_. Inr (s\<lparr>s_procs := (s_procs s)(proc \<mapsto> h)\<rparr>))"

text \<open>The handler of procedure 1; the reply is the server's nonce.\<close>

definition rpcbind :: "u32 \<Rightarrow> 's \<Rightarrow> u32 \<Rightarrow> u32 \<Rightarrow> fault + 's \<times> u32 \<times> u32" where
  "rpcbind nonce s a r = Inr (s, 0, nonce)"

definition rpcs_new :: "u32 \<Rightarrow> int \<Rightarrow> 's \<Rightarrow> fault + 's rpcs" where
  "rpcs_new nonce counts app =
     reg1 rpc_bind (h1_fn get_int put_int 0 (rpcbind nonce))
       \<lparr>s_nonce = nonce, s_reply_window = Map.empty, s_conns = Map.empty, s_counting = counts,
        s_curr_counts = counts, s_counts = (\<lambda>_. 0), s_reachable = True, s_procs = Map.empty,
        s_heap = Map.empty, s_app = app\<rparr>"

definition updatestat :: "u32 \<Rightarrow> 's rpcs \<Rightarrow> 's rpcs" where
  "updatestat proc s =
     (let s = s\<lparr>s_counts := (s_counts s)(proc := s_counts s proc + 1), s_curr_counts := s_curr_counts s - 1\<rparr>
      in if s_curr_counts s = 0 then s\<lparr>s_curr_counts := s_counting s\<rparr> else s)"

text \<open>
  \<^verbatim>\<open>got_pdu\<close>: \<open>succ\<close> is the answer of the dispatch pool. The result is what \<^verbatim>\<open>got_pdu\<close> returns and the job that
  was queued; \<^verbatim>\<open>reachable_\<close> does not change in between.
\<close>

definition srv_got_pdu :: "bool \<Rightarrow> addr \<Rightarrow> byte list \<Rightarrow> 's rpcs \<Rightarrow> fault + 's rpcs \<times> bool \<times> (addr \<times> byte list) option" where
  "srv_got_pdu succ c b s =
     (if \<not> s_reachable s then Inr (s, True, None)
      else rbind (srv_incref c s) (\<lambda>s.
        if \<not> succ then rbind (srv_decref c s) (\<lambda>s. Inr (s, succ, None))
        else Inr (s, succ, Some (c, b))))"

subsection \<open>Dispatch\<close>

text \<open>Have I seen this client before? Save the latest good connection to it.\<close>

definition note_client :: "u32 \<Rightarrow> 's rpcs \<Rightarrow> 's rpcs" where
  "note_client n s =
     (if s_reply_window s n = None then s\<lparr>s_reply_window := (s_reply_window s)(n \<mapsto> [])\<rparr> else s)"

definition save_conn :: "u32 \<Rightarrow> addr \<Rightarrow> 's rpcs \<Rightarrow> fault + 's rpcs" where
  "save_conn n c s =
     (case s_conns s n of
        None \<Rightarrow> rbind (srv_incref c s) (\<lambda>s. Inr (s\<lparr>s_conns := (s_conns s)(n \<mapsto> c)\<rparr>))
      | Some d \<Rightarrow>
          rbind (srv_conn d s) (\<lambda>dc. rbind (srv_conn c s) (\<lambda>cc.
            if conn_compare dc cc < 0 then
              rbind (srv_decref d s) (\<lambda>s. rbind (srv_incref c s) (\<lambda>s.
                Inr (s\<lparr>s_conns := (s_conns s)(n \<mapsto> c)\<rparr>)))
            else Inr s)))"

definition srv_checkduplicate :: "u32 \<Rightarrow> u32 \<Rightarrow> 's rpcs \<Rightarrow> fault + 's rpcs \<times> rpcstate \<times> (cells option \<times> int) option" where
  "srv_checkduplicate n xid s =
     (let L = (case s_reply_window s n of None \<Rightarrow> [] | Some L \<Rightarrow> L)
      in rbind (checkduplicate_and_update xid L) (\<lambda>(L, st, out).
           Inr (s\<lparr>s_reply_window := (s_reply_window s)(n \<mapsto> L)\<rparr>, st, out)))"

definition srv_add_reply :: "u32 \<Rightarrow> u32 \<Rightarrow> cells option \<Rightarrow> int \<Rightarrow> 's rpcs \<Rightarrow> 's rpcs" where
  "srv_add_reply n xid b sz s =
     (let L = (case s_reply_window s n of None \<Rightarrow> [] | Some L \<Rightarrow> L)
      in s\<lparr>s_reply_window := (s_reply_window s)(n \<mapsto> add_reply xid b sz L)\<rparr>)"

definition free_reply_window :: "'s rpcs \<Rightarrow> 's rpcs" where
  "free_reply_window s = s\<lparr>s_reply_window := Map.empty\<rparr>"

text \<open>What \<^verbatim>\<open>send\<close> puts on the wire for a block and a size; sending through an unset pointer is a wild access.\<close>

definition sent_block :: "cells option \<Rightarrow> int \<Rightarrow> cells" where
  "sent_block b sz = (case b of None \<Rightarrow> [] | Some c \<Rightarrow> take (nat sz) c)"

type_synonym outbox = "(addr \<times> cells) list"

definition send_error :: "addr \<Rightarrow> req_header \<Rightarrow> u32 \<Rightarrow> fault + outbox" where
  "send_error c h ret =
     rbind (pack_reply_header \<lparr>r_xid = h_xid h, r_ret = ret\<rparr> marshall_new) (\<lambda>rep.
       Inr [(c, m_cells rep)])"

text \<open>
  The branch for a new request: run the handler and record the reply, then find the latest connection to the
  client, then send. The connection that remains to be released is part of the result.
\<close>

definition run_handler ::
  "'s handler \<Rightarrow> req_header \<Rightarrow> unmarshall \<Rightarrow> 's rpcs \<Rightarrow> fault + 's rpcs \<times> cells option \<times> nat" where
  "run_handler f h req s =
     (let s = (if s_counting s \<noteq> 0 then updatestat (h_proc h) s else s)
      in rbind (f (s_app s) req marshall_new) (\<lambda>(app, rep, ret).
         rbind (verify (sint ret \<ge> 0 \<or> ret = unmarshal_args_failure)) (\<lambda>_.
         rbind (pack_reply_header \<lparr>r_xid = h_xid h, r_ret = ret\<rparr> rep) (\<lambda>rep.
         let ((b1, sz1), _) = m_take_buf rep;
             s = s\<lparr>s_app := app\<rparr>;
             s = (if h_clt_nonce h > 0 then srv_add_reply (h_clt_nonce h) (h_xid h) b1 (int sz1) s else s)
         in Inr (s, b1, sz1)))))"

definition latest_conn :: "u32 \<Rightarrow> addr \<Rightarrow> 's rpcs \<Rightarrow> fault + 's rpcs \<times> addr" where
  "latest_conn n c s =
     rbind (srv_conn c s) (\<lambda>cc.
       if conn_dead cc \<and> s_conns s n \<noteq> Some c
       then rbind (srv_decref c s) (\<lambda>s.
              case s_conns s n of
                None \<Rightarrow> Inl Null_Access
              | Some d \<Rightarrow> rbind (srv_incref d s) (\<lambda>s. Inr (s, d)))
       else Inr (s, c))"

definition dispatch_new ::
  "'s handler \<Rightarrow> addr \<Rightarrow> req_header \<Rightarrow> unmarshall \<Rightarrow> 's rpcs \<Rightarrow> fault + 's rpcs \<times> addr \<times> outbox" where
  "dispatch_new f c h req s =
     rbind (run_handler f h req s) (\<lambda>(s, b1, sz1).
     rbind (latest_conn (h_clt_nonce h) c s) (\<lambda>(s, c).
       Inr (s, c, [(c, sent_block b1 (int sz1))])))"

definition dispatch_verdict ::
  "addr \<Rightarrow> req_header \<Rightarrow> 's rpcs \<Rightarrow> fault + 's rpcs \<times> rpcstate \<times> (cells option \<times> int) option" where
  "dispatch_verdict c h s =
     (if h_clt_nonce h \<noteq> 0
      then rbind (save_conn (h_clt_nonce h) c (note_client (h_clt_nonce h) s)) (\<lambda>s.
             srv_checkduplicate (h_clt_nonce h) (h_xid h) s)
      else Inr (s, NEW, None))"

definition dispatch :: "addr \<Rightarrow> byte list \<Rightarrow> 's rpcs \<Rightarrow> fault + 's rpcs \<times> outbox" where
  "dispatch c buf s =
     rbind (unpack_req_header (unmarshall_new buf (length buf))) (\<lambda>(h, req).
       if \<not> u_ok req then rbind (srv_decref c s) (\<lambda>s. Inr (s, []))
       else if h_srv_nonce h \<noteq> 0 \<and> h_srv_nonce h \<noteq> s_nonce s then
         rbind (send_error c h oldsrv_failure) (\<lambda>out. Inr (s, out))
       else case s_procs s (h_proc h) of
         None \<Rightarrow> rbind (srv_decref c s) (\<lambda>s. Inr (s, []))
       | Some f \<Rightarrow>
           rbind (dispatch_verdict c h s) (\<lambda>(s, stat, out).
           rbind (case stat of
                    NEW \<Rightarrow> dispatch_new f c h req s
                  | INPROGRESS \<Rightarrow> Inr (s, c, [])
                  | DONE \<Rightarrow>
                      (case out of
                         None \<Rightarrow> Inl Wild_Access
                       | Some (b1, sz1) \<Rightarrow> Inr (s, c, [(c, sent_block b1 sz1)]))
                  | FORGOTTEN \<Rightarrow> rbind (send_error c h atmostonce_failure) (\<lambda>out. Inr (s, c, out)))
             (\<lambda>(s, c, out). rbind (srv_decref c s) (\<lambda>s. Inr (s, out)))))"

section \<open>Reference counts\<close>

text \<open>
  The references to a connection that exist: the creator's, one per client whose latest connection it is, and
  one per queued or running dispatch (\<open>jobs\<close>).
\<close>

definition conn_refs :: "addr list \<Rightarrow> (u32 \<rightharpoonup> addr) \<Rightarrow> addr \<Rightarrow> int" where
  "conn_refs jobs C a = 1 + int (card {n. C n = Some a}) + int (count_list jobs a)"

definition refs_ok :: "addr list \<Rightarrow> 's rpcs \<Rightarrow> bool" where
  "refs_ok jobs s \<longleftrightarrow>
     (\<forall>a c. s_heap s a = Some c \<longrightarrow> conn_refno c = conn_refs jobs (s_conns s) a) \<and>
     (\<forall>a \<in> set jobs. s_heap s a \<noteq> None) \<and>
     (\<forall>n a. s_conns s n = Some a \<longrightarrow> s_heap s a \<noteq> None)"

lemma finite_clients [simp]: "finite {n :: u32. P n}"
  by (rule finite_subset [OF subset_UNIV]) simp

lemma refs_ok_incref:
  assumes "refs_ok jobs s" "s_heap s a \<noteq> None"
  obtains s' where "srv_incref a s = Inr s'" "refs_ok (a # jobs) s'" "s' = s\<lparr>s_heap := s_heap s'\<rparr>"
    "dom (s_heap s') = dom (s_heap s)"
proof -
  from assms(2) obtain c where c: "s_heap s a = Some c" by auto
  let ?s = "s\<lparr>s_heap := (s_heap s)(a \<mapsto> conn_incref c)\<rparr>"
  have "srv_incref a s = Inr ?s" using c by (simp add: srv_incref_def srv_conn_def)
  moreover have "refs_ok (a # jobs) ?s"
    using assms(1) c by (auto simp: refs_ok_def conn_refs_def conn_incref_def)
  ultimately show thesis using c by (intro that [of ?s]) auto
qed

lemma refs_ok_decref:
  assumes "refs_ok jobs s" "a \<in> set jobs"
  obtains s' where "srv_decref a s = Inr s'" "refs_ok (remove1 a jobs) s'" "s' = s\<lparr>s_heap := s_heap s'\<rparr>"
    "dom (s_heap s') = dom (s_heap s)"
proof -
  from assms obtain c where c: "s_heap s a = Some c" by (auto simp: refs_ok_def)
  let ?s = "s\<lparr>s_heap := (s_heap s)(a \<mapsto> c\<lparr>conn_refno := conn_refno c - 1\<rparr>)\<rparr>"
  have cnt: "count_list jobs a > 0" using assms(2) by (simp add: count_list_0_iff zero_less_iff_neq_zero)
  have ref: "conn_refno c = conn_refs jobs (s_conns s) a" using assms(1) c by (simp add: refs_ok_def)
  then have "conn_refno c \<ge> 2" using cnt by (simp add: conn_refs_def)
  then have "conn_decref c = Inr (Some (c\<lparr>conn_refno := conn_refno c - 1\<rparr>))"
    by (intro conn_decref_cases) auto
  then have "srv_decref a s = Inr ?s" using c by (simp add: srv_decref_def srv_conn_def)
  moreover have "count_list (remove1 a jobs) b = count_list jobs b - (if b = a then 1 else 0)" for b
    by (induction jobs) auto
  then have "refs_ok (remove1 a jobs) ?s"
    using assms(1) c cnt ref set_remove1_subset [of a jobs]
    by (auto simp: refs_ok_def conn_refs_def)
  ultimately show thesis using c by (intro that [of ?s]) auto
qed

lemma card_upd_client:
  "C n = None \<Longrightarrow> card {m :: u32. (C(n \<mapsto> c)) m = Some a} = card {m. C m = Some a} + (if a = c then 1 else 0)"
proof -
  assume n: "C n = None"
  then have "{m. (C(n \<mapsto> c)) m = Some a} = (if a = c then insert n {m. C m = Some a} else {m. C m = Some a})"
    by auto
  with n show ?thesis by auto
qed

lemma conn_refs_adopt: "C n = None \<Longrightarrow> conn_refs jobs (C(n \<mapsto> c)) a = conn_refs (c # jobs) C a"
  by (simp add: conn_refs_def card_upd_client del: fun_upd_apply)

lemma refs_ok_adopt:
  assumes "refs_ok (c # jobs) s" "s_conns s n = None"
  shows "refs_ok jobs (s\<lparr>s_conns := (s_conns s)(n \<mapsto> c)\<rparr>)"
  using assms by (auto simp: refs_ok_def conn_refs_adopt)

lemma refs_ok_release:
  assumes "refs_ok jobs s" "s_conns s n = Some d"
  shows "refs_ok (d # jobs) (s\<lparr>s_conns := (s_conns s)(n := None)\<rparr>)"
proof -
  let ?C = "(s_conns s)(n := None)"
  have "?C(n \<mapsto> d) = s_conns s" using assms(2) by auto
  then have "card {m. s_conns s m = Some a} = card {m. ?C m = Some a} + (if a = d then 1 else 0)" for a
    using card_upd_client [of ?C n d a] by (metis fun_upd_same)
  with assms show ?thesis by (auto simp: refs_ok_def conn_refs_def)
qed

lemma srv_refs_conns:
  "srv_incref a (s\<lparr>s_conns := X\<rparr>) = rbind (srv_incref a s) (\<lambda>s. Inr (s\<lparr>s_conns := X\<rparr>))"
  "srv_decref a (s\<lparr>s_conns := X\<rparr>) = rbind (srv_decref a s) (\<lambda>s. Inr (s\<lparr>s_conns := X\<rparr>))"
  by (simp_all add: srv_incref_def srv_decref_def srv_conn_def rbind_def split: option.split sum.split)

lemma refs_ok_save_conn:
  assumes "refs_ok jobs s" "c \<in> set jobs"
  obtains s' where "save_conn n c s = Inr s'" "refs_ok jobs s'" "s_conns s' n \<noteq> None"
    "s' = s\<lparr>s_heap := s_heap s', s_conns := s_conns s'\<rparr>"
proof (cases "s_conns s n")
  case None
  have "s_heap s c \<noteq> None" using assms by (auto simp: refs_ok_def)
  with assms(1) obtain s1 where s1: "srv_incref c s = Inr s1" "refs_ok (c # jobs) s1" "s1 = s\<lparr>s_heap := s_heap s1\<rparr>"
    by (rule refs_ok_incref)
  have co: "s_conns s1 = s_conns s" by (subst s1(3)) simp
  let ?s = "s1\<lparr>s_conns := (s_conns s1)(n \<mapsto> c)\<rparr>"
  have "refs_ok jobs ?s" using s1(2) None co by (intro refs_ok_adopt) simp_all
  moreover have "?s = s\<lparr>s_heap := s_heap ?s, s_conns := s_conns ?s\<rparr>" by (subst s1(3)) simp
  ultimately show thesis using None s1(1) by (intro that [of ?s]) (simp_all add: save_conn_def)
next
  case (Some d)
  have "s_heap s d \<noteq> None" "s_heap s c \<noteq> None" using assms Some by (simp_all add: refs_ok_def)
  then obtain dc cc where h: "s_heap s d = Some dc" "s_heap s c = Some cc" by blast
  show thesis
  proof (cases "conn_compare dc cc < 0")
    case True
    let ?s0 = "s\<lparr>s_conns := (s_conns s)(n := None)\<rparr>"
    obtain s1 where s1: "srv_decref d ?s0 = Inr s1" "refs_ok jobs s1" "s1 = ?s0\<lparr>s_heap := s_heap s1\<rparr>"
        "dom (s_heap s1) = dom (s_heap ?s0)"
      using refs_ok_decref [OF refs_ok_release [OF assms(1) Some], of d] by auto
    have "s_heap s1 c \<noteq> None" using s1(4) h(2) by (auto simp: domIff set_eq_iff)
    with s1(2) obtain s2 where s2: "srv_incref c s1 = Inr s2" "refs_ok (c # jobs) s2" "s2 = s1\<lparr>s_heap := s_heap s2\<rparr>"
      by (rule refs_ok_incref)
    obtain t1 where t1: "srv_decref d s = Inr t1" "s1 = t1\<lparr>s_conns := (s_conns s)(n := None)\<rparr>"
      using s1(1) by (auto simp: srv_refs_conns rbind_eq_Inr)
    obtain t2 where t2: "srv_incref c t1 = Inr t2" "s2 = t2\<lparr>s_conns := (s_conns s)(n := None)\<rparr>"
      using s2(1) by (auto simp: t1(2) srv_refs_conns rbind_eq_Inr)
    have co: "s_conns t2 = s_conns s"
      using t1(1) t2(1) by (auto simp: srv_decref_def srv_incref_def rbind_eq_Inr)
    let ?s = "t2\<lparr>s_conns := (s_conns t2)(n \<mapsto> c)\<rparr>"
    have eq: "?s = s2\<lparr>s_conns := (s_conns s2)(n \<mapsto> c)\<rparr>" by (simp add: t2(2) co)
    have "refs_ok jobs ?s" unfolding eq using s2(2) by (rule refs_ok_adopt) (simp add: t2(2))
    moreover have "?s = s\<lparr>s_heap := s_heap ?s, s_conns := s_conns ?s\<rparr>"
      unfolding eq by (subst s2(3), subst s1(3)) simp
    ultimately show thesis
      using Some h True t1(1) t2(1) by (intro that [of ?s]) (simp_all add: save_conn_def srv_conn_def)
  next
    case False
    with Some h assms(1) show thesis by (intro that [of s]) (simp_all add: save_conn_def srv_conn_def)
  qed
qed

lemma refs_ok_cong:
  "s_heap s' = s_heap s \<Longrightarrow> s_conns s' = s_conns s \<Longrightarrow> refs_ok jobs s' \<longleftrightarrow> refs_ok jobs s"
  by (simp add: refs_ok_def)

lemma refs_ok_perm:
  assumes "mset js = mset jobs"
  shows "refs_ok js s \<longleftrightarrow> refs_ok jobs s"
proof -
  have "set js = set jobs" using assms by (rule mset_eq_setD)
  moreover have "count_list js a = count_list jobs a" for a
    using assms by (metis count_mset)
  ultimately show ?thesis by (simp add: refs_ok_def conn_refs_def)
qed

lemma note_client_sel [simp]:
  "s_heap (note_client n s) = s_heap s" "s_conns (note_client n s) = s_conns s" "s_app (note_client n s) = s_app s"
  by (simp_all add: note_client_def)

lemma updatestat_sel [simp]:
  "s_heap (updatestat n s) = s_heap s" "s_conns (updatestat n s) = s_conns s" "s_app (updatestat n s) = s_app s"
  "s_reply_window (updatestat n s) = s_reply_window s"
  by (simp_all add: updatestat_def Let_def)

lemma srv_add_reply_sel [simp]:
  "s_heap (srv_add_reply n x b sz s) = s_heap s" "s_conns (srv_add_reply n x b sz s) = s_conns s"
  "s_app (srv_add_reply n x b sz s) = s_app s"
  by (simp_all add: srv_add_reply_def Let_def)

lemma dispatch_verdict_refs:
  assumes "refs_ok jobs s" "c \<in> set jobs" "dispatch_verdict c h s = Inr (s', st, out)"
  shows "refs_ok jobs s'"
proof (cases "h_clt_nonce h = 0")
  case False
  let ?n = "h_clt_nonce h"
  have "refs_ok jobs (note_client ?n s)" using assms(1) by (simp add: refs_ok_def)
  with assms(2) obtain s1 where s1: "save_conn ?n c (note_client ?n s) = Inr s1" "refs_ok jobs s1"
    using refs_ok_save_conn by metis
  with assms(3) False obtain L st' out' where "s' = s1\<lparr>s_reply_window := (s_reply_window s1)(?n \<mapsto> L)\<rparr>"
    by (auto simp: dispatch_verdict_def srv_checkduplicate_def Let_def rbind_eq_Inr)
  with s1(2) show ?thesis by (simp add: refs_ok_def)
qed (use assms in \<open>simp add: dispatch_verdict_def\<close>)

lemma run_handler_sel:
  assumes "run_handler f h req s = Inr (s', b, sz)"
  shows "s_heap s' = s_heap s" "s_conns s' = s_conns s"
  using assms by (auto simp: run_handler_def Let_def rbind_eq_Inr m_take_buf_def split: if_splits)

text \<open>The swap to the latest connection moves the dispatch's reference from one connection to the other.\<close>

lemma latest_conn_refs:
  assumes "refs_ok jobs s" "c \<in> set jobs" "latest_conn n c s = Inr (s', d)"
  shows "refs_ok (d # remove1 c jobs) s'"
proof -
  obtain cc where cc: "s_heap s c = Some cc" using assms(1,2) by (auto simp: refs_ok_def)
  show ?thesis
  proof (cases "conn_dead cc \<and> s_conns s n \<noteq> Some c")
    case True
    from assms(1,2) obtain s2 where s2: "srv_decref c s = Inr s2" "refs_ok (remove1 c jobs) s2"
      by (rule refs_ok_decref)
    from True assms(3) cc s2(1) have d: "s_conns s2 n = Some d" "srv_incref d s2 = Inr s'"
      by (auto simp: latest_conn_def srv_conn_def rbind_eq_Inr split: option.splits)
    have "s_heap s2 d \<noteq> None" using s2(2) d(1) by (simp add: refs_ok_def)
    with s2(2) obtain s3 where "srv_incref d s2 = Inr s3" "refs_ok (d # remove1 c jobs) s3"
      by (rule refs_ok_incref)
    with d(2) show ?thesis by simp
  next
    case False
    with assms(3) cc have "s' = s" "d = c" by (auto simp: latest_conn_def srv_conn_def)
    with assms(1,2) refs_ok_perm [of "c # remove1 c jobs" jobs s] show ?thesis by simp
  qed
qed

lemma dispatch_new_refs:
  assumes "refs_ok jobs s" "c \<in> set jobs" "dispatch_new f c h req s = Inr (s', d, out)"
  shows "refs_ok (d # remove1 c jobs) s'"
proof -
  from assms(3) obtain s1 b sz where s1: "run_handler f h req s = Inr (s1, b, sz)"
      "latest_conn (h_clt_nonce h) c s1 = Inr (s', d)"
    by (auto simp: dispatch_new_def rbind_eq_Inr)
  have "refs_ok jobs s1" using assms(1) run_handler_sel [OF s1(1)] by (simp add: refs_ok_def)
  then show ?thesis using assms(2) s1(2) by (rule latest_conn_refs)
qed

text \<open>What a PDU is rejected for: the header says it was meant for an earlier instance of the server.\<close>

definition for_old_server :: "byte list \<Rightarrow> 's rpcs \<Rightarrow> bool" where
  "for_old_server buf s \<longleftrightarrow>
     (case unpack_req_header (unmarshall_new buf (length buf)) of
        Inl _ \<Rightarrow> False
      | Inr (h, req) \<Rightarrow> u_ok req \<and> h_srv_nonce h \<noteq> 0 \<and> h_srv_nonce h \<noteq> s_nonce s)"

lemma dispatch_refs_ok:
  assumes "refs_ok jobs s" "c \<in> set jobs" "dispatch c buf s = Inr (s', out)"
  shows "refs_ok (if for_old_server buf s then jobs else remove1 c jobs) s'"
proof -
  from assms(3) obtain h req where h: "unpack_req_header (unmarshall_new buf (length buf)) = Inr (h, req)"
    by (auto simp: dispatch_def rbind_eq_Inr)
  have dec: "refs_ok (remove1 c jobs) s''" if "srv_decref c s = Inr s''" for s''
    using refs_ok_decref [OF assms(1,2)] that by (metis sum.inject(2))
  consider (bad) "\<not> u_ok req" | (old) "u_ok req" "h_srv_nonce h \<noteq> 0 \<and> h_srv_nonce h \<noteq> s_nonce s"
    | (noproc) "u_ok req" "\<not> (h_srv_nonce h \<noteq> 0 \<and> h_srv_nonce h \<noteq> s_nonce s)" "s_procs s (h_proc h) = None"
    | (proc) f where "u_ok req" "\<not> (h_srv_nonce h \<noteq> 0 \<and> h_srv_nonce h \<noteq> s_nonce s)" "s_procs s (h_proc h) = Some f"
    by (cases "u_ok req"; cases "s_procs s (h_proc h)") auto
  then show ?thesis
  proof cases
    case bad
    then show ?thesis using assms(3) h dec by (auto simp: dispatch_def for_old_server_def rbind_eq_Inr)
  next
    case old
    then show ?thesis using assms(1,3) h by (auto simp: dispatch_def for_old_server_def rbind_eq_Inr)
  next
    case noproc
    then show ?thesis using assms(3) h dec by (auto simp: dispatch_def for_old_server_def rbind_eq_Inr)
  next
    case (proc f)
    then have old: "\<not> for_old_server buf s" using h by (simp add: for_old_server_def)
    from proc assms(3) h obtain s1 st o1 s2 d where s1: "dispatch_verdict c h s = Inr (s1, st, o1)"
        "(case st of NEW \<Rightarrow> dispatch_new f c h req s1 | INPROGRESS \<Rightarrow> Inr (s1, c, [])
          | DONE \<Rightarrow> (case o1 of None \<Rightarrow> Inl Wild_Access | Some (b1, sz1) \<Rightarrow> Inr (s1, c, [(c, sent_block b1 sz1)]))
          | FORGOTTEN \<Rightarrow> rbind (send_error c h atmostonce_failure) (\<lambda>out. Inr (s1, c, out))) = Inr (s2, d, out)"
        "srv_decref d s2 = Inr s'"
      by (auto simp: dispatch_def rbind_eq_Inr)
    have ok1: "refs_ok jobs s1" using assms(1,2) s1(1) by (rule dispatch_verdict_refs)
    have ok2: "refs_ok (d # remove1 c jobs) s2"
    proof (cases "st = NEW")
      case True
      with s1(2) ok1 assms(2) show ?thesis by (simp add: dispatch_new_refs)
    next
      case False
      with s1(2) have "s2 = s1" "d = c" by (auto simp: rbind_eq_Inr split: rpcstate.splits option.splits)
      with ok1 refs_ok_perm [of "c # remove1 c jobs" jobs s1] assms(2) show ?thesis by simp
    qed
    from ok2 list.set_intros(1) obtain s3
      where "srv_decref d s2 = Inr s3" "refs_ok (remove1 d (d # remove1 c jobs)) s3"
      by (rule refs_ok_decref)
    with s1(3) old show ?thesis by simp
  qed
qed

section \<open>The window of a client under dispatch\<close>

lemma srv_refs_sel:
  "srv_incref a s = Inr s' \<Longrightarrow> s_reply_window s' = s_reply_window s \<and> s_app s' = s_app s \<and> s_procs s' = s_procs s \<and> s_nonce s' = s_nonce s"
  "srv_decref a s = Inr s' \<Longrightarrow> s_reply_window s' = s_reply_window s \<and> s_app s' = s_app s \<and> s_procs s' = s_procs s \<and> s_nonce s' = s_nonce s"
  by (auto simp: srv_incref_def srv_decref_def rbind_eq_Inr)

lemma save_conn_sel:
  "save_conn n c s = Inr s' \<Longrightarrow> s_reply_window s' = s_reply_window s \<and> s_app s' = s_app s \<and> s_procs s' = s_procs s \<and> s_nonce s' = s_nonce s"
  by (auto simp: save_conn_def rbind_eq_Inr dest!: srv_refs_sel split: option.splits if_splits)

lemma latest_conn_sel:
  "latest_conn n c s = Inr (s', d) \<Longrightarrow> s_reply_window s' = s_reply_window s \<and> s_app s' = s_app s \<and> s_procs s' = s_procs s \<and> s_nonce s' = s_nonce s"
  by (auto simp: latest_conn_def rbind_eq_Inr dest!: srv_refs_sel split: option.splits if_splits)

definition window :: "u32 \<Rightarrow> 's rpcs \<Rightarrow> reply_t list" where
  "window n s = (case s_reply_window s n of None \<Rightarrow> [] | Some L \<Rightarrow> L)"

lemma window_note_client [simp]: "window m (note_client n s) = window m s"
  by (auto simp: window_def note_client_def split: option.splits)

lemma dispatch_verdict_window:
  assumes "dispatch_verdict c h s = Inr (s', st, out)"
  shows "s_app s' = s_app s \<and> (\<forall>m. m \<noteq> h_clt_nonce h \<longrightarrow> window m s' = window m s) \<and>
    (if h_clt_nonce h \<noteq> 0 then checkduplicate_and_update (h_xid h) (window (h_clt_nonce h) s) =
       Inr (window (h_clt_nonce h) s', st, out)
     else st = NEW \<and> s' = s)"
proof (cases "h_clt_nonce h = 0")
  case False
  let ?n = "h_clt_nonce h"
  from assms False obtain s1 where s1: "save_conn ?n c (note_client ?n s) = Inr s1"
      "srv_checkduplicate ?n (h_xid h) s1 = Inr (s', st, out)"
    by (auto simp: dispatch_verdict_def rbind_eq_Inr)
  have w: "window m s1 = window m s" for m
    using save_conn_sel [OF s1(1)] window_note_client [of m ?n s] by (simp add: window_def)
  from s1(2) obtain L where "checkduplicate_and_update (h_xid h) (window ?n s1) = Inr (L, st, out)"
      "s' = s1\<lparr>s_reply_window := (s_reply_window s1)(?n \<mapsto> L)\<rparr>"
    by (auto simp: srv_checkduplicate_def window_def Let_def rbind_eq_Inr)
  with w save_conn_sel [OF s1(1)] False show ?thesis
    by (auto simp: window_def fun_upd_def)
qed (use assms in \<open>simp add: dispatch_verdict_def\<close>)

lemma window_simps [simp]:
  "window m (srv_add_reply n x b sz s) = (if m = n then add_reply x b sz (window m s) else window m s)"
  "window m (updatestat p s) = window m s"
  "window m (s\<lparr>s_app := app\<rparr>) = window m s"
  by (simp_all add: window_def srv_add_reply_def Let_def)

lemma run_handler_window:
  assumes "run_handler f h req s = Inr (s', b, sz)"
  obtains app rep ret rep' where "f (s_app s) req marshall_new = Inr (app, rep, ret)"
    "pack_reply_header \<lparr>r_xid = h_xid h, r_ret = ret\<rparr> rep = Inr rep'" "b = m_buf rep'" "sz = m_ind rep'"
    "s_app s' = app"
    "\<forall>m. window m s' = (if m = h_clt_nonce h \<and> m > 0 then add_reply (h_xid h) b (int sz) (window m s) else window m s)"
proof -
  define s0 where "s0 = (if s_counting s \<noteq> 0 then updatestat (h_proc h) s else s)"
  have s0: "s_app s0 = s_app s" "window m s0 = window m s" for m by (simp_all add: s0_def)
  from assms obtain app rep ret rep' where r: "f (s_app s0) req marshall_new = Inr (app, rep, ret)"
      "pack_reply_header \<lparr>r_xid = h_xid h, r_ret = ret\<rparr> rep = Inr rep'" "b = m_buf rep'" "sz = m_ind rep'"
      "s' = (if h_clt_nonce h > 0 then srv_add_reply (h_clt_nonce h) (h_xid h) b (int sz) (s0\<lparr>s_app := app\<rparr>) else s0\<lparr>s_app := app\<rparr>)"
    unfolding run_handler_def Let_def s0_def [symmetric]
    by (fastforce simp: rbind_eq_Inr m_take_buf_def)
  then show thesis by (intro that [of app rep ret rep']) (auto simp: s0)
qed

section \<open>Streams of requests\<close>

fun dispatch_all :: "(addr \<times> byte list) list \<Rightarrow> 's rpcs \<Rightarrow> fault + 's rpcs \<times> outbox list" where
  "dispatch_all [] s = Inr (s, [])"
| "dispatch_all ((c, buf) # jobs) s =
     rbind (dispatch c buf s) (\<lambda>(s, out). rbind (dispatch_all jobs s) (\<lambda>(s, outs). Inr (s, out # outs)))"

text \<open>A request of client \<open>n\<close> that passes the checks before the window: its number, handler and arguments.\<close>

definition accepted :: "u32 \<Rightarrow> 's rpcs \<Rightarrow> byte list \<Rightarrow> (u32 \<times> 's handler \<times> unmarshall) option" where
  "accepted n s buf =
     (case unpack_req_header (unmarshall_new buf (length buf)) of
        Inl _ \<Rightarrow> None
      | Inr (h, req) \<Rightarrow>
          if u_ok req \<and> (h_srv_nonce h = 0 \<or> h_srv_nonce h = s_nonce s) \<and> h_clt_nonce h = n
          then map_option (\<lambda>f. (h_xid h, f, req)) (s_procs s (h_proc h))
          else None)"

text \<open>What the application sees when every request runs exactly once, on its first arrival.\<close>

fun exec_once :: "u32 set \<Rightarrow> (u32 \<times> 's handler \<times> unmarshall) list \<Rightarrow> 's \<Rightarrow> 's" where
  "exec_once S [] app = app"
| "exec_once S ((x, f, req) # rs) app =
     (if x \<in> S then exec_once S rs app
      else exec_once (insert x S) rs
        (case f app req marshall_new of Inl _ \<Rightarrow> app | Inr (app', _) \<Rightarrow> app'))"

fun arrives_in_order :: "u32 set \<Rightarrow> u32 list \<Rightarrow> bool" where
  "arrives_in_order S [] \<longleftrightarrow> True"
| "arrives_in_order S (x # xs) \<longleftrightarrow> (x \<in> S \<or> (\<forall>y \<in> S. y < x)) \<and> arrives_in_order (insert x S) xs"

definition win_inv :: "u32 set \<Rightarrow> reply_t list \<Rightarrow> bool" where
  "win_inv S L \<longleftrightarrow> (\<exists>R. rw_inv S R (if L = [] then [(reply_new 0)\<lparr>rp_present := True\<rparr>] else L))"

lemma win_inv_request:
  assumes "win_inv S L" "x \<in> S \<or> (\<forall>y \<in> S. y < x)" "checkduplicate_and_update x L = Inr (L', st, out)"
  shows "(st = NEW \<longleftrightarrow> x \<notin> S) \<and> win_inv (insert x S) L' \<and> win_inv (insert x S) (add_reply x b sz L')"
proof -
  let ?L = "if L = [] then [(reply_new 0)\<lparr>rp_present := True\<rparr>] else L"
  obtain R where R: "rw_inv S R ?L" using assms(1) by (auto simp: win_inv_def)
  have "checkduplicate_and_update x ?L = Inr (L', st, out)" using assms(3) cd_empty [of x] by auto
  with rw_request [OF R assms(2)] have v: "amo_verdict S R x st out" "rw_inv (insert x S) R L'" by simp_all
  from v(2) have ne: "L' \<noteq> []" by (simp add: rw_inv_def ordered_def)
  moreover have "rw_inv (insert x S) (R(x \<mapsto> (b, sz))) (add_reply x b sz L')"
    using v(2) by (rule rw_inv_add_reply) simp
  moreover have "add_reply x b sz L' \<noteq> []" using ne by (simp add: add_reply_def)
  ultimately show ?thesis
    using v unfolding win_inv_def amo_verdict_def by (auto split: if_splits)
qed

lemma dispatch_accepted:
  assumes "dispatch c buf s = Inr (s', out)" "accepted n s buf = Some (x, f, req)" "n \<noteq> 0"
    and "win_inv S (window n s)" "x \<in> S \<or> (\<forall>y \<in> S. y < x)"
  shows "win_inv (insert x S) (window n s') \<and> s_procs s' = s_procs s \<and> s_nonce s' = s_nonce s \<and>
    s_app s' = (if x \<in> S then s_app s else case f (s_app s) req marshall_new of Inl _ \<Rightarrow> s_app s | Inr (app', _) \<Rightarrow> app')"
proof -
  from assms(2) obtain h where h: "unpack_req_header (unmarshall_new buf (length buf)) = Inr (h, req)" "u_ok req"
      "h_srv_nonce h = 0 \<or> h_srv_nonce h = s_nonce s" "h_clt_nonce h = n" "s_procs s (h_proc h) = Some f" "h_xid h = x"
    by (auto simp: accepted_def split: sum.splits prod.splits if_splits)
  from assms(1) h obtain s1 st o1 s2 d where s1: "dispatch_verdict c h s = Inr (s1, st, o1)"
      "(case st of NEW \<Rightarrow> dispatch_new f c h req s1 | INPROGRESS \<Rightarrow> Inr (s1, c, [])
        | DONE \<Rightarrow> (case o1 of None \<Rightarrow> Inl Wild_Access | Some (b1, sz1) \<Rightarrow> Inr (s1, c, [(c, sent_block b1 sz1)]))
        | FORGOTTEN \<Rightarrow> rbind (send_error c h atmostonce_failure) (\<lambda>out. Inr (s1, c, out))) = Inr (s2, d, out)"
      "srv_decref d s2 = Inr s'"
    by (auto simp: dispatch_def rbind_eq_Inr)
  have v: "s_app s1 = s_app s" "checkduplicate_and_update x (window n s) = Inr (window n s1, st, o1)"
    using dispatch_verdict_window [OF s1(1)] h(4,6) assms(3) by simp_all
  have fixed: "s_procs s1 = s_procs s \<and> s_nonce s1 = s_nonce s"
    using s1(1) h(4) assms(3)
    by (auto simp: dispatch_verdict_def srv_checkduplicate_def Let_def rbind_eq_Inr note_client_def dest!: save_conn_sel split: if_splits)
  note w = win_inv_request [OF assms(4,5) v(2)]
  have end': "window n s' = window n s2" "s_app s' = s_app s2" "s_procs s' = s_procs s2" "s_nonce s' = s_nonce s2"
    using srv_refs_sel(2) [OF s1(3)] by (simp_all add: window_def)
  show ?thesis
  proof (cases "st = NEW")
    case True
    with s1(2) obtain s3 b sz where s3: "run_handler f h req s1 = Inr (s3, b, sz)"
        "latest_conn n c s3 = Inr (s2, d)"
      using h(4) by (auto simp: dispatch_new_def rbind_eq_Inr)
    from s3(1) obtain app rep ret rep' where r: "f (s_app s1) req marshall_new = Inr (app, rep, ret)"
        "pack_reply_header \<lparr>r_xid = h_xid h, r_ret = ret\<rparr> rep = Inr rep'" "b = m_buf rep'" "sz = m_ind rep'"
        "s_app s3 = app"
        "\<forall>m. window m s3 = (if m = h_clt_nonce h \<and> m > 0 then add_reply (h_xid h) b (int sz) (window m s1) else window m s1)"
      by (rule run_handler_window)
    have "s_procs s3 = s_procs s1 \<and> s_nonce s3 = s_nonce s1"
      using s3(1) by (auto simp: run_handler_def Let_def rbind_eq_Inr m_take_buf_def srv_add_reply_def updatestat_def split: if_splits)
    moreover have "window n s3 = add_reply x b (int sz) (window n s1)"
      using r(6) h(4,6) assms(3) by (simp add: word_neq_0_conv)
    ultimately show ?thesis
      using w True r(1,5) end' latest_conn_sel [OF s3(2)] v(1) fixed by (simp add: window_def)
  next
    case False
    with s1(2) have "s2 = s1" by (auto simp: rbind_eq_Inr split: rpcstate.splits option.splits)
    with w False end' v(1) fixed show ?thesis by simp
  qed
qed

lemma accepted_cong: "s_procs s' = s_procs s \<Longrightarrow> s_nonce s' = s_nonce s \<Longrightarrow> accepted n s' = accepted n s"
  by (auto simp: accepted_def fun_eq_iff split: sum.split prod.split)

lemma dispatch_all_once:
  assumes "dispatch_all jobs s = Inr (s', outs)" "map (\<lambda>(c, buf). accepted n s buf) jobs = map Some rs" "n \<noteq> 0"
    and "win_inv S (window n s)" "arrives_in_order S (map fst rs)"
  shows "s_app s' = exec_once S rs (s_app s)"
  using assms
proof (induction jobs arbitrary: s S rs outs)
  case (Cons job jobs)
  obtain c buf where job: "job = (c, buf)" by (cases job)
  from Cons.prems(1) obtain s1 o1 os where s1: "dispatch c buf s = Inr (s1, o1)" "dispatch_all jobs s1 = Inr (s', os)"
    by (auto simp: job rbind_eq_Inr)
  from Cons.prems(2) obtain r rs' where rs: "rs = r # rs'" "accepted n s buf = Some r"
      "map (\<lambda>(c, buf). accepted n s buf) jobs = map Some rs'"
    by (auto simp: job Cons_eq_map_conv)
  obtain x f req where r: "r = (x, f, req)" by (cases r)
  have x: "x \<in> S \<or> (\<forall>y \<in> S. y < x)" "arrives_in_order (insert x S) (map fst rs')"
    using Cons.prems(5) by (simp_all add: rs(1) r)
  note d = dispatch_accepted [OF s1(1) rs(2) [unfolded r] Cons.prems(3,4) x(1)]
  have "accepted n s1 = accepted n s" using d by (intro accepted_cong) blast+
  then have acc: "map (\<lambda>(c, buf). accepted n s1 buf) jobs = map Some rs'" using rs(3) by simp
  have "s_app s' = exec_once (insert x S) rs' (s_app s1)"
    using Cons.IH [OF s1(2) acc Cons.prems(3) conjunct1 [OF d] x(2)] .
  moreover have "s_app s1 = (if x \<in> S then s_app s
      else case f (s_app s) req marshall_new of Inl _ \<Rightarrow> s_app s | Inr (app', _) \<Rightarrow> app')"
    using d by blast
  ultimately show ?case by (simp add: rs(1) r insert_absorb)
qed simp

section \<open>A retransmission right after the reply\<close>

lemma win_inv_first:
  assumes "win_inv S L" "x \<notin> S" "\<forall>y \<in> S. y < x"
  defines "L0 \<equiv> if L = [] then [(reply_new 0)\<lparr>rp_present := True\<rparr>] else L"
  shows "checkduplicate_and_update x L = Inr (L0 @ [reply_new x], NEW, None) \<and> ordered L0 \<and> rp_xid (last L0) < x"
proof -
  obtain R where R: "rw_inv S R L0" using assms(1) by (auto simp: win_inv_def L0_def)
  then have ord: "ordered L0" and ne: "L0 \<noteq> []" by (simp_all add: rw_inv_def ordered_def)
  have "rp_xid (last L0) \<in> S" using R last_in_set [OF ne] by (auto simp: rw_inv_def)
  then have lt: "rp_xid (last L0) < x" using assms(3) by blast
  have "checkduplicate_and_update x L = checkduplicate_and_update x L0" by (simp add: L0_def cd_empty)
  also have "\<dots> = Inr (L0 @ [reply_new x], NEW, None)"
    using lt by (simp add: cd_ordered_eq [OF ord] cd_ordered_def)
  finally show ?thesis using ord lt by simp
qed

lemma answered_again:
  assumes "ordered L" "rp_xid (last L) < x"
  shows "\<exists>L'. checkduplicate_and_update x (add_reply x b sz (L @ [reply_new x])) = Inr (L', DONE, Some (b, sz))"
proof -
  let ?r = "\<lparr>rp_xid = x, rp_present = True, rp_buf = b, rp_sz = sz\<rparr>"
  have below: "\<forall>r \<in> set L. rp_xid r < x" using ordered_le_last [OF assms(1)] assms(2) by (meson le_less_trans)
  then have "add_reply x b sz L = L" by (auto simp: add_reply_def intro!: map_idI)
  then have eq: "add_reply x b sz (L @ [reply_new x]) = L @ [?r]" by (simp add: add_reply_def reply_new_def)
  have ne: "L \<noteq> []" using assms(1) by (simp add: ordered_def)
  have ord: "ordered (L @ [?r])" using assms(1) below by (auto simp: ordered_def xids_def sorted_wrt_append)
  have in_slide: "?r \<in> set (slide (L @ [?r]))"
    by (metis last_in_set last_slide last_snoc append_is_Nil_conv list.distinct(1) slide_Nil)
  have "\<not> x < rp_xid (hd (slide (L @ [?r])))" using ordered_hd_le [OF ordered_slide [OF ord] in_slide] by auto
  moreover have "find (\<lambda>r. rp_xid r = x) (slide (L @ [?r])) = Some ?r"
  proof -
    have "\<exists>r. find (\<lambda>r. rp_xid r = x) (slide (L @ [?r])) = Some r" using in_slide
      by (cases "find (\<lambda>r. rp_xid r = x) (slide (L @ [?r]))") (auto simp: find_None_iff)
    then obtain r where r: "find (\<lambda>r. rp_xid r = x) (slide (L @ [?r])) = Some r" by blast
    then have "r \<in> set (slide (L @ [?r]))" "rp_xid r = x" by (auto simp: find_Some_iff)
    then have "r \<in> set (L @ [?r])" "rp_xid r = x" using set_slide by blast+
    with below have "r = ?r" by auto
    with r show ?thesis by simp
  qed
  moreover have "\<not> x < rp_xid (hd (L @ [?r]))" using below ne by (cases L) auto
  ultimately have "checkduplicate_and_update x (L @ [?r]) = Inr (slide (L @ [?r]), DONE, Some (b, sz))"
    using ne by (simp add: cd_ordered_eq [OF ord] cd_ordered_def Let_def verdict_of_def)
  then show ?thesis by (simp add: eq)
qed

definition alive :: "addr \<Rightarrow> 's rpcs \<Rightarrow> bool" where
  "alive c s \<longleftrightarrow> (\<exists>cc. s_heap s c = Some cc \<and> \<not> conn_dead cc)"

lemma alive_refs:
  "srv_incref a s = Inr s' \<Longrightarrow> alive c s \<Longrightarrow> alive c s'"
  "srv_decref a s = Inr s' \<Longrightarrow> alive c s \<Longrightarrow> alive c s'"
  by (auto simp: srv_incref_def srv_decref_def srv_conn_def conn_incref_def conn_decref_def Let_def
      alive_def rbind_eq_Inr split: option.splits if_splits)

lemma alive_save_conn: "save_conn n a s = Inr s' \<Longrightarrow> alive c s \<Longrightarrow> alive c s'"
  by (auto simp: save_conn_def rbind_eq_Inr split: option.splits if_splits dest: alive_refs)
    (auto simp: alive_def dest!: alive_refs [unfolded alive_def])

lemma dispatch_alive_shape:
  assumes "dispatch c buf s = Inr (s', out)" "accepted n s buf = Some (x, f, req)" "n \<noteq> 0" "alive c s"
  obtains h s1 st o1 s2 where "unpack_req_header (unmarshall_new buf (length buf)) = Inr (h, req)" "h_clt_nonce h = n" "h_xid h = x"
    "s_app s1 = s_app s" "checkduplicate_and_update x (window n s) = Inr (window n s1, st, o1)" "alive c s1"
    "(case st of NEW \<Rightarrow> dispatch_new f c h req s1 | INPROGRESS \<Rightarrow> Inr (s1, c, [])
        | DONE \<Rightarrow> (case o1 of None \<Rightarrow> Inl Wild_Access | Some (b1, sz1) \<Rightarrow> Inr (s1, c, [(c, sent_block b1 sz1)]))
        | FORGOTTEN \<Rightarrow> rbind (send_error c h atmostonce_failure) (\<lambda>out. Inr (s1, c, out))) = Inr (s2, c, out)"
    "srv_decref c s2 = Inr s'" "s_app s' = s_app s2" "window n s' = window n s2" "alive c s2 \<longrightarrow> alive c s'"
proof -
  from assms(2) obtain h where h: "unpack_req_header (unmarshall_new buf (length buf)) = Inr (h, req)" "u_ok req"
      "h_srv_nonce h = 0 \<or> h_srv_nonce h = s_nonce s" "h_clt_nonce h = n" "s_procs s (h_proc h) = Some f" "h_xid h = x"
    by (auto simp: accepted_def split: sum.splits prod.splits if_splits)
  from assms(1) h obtain s1 st o1 s2 d where s1: "dispatch_verdict c h s = Inr (s1, st, o1)"
      "(case st of NEW \<Rightarrow> dispatch_new f c h req s1 | INPROGRESS \<Rightarrow> Inr (s1, c, [])
        | DONE \<Rightarrow> (case o1 of None \<Rightarrow> Inl Wild_Access | Some (b1, sz1) \<Rightarrow> Inr (s1, c, [(c, sent_block b1 sz1)]))
        | FORGOTTEN \<Rightarrow> rbind (send_error c h atmostonce_failure) (\<lambda>out. Inr (s1, c, out))) = Inr (s2, d, out)"
      "srv_decref d s2 = Inr s'"
    by (auto simp: dispatch_def rbind_eq_Inr)
  have v: "s_app s1 = s_app s" "checkduplicate_and_update x (window n s) = Inr (window n s1, st, o1)"
    using dispatch_verdict_window [OF s1(1)] h(4,6) assms(3) by simp_all
  from s1(1) h(4) assms(3) obtain t where t: "save_conn n c (note_client n s) = Inr t" "s_heap s1 = s_heap t"
    by (auto simp: dispatch_verdict_def srv_checkduplicate_def Let_def rbind_eq_Inr)
  have "alive c (note_client n s)" using assms(4) by (simp add: alive_def)
  then have a1: "alive c s1" using alive_save_conn [OF t(1)] t(2) by (simp add: alive_def)
  have "d = c"
  proof (cases st)
    case NEW
    with s1(2) obtain s3 b sz where s3: "run_handler f h req s1 = Inr (s3, b, sz)" "latest_conn (h_clt_nonce h) c s3 = Inr (s2, d)"
      by (auto simp: dispatch_new_def rbind_eq_Inr)
    have "alive c s3" using a1 run_handler_sel(1) [OF s3(1)] by (simp add: alive_def)
    with s3(2) show ?thesis by (auto simp: latest_conn_def srv_conn_def alive_def)
  qed (use s1(2) in \<open>auto simp: rbind_eq_Inr split: option.splits\<close>)
  moreover have "s_app s' = s_app s2" "window n s' = window n s2" using srv_refs_sel(2) [OF s1(3)] by (simp_all add: window_def)
  moreover have "alive c s2 \<longrightarrow> alive c s'" using alive_refs(2) [OF s1(3)] by blast
  ultimately show thesis using that [of h s1 st o1 s2] h v a1 s1(2,3) by simp
qed

section \<open>A server with two requests and retransmissions\<close>

text \<open>Procedure 2 counts its executions; connection 4 has delivered four PDUs of client 9.\<close>

definition demo_server :: "nat rpcs" where
  "demo_server =
     \<lparr>s_nonce = 77, s_reply_window = Map.empty, s_conns = Map.empty, s_counting = 0, s_curr_counts = 0,
      s_counts = (\<lambda>_. 0), s_reachable = True,
      s_procs = [2 \<mapsto> h1_fn get_int put_int 0 (\<lambda>n a r. Inr (n + 1, 0, a))],
      s_heap = [4 \<mapsto> (fst (conn_new 8 0 (0, 0)))\<lparr>conn_refno := 6\<rparr>], s_app = 0\<rparr>"

definition demo_pdu :: "u32 \<Rightarrow> byte list" where
  "demo_pdu x = be32 28 @ be32 x @ be32 2 @ be32 9 @ be32 77 @ be32 0 @ be32 5"


definition demo_jobs :: "(addr \<times> byte list) list" where
  "demo_jobs = [(4, demo_pdu 1), (4, demo_pdu 1), (4, demo_pdu 2), (4, demo_pdu 1)]"

definition demo_requests :: "(u32 \<times> nat handler \<times> unmarshall) list" where
  "demo_requests = map (\<lambda>(c, buf). the (accepted 9 demo_server buf)) demo_jobs"

lemma demo_runs: "case dispatch_all demo_jobs demo_server of Inl _ \<Rightarrow> False | Inr _ \<Rightarrow> True"
  by code_simp

lemma demo_accepted: "list_all (\<lambda>(c, buf). accepted 9 demo_server buf \<noteq> None) demo_jobs"
  by code_simp

lemma demo_xids: "map fst demo_requests = [1, 1, 2, 1]"
  by code_simp

lemma demo_exec: "exec_once {0} demo_requests 0 = 2"
  by code_simp

lemma demo_order: "arrives_in_order {0} [1, 1, 2, 1]"
  by code_simp

lemma demo_refs: "refs_ok (replicate 5 4) demo_server"
  by (auto simp: refs_ok_def conn_refs_def demo_server_def conn_new_def eval_nat_numeral split: if_splits)

section \<open>Properties\<close>



text \<open>
  C4. The reply to a retransmission is the reply to the request: when a request of client \<open>n\<close> with a new number
  has been dispatched over a live connection and the same PDU is dispatched again, neither with a fault, the second dispatch leaves
  the application alone and sends the very block the first one sent.
\<close>

theorem retransmission_same_reply:
  assumes "dispatch c buf s = Inr (s1, out1)" "dispatch c buf s1 = Inr (s2, out2)"
    and "accepted n s buf = Some (x, f, req)" "n \<noteq> 0" "alive c s"
    and "win_inv S (window n s)" "x \<notin> S" "\<forall>y \<in> S. y < x"
  shows "s_app s2 = s_app s1 \<and> out2 = out1 \<and> length out1 = 1"
proof -
  define L0 where "L0 = (if window n s = [] then [(reply_new 0)\<lparr>rp_present := True\<rparr>] else window n s)"
  have new: "checkduplicate_and_update x (window n s) = Inr (L0 @ [reply_new x], NEW, None)" "ordered L0" "rp_xid (last L0) < x"
    using win_inv_first [OF assms(6-8)] by (simp_all add: L0_def)
  from assms(1,3,4,5) obtain h t1 st o1 t2 where t:
      "unpack_req_header (unmarshall_new buf (length buf)) = Inr (h, req)" "h_clt_nonce h = n" "h_xid h = x"
      "s_app t1 = s_app s" "checkduplicate_and_update x (window n s) = Inr (window n t1, st, o1)" "alive c t1"
      "(case st of NEW \<Rightarrow> dispatch_new f c h req t1 | INPROGRESS \<Rightarrow> Inr (t1, c, [])
        | DONE \<Rightarrow> (case o1 of None \<Rightarrow> Inl Wild_Access | Some (b1, sz1) \<Rightarrow> Inr (t1, c, [(c, sent_block b1 sz1)]))
        | FORGOTTEN \<Rightarrow> rbind (send_error c h atmostonce_failure) (\<lambda>out. Inr (t1, c, out))) = Inr (t2, c, out1)"
      "srv_decref c t2 = Inr s1" "s_app s1 = s_app t2" "window n s1 = window n t2" "alive c t2 \<longrightarrow> alive c s1"
    by (rule dispatch_alive_shape)
  have w1: "window n t1 = L0 @ [reply_new x]" and st: "st = NEW" using t(5) new(1) by simp_all
  from t(7) obtain t3 b sz where t3: "run_handler f h req t1 = Inr (t3, b, sz)" "latest_conn n c t3 = Inr (t2, c)"
      "out1 = [(c, sent_block b (int sz))]"
    by (auto simp: st t(2) dispatch_new_def rbind_eq_Inr)
  from t3(1) obtain app rep ret rep' where r: "f (s_app t1) req marshall_new = Inr (app, rep, ret)"
      "pack_reply_header \<lparr>r_xid = h_xid h, r_ret = ret\<rparr> rep = Inr rep'" "b = m_buf rep'" "sz = m_ind rep'" "s_app t3 = app"
      "\<forall>m. window m t3 = (if m = h_clt_nonce h \<and> m > 0 then add_reply (h_xid h) b (int sz) (window m t1) else window m t1)"
    by (rule run_handler_window)
  have "window n t3 = add_reply x b (int sz) (L0 @ [reply_new x])"
    using r(6) t(2,3) assms(4) w1 by (simp add: word_neq_0_conv)
  then have w2: "window n s1 = add_reply x b (int sz) (L0 @ [reply_new x])"
    using latest_conn_sel [OF t3(2)] t(10) by (simp add: window_def)
  have "alive c t3" using t(6) run_handler_sel(1) [OF t3(1)] by (simp add: alive_def)
  then have "t2 = t3" using t3(2) by (auto simp: latest_conn_def srv_conn_def alive_def)
  then have a1: "alive c s1" using \<open>alive c t3\<close> t(11) by simp
  obtain L2 where again: "checkduplicate_and_update x (window n s1) = Inr (L2, DONE, Some (b, int sz))"
    using answered_again [OF new(2,3)] w2 by metis
  have "s_procs s1 = s_procs s" "s_nonce s1 = s_nonce s"
    using dispatch_accepted [OF assms(1,3,4,6)] assms(8) by blast+
  then have acc: "accepted n s1 buf = Some (x, f, req)" using assms(3) accepted_cong by metis
  from assms(2) acc assms(4) a1 obtain h' t1' st' o1' t2' where t':
      "unpack_req_header (unmarshall_new buf (length buf)) = Inr (h', req)" "h_clt_nonce h' = n" "h_xid h' = x"
      "s_app t1' = s_app s1" "checkduplicate_and_update x (window n s1) = Inr (window n t1', st', o1')" "alive c t1'"
      "(case st' of NEW \<Rightarrow> dispatch_new f c h' req t1' | INPROGRESS \<Rightarrow> Inr (t1', c, [])
        | DONE \<Rightarrow> (case o1' of None \<Rightarrow> Inl Wild_Access | Some (b1, sz1) \<Rightarrow> Inr (t1', c, [(c, sent_block b1 sz1)]))
        | FORGOTTEN \<Rightarrow> rbind (send_error c h' atmostonce_failure) (\<lambda>out. Inr (t1', c, out))) = Inr (t2', c, out2)"
      "srv_decref c t2' = Inr s2" "s_app s2 = s_app t2'" "window n s2 = window n t2'" "alive c t2' \<longrightarrow> alive c s2"
    by (rule dispatch_alive_shape)
  have "st' = DONE" "o1' = Some (b, int sz)" using t'(5) again by simp_all
  with t'(7) t3(3) t'(4,9) show ?thesis by auto
qed

theorem retransmission_same_reply_witness:
  "\<exists>s1 s2 out1 out2. dispatch 4 (demo_pdu 1) demo_server = Inr (s1, out1) \<and> dispatch 4 (demo_pdu 1) s1 = Inr (s2, out2) \<and>
     s_app s2 = s_app s1 \<and> out2 = out1 \<and> length out1 = 1"
proof -
  have "case dispatch_all [(4, demo_pdu 1), (4, demo_pdu 1)] demo_server of Inl _ \<Rightarrow> False | Inr _ \<Rightarrow> True" by code_simp
  then obtain s1 s2 out1 out2 where run: "dispatch 4 (demo_pdu 1) demo_server = Inr (s1, out1)" "dispatch 4 (demo_pdu 1) s1 = Inr (s2, out2)"
    by (auto simp: rbind_eq_Inr split: sum.splits)
  have "map_option fst (accepted 9 demo_server (demo_pdu 1)) = Some 1" by code_simp
  then obtain f req where "accepted 9 demo_server (demo_pdu 1) = Some (1, f, req)" by auto
  moreover have "alive 4 demo_server" by (simp add: alive_def demo_server_def conn_new_def)
  moreover have "win_inv {0} (window 9 demo_server)"
    using rw_inv_start by (auto simp: win_inv_def window_def demo_server_def)
  ultimately show ?thesis
    using retransmission_same_reply [OF run, of 9 1 f req "{0}"] run by auto
qed

text \<open>
  C24. Reference counts: if every connection is counted once for its creator, once per client whose latest
  connection it is and once per dispatch in the queue or running, then this is so again when a dispatch has
  finished, with one exception: a request for an earlier instance of the server is answered without releasing
  the connection, which can then never be deleted.
\<close>

theorem dispatch_reference_counts:
  assumes "refs_ok jobs s" "c \<in> set jobs" "dispatch c buf s = Inr (s', out)"
  shows "refs_ok (if for_old_server buf s then jobs else remove1 c jobs) s'"
  using assms by (rule dispatch_refs_ok)

theorem dispatch_reference_counts_witness:
  "\<exists>s' out. dispatch 4 (demo_pdu 1) demo_server = Inr (s', out) \<and> refs_ok (replicate 4 4) s'"
proof -
  have "case dispatch 4 (demo_pdu 1) demo_server of Inl _ \<Rightarrow> False | Inr _ \<Rightarrow> True" by code_simp
  then obtain s' out where run: "dispatch 4 (demo_pdu 1) demo_server = Inr (s', out)" by (auto split: sum.splits)
  have "\<not> for_old_server (demo_pdu 1) demo_server" by code_simp
  then have "refs_ok (remove1 4 (replicate 5 4)) s'"
    using dispatch_reference_counts [OF demo_refs _ run] by simp
  with run show ?thesis by (simp add: eval_nat_numeral)
qed

end
