(* ===== verification/Tcpsconn.thy ===== *)
theory Tcpsconn
  imports Connection
begin

text \<open>
  The listening side of the connections, \<^verbatim>\<open>class tcpsconn\<close> of \<^verbatim>\<open>src/rpc/connection.cc\<close>: the accept loop, the
  collection of dead connections and the destructor. The map of connections is a list in key order, the connections
  are in a store by address; the results of \<^verbatim>\<open>accept\<close> and \<^verbatim>\<open>select\<close> are arguments. The calls to the poll manager
  are returned, as for a single connection.
\<close>

section \<open>The listener\<close>

record tcpsconn =
  ts_lossy :: int
  ts_conns :: "(int \<times> addr) list"
  ts_heap :: "addr \<rightharpoonup> connection"

text \<open>The constructor, with what \<^verbatim>\<open>socket\<close>, \<^verbatim>\<open>bind\<close>, \<^verbatim>\<open>listen\<close>, \<^verbatim>\<open>pipe\<close> and \<^verbatim>\<open>method_thread\<close> return.\<close>

definition tcpsconn_new :: "int \<Rightarrow> int \<Rightarrow> int \<Rightarrow> int \<Rightarrow> int \<Rightarrow> int \<Rightarrow> fault + tcpsconn" where
  "tcpsconn_new sock bound listening piped th lossytest =
     rbind (verify (\<not> sock < 0)) (\<lambda>_.
     rbind (verify (\<not> bound < 0)) (\<lambda>_.
     rbind (verify (\<not> listening < 0)) (\<lambda>_.
     rbind (verify (\<not> piped < 0)) (\<lambda>_.
     rbind (verify (th \<noteq> 0)) (\<lambda>_.
       Inr \<lparr>ts_lossy = lossytest, ts_conns = [], ts_heap = Map.empty\<rparr>)))))"

definition ts_conn :: "addr \<Rightarrow> (addr \<rightharpoonup> connection) \<Rightarrow> fault + connection" where
  "ts_conn a h = (case h a of None \<Rightarrow> Inl Wild_Access | Some k \<Rightarrow> Inr k)"

text \<open>
  The loop that collects dead connections. Erasing the entry that the iterator points to invalidates the iterator,
  and the loop goes on to increment it, which is undefined.
\<close>

fun collect_dead :: "(int \<times> addr) list \<Rightarrow> (addr \<rightharpoonup> connection) \<Rightarrow> fault + unit" where
  "collect_dead [] h = Inr ()"
| "collect_dead ((fd, a) # r) h =
     rbind (ts_conn a h) (\<lambda>k.
       if conn_dead k \<and> conn_refno k = 1 then rbind (conn_decref k) (\<lambda>_. Inl Wild_Access)
       else collect_dead r h)"

text \<open>\<open>s1\<close> is the result of \<^verbatim>\<open>accept\<close> and \<open>a\<close> the address of the new connection; None when the thread exits.\<close>

definition process_accept ::
  "int \<Rightarrow> addr \<Rightarrow> int \<times> int \<Rightarrow> tcpsconn \<Rightarrow> fault + (tcpsconn \<times> poll_action list) option" where
  "process_accept s1 a now t =
     (if s1 < 0 then Inr None
      else let (ch, acts) = conn_new s1 (ts_lossy t) now;
               h = (ts_heap t)(a \<mapsto> ch)
           in rbind (collect_dead (ts_conns t) h) (\<lambda>_.
                Inr (Some (t\<lparr>ts_conns := map_insert (conn_fd ch) a (ts_conns t), ts_heap := h\<rparr>, acts))))"

text \<open>What \<^verbatim>\<open>select\<close> reports: an error, with whether it was an interrupt, or whether the pipe and the socket are readable.\<close>

datatype accept_ready = Acc_Error bool | Acc_Ready bool bool

datatype accept_status = Listening | Closed | Exited

text \<open>
  One round of the accept loop, with the result of \<^verbatim>\<open>accept\<close> should it be called; the loop goes on while the
  status is \<open>Listening\<close>. Between two rounds other threads use the connections.
\<close>

definition accept_round ::
  "accept_ready \<Rightarrow> int \<Rightarrow> addr \<Rightarrow> int \<times> int \<Rightarrow> tcpsconn \<Rightarrow> fault + tcpsconn \<times> poll_action list \<times> accept_status" where
  "accept_round r s1 a now t =
     (case r of
        Acc_Error eintr \<Rightarrow> if eintr then Inr (t, [], Listening) else Inl Verify_Failed
      | Acc_Ready pipe tcp \<Rightarrow>
          if pipe then Inr (t, [], Closed)
          else if tcp then
            rbind (process_accept s1 a now t) (\<lambda>res.
              case res of None \<Rightarrow> Inr (t, [], Exited) | Some (t, acts) \<Rightarrow> Inr (t, acts, Listening))
          else Inl Verify_Failed)"

text \<open>The destructor, once the accept thread has been joined: close every connection and drop the reference of the map.\<close>

fun close_all :: "(int \<times> addr) list \<Rightarrow> (addr \<rightharpoonup> connection) \<Rightarrow> fault + (addr \<rightharpoonup> connection) \<times> poll_action list" where
  "close_all [] h = Inr (h, [])"
| "close_all ((fd, a) # r) h =
     rbind (ts_conn a h) (\<lambda>k.
       let (k, acts) = conn_closeconn k
       in rbind (conn_decref k) (\<lambda>k'. rbind (close_all r (h(a := k'))) (\<lambda>(h, acts'). Inr (h, acts @ acts'))))"

definition tcpsconn_delete :: "tcpsconn \<Rightarrow> fault + (addr \<rightharpoonup> connection) \<times> poll_action list" where
  "tcpsconn_delete t = close_all (ts_conns t) (ts_heap t)"

section \<open>The invariant\<close>

text \<open>
  The map is in the order of the descriptors, every entry points to a live connection with that descriptor, and holds
  one of its references.
\<close>

definition entry_ok :: "(addr \<rightharpoonup> connection) \<Rightarrow> int \<times> addr \<Rightarrow> bool" where
  "entry_ok h e = (case h (snd e) of None \<Rightarrow> False | Some k \<Rightarrow> conn_fd k = fst e \<and> 1 \<le> conn_refno k)"

definition ts_ok :: "tcpsconn \<Rightarrow> bool" where
  "ts_ok t \<longleftrightarrow> key_sorted (ts_conns t) \<and> list_all (entry_ok (ts_heap t)) (ts_conns t)"

text \<open>An entry that the collection would remove.\<close>

definition collectable :: "(addr \<rightharpoonup> connection) \<Rightarrow> int \<times> addr \<Rightarrow> bool" where
  "collectable h e = (case h (snd e) of None \<Rightarrow> False | Some k \<Rightarrow> conn_dead k \<and> conn_refno k = 1)"

lemma tcpsconn_new_ok: "tcpsconn_new sock bound listening piped th lossy = Inr t \<Longrightarrow> ts_ok t"
  by (auto simp: tcpsconn_new_def verify_def ts_ok_def split: if_splits)

lemma entry_ok_upd: "h a = None \<Longrightarrow> entry_ok h e \<Longrightarrow> entry_ok (h(a \<mapsto> k)) e"
  by (cases e) (auto simp: entry_ok_def split: option.splits)

lemma collectable_upd: "h a = None \<Longrightarrow> entry_ok h e \<Longrightarrow> collectable (h(a \<mapsto> k)) e = collectable h e"
  by (cases e) (auto simp: entry_ok_def collectable_def split: option.splits)

lemma set_map_insert: "set (map_insert k v d) \<subseteq> insert (k, v) (set d)"
  by (induction k v d rule: map_insert.induct) auto

lemma collect_dead_cases:
  assumes "list_all (entry_ok h) es"
  shows "if list_ex (collectable h) es then \<exists>e. collect_dead es h = Inl e else collect_dead es h = Inr ()"
  using assms
proof (induction es)
  case (Cons e es)
  obtain fd a where e: "e = (fd, a)" by (cases e)
  with Cons.prems obtain k where k: "h a = Some k" by (auto simp: entry_ok_def split: option.splits)
  have "\<exists>f. rbind (conn_decref k) (\<lambda>_. Inl Wild_Access) = Inl f" by (cases "conn_decref k") simp_all
  then show ?case using Cons k by (auto simp: e collectable_def ts_conn_def)
qed simp

lemma process_accept_spec:
  assumes ok: "ts_ok t" and fresh: "ts_heap t a = None" and fd: "0 \<le> fd"
  shows "if list_ex (collectable (ts_heap t)) (ts_conns t) then \<exists>e. process_accept fd a now t = Inl e
    else \<exists>t'. process_accept fd a now t = Inr (Some (t', [Add_Callback fd CB_RDONLY])) \<and> ts_ok t' \<and>
      map_of (ts_conns t') = (map_of (ts_conns t))(fd \<mapsto> a) \<and>
      ts_heap t' = (ts_heap t)(a \<mapsto> fst (conn_new fd (ts_lossy t) now))"
proof -
  define h where "h = (ts_heap t)(a \<mapsto> fst (conn_new fd (ts_lossy t) now))"
  have es: "list_all (entry_ok (ts_heap t)) (ts_conns t)" "key_sorted (ts_conns t)" using ok by (simp_all add: ts_ok_def)
  then have eh: "list_all (entry_ok h) (ts_conns t)" using fresh by (auto simp: h_def list_all_iff intro!: entry_ok_upd)
  have ch: "list_ex (collectable h) (ts_conns t) = list_ex (collectable (ts_heap t)) (ts_conns t)"
    using es(1) fresh by (auto simp: h_def list_all_iff list_ex_iff collectable_upd)
  have new: "entry_ok h (fd, a)" by (simp add: h_def entry_ok_def conn_new_def)
  have ins: "list_all (entry_ok h) (map_insert fd a (ts_conns t))"
    using eh new set_map_insert [of fd a "ts_conns t"] by (auto simp: list_all_iff)
  define t' where "t' = t\<lparr>ts_conns := map_insert fd a (ts_conns t), ts_heap := h\<rparr>"
  have p: "process_accept fd a now t = rbind (collect_dead (ts_conns t) h) (\<lambda>_. Inr (Some (t', [Add_Callback fd CB_RDONLY])))"
    using fd by (simp add: process_accept_def conn_new_def h_def t'_def Let_def)
  have "ts_ok t'" using ins key_sorted_map_insert [OF es(2)] by (simp add: ts_ok_def t'_def)
  then show ?thesis using collect_dead_cases [OF eh] unfolding p ch by (auto simp: t'_def h_def)
qed


text \<open>What the destructor leaves of a connection: nothing, unless others still refer to it.\<close>

definition released :: "connection \<Rightarrow> connection option" where
  "released k = (if conn_refno k = 1 then None else Some (k\<lparr>conn_dead := True, conn_refno := conn_refno k - 1\<rparr>))"

definition releasable :: "(addr \<rightharpoonup> connection) \<Rightarrow> addr \<Rightarrow> bool" where
  "releasable h a \<longleftrightarrow>
     (case h a of None \<Rightarrow> False | Some k \<Rightarrow> 1 \<le> conn_refno k \<and> (conn_refno k = 1 \<longrightarrow> cb_buf (conn_wpdu k) = None))"

definition closing_acts :: "(addr \<rightharpoonup> connection) \<Rightarrow> addr \<Rightarrow> poll_action list" where
  "closing_acts h a = (case h a of None \<Rightarrow> [] | Some k \<Rightarrow> snd (conn_closeconn k))"

lemma close_one:
  assumes "h a = Some k" "releasable h a"
  shows "close_all ((fd, a) # es) h = rbind (close_all es (h(a := released k))) (\<lambda>(h', acts). Inr (h', closing_acts h a @ acts))"
proof -
  have "fst (conn_closeconn k) = k\<lparr>conn_dead := True\<rparr>" by (cases "conn_dead k") (simp_all add: conn_closeconn_def)
  then have cl: "conn_closeconn k = (k\<lparr>conn_dead := True\<rparr>, closing_acts h a)" by (simp add: closing_acts_def assms(1) prod_eq_iff)
  have "conn_decref (k\<lparr>conn_dead := True\<rparr>) = Inr (released k)"
    using assms by (auto simp: conn_decref_def conn_delete_def released_def releasable_def Let_def)
  then show ?thesis by (simp add: ts_conn_def assms(1) cl)
qed

lemma close_all_spec:
  assumes "distinct (map snd es)" "\<forall>a \<in> snd ` set es. releasable h a"
  shows "close_all es h = Inr (\<lambda>b. if b \<in> snd ` set es then Option.bind (h b) released else h b, concat (map (closing_acts h) (map snd es)))"
  using assms
proof (induction es arbitrary: h)
  case (Cons e es)
  obtain fd a where e: "e = (fd, a)" by (cases e)
  have ra: "releasable h a" using Cons.prems(2) by (simp add: e)
  then obtain k where k: "h a = Some k" by (auto simp: releasable_def split: option.splits)
  have na: "a \<notin> snd ` set es" and di: "distinct (map snd es)" using Cons.prems(1) by (simp_all add: e)
  let ?h = "h(a := released k)"
  have same: "releasable ?h b = releasable h b" "closing_acts ?h b = closing_acts h b" if "b \<in> snd ` set es" for b
    using na that by (auto simp: releasable_def closing_acts_def)
  have ih: "close_all es ?h = Inr (\<lambda>b. if b \<in> snd ` set es then Option.bind (?h b) released else ?h b, concat (map (closing_acts ?h) (map snd es)))"
    by (rule Cons.IH [OF di]) (use Cons.prems(2) same(1) in \<open>simp add: e del: fun_upd_apply\<close>)
  have acts: "map (closing_acts ?h) (map snd es) = map (closing_acts h) (map snd es)" using same(2) by simp
  have "(\<lambda>b. if b \<in> snd ` set es then Option.bind (?h b) released else ?h b) =
      (\<lambda>b. if b \<in> snd ` set (e # es) then Option.bind (h b) released else h b)"
    using na k by (auto simp: fun_eq_iff e)
  then show ?case unfolding e close_one [OF k ra] ih acts by (simp add: e)
qed (simp add: fun_eq_iff)

lemma ts_ok_distinct:
  assumes "ts_ok t"
  shows "distinct (map snd (ts_conns t))"
proof -
  have "distinct (map fst (ts_conns t))" using assms by (auto simp: ts_ok_def strict_sorted_iff)
  moreover have "map fst (ts_conns t) = map (\<lambda>a. conn_fd (the (ts_heap t a))) (map snd (ts_conns t))"
    using assms by (auto simp: ts_ok_def list_all_iff entry_ok_def split: option.splits)
  ultimately show ?thesis by (metis distinct_map)
qed


section \<open>Correctness\<close>

text \<open>
  C33. A round of the accept loop. An interrupted \<^verbatim>\<open>select\<close> changes nothing and a readable pipe ends the loop. When a
  connection arrives and no connection of the map is both dead and referred to by the map alone, it is entered under
  its descriptor with one reference and handed to the poll manager, the other entries stay, and the map remains
  ordered with every entry alive. When there is such a connection the collection uses an iterator it has erased.
\<close>

theorem accept_round_spec:
  assumes "ts_ok t" "ts_heap t a = None" "0 \<le> fd"
  shows "accept_round (Acc_Error True) fd a now t = Inr (t, [], Listening) \<and>
    accept_round (Acc_Ready True tcp) fd a now t = Inr (t, [], Closed) \<and>
    (if list_ex (collectable (ts_heap t)) (ts_conns t) then \<exists>e. accept_round (Acc_Ready False True) fd a now t = Inl e
      else \<exists>t'. accept_round (Acc_Ready False True) fd a now t = Inr (t', [Add_Callback fd CB_RDONLY], Listening) \<and> ts_ok t' \<and>
        map_of (ts_conns t') = (map_of (ts_conns t))(fd \<mapsto> a) \<and>
        ts_heap t' = (ts_heap t)(a \<mapsto> fst (conn_new fd (ts_lossy t) now)))"
proof (cases "list_ex (collectable (ts_heap t)) (ts_conns t)")
  case True
  with process_accept_spec [OF assms, of now] show ?thesis by (auto simp: accept_round_def)
next
  case False
  with process_accept_spec [OF assms, of now] obtain t' where
    "process_accept fd a now t = Inr (Some (t', [Add_Callback fd CB_RDONLY]))" "ts_ok t'"
    "map_of (ts_conns t') = (map_of (ts_conns t))(fd \<mapsto> a)" "ts_heap t' = (ts_heap t)(a \<mapsto> fst (conn_new fd (ts_lossy t) now))"
    by (auto simp del: fun_upd_apply)
  then show ?thesis using False by (simp add: accept_round_def)
qed

definition demo_listener :: tcpsconn where
  "demo_listener = \<lparr>ts_lossy = 0, ts_conns = [(4, 10)], ts_heap = [10 \<mapsto> fst (conn_new 4 0 (0, 0))]\<rparr>"

theorem accept_round_spec_witness:
  "ts_ok demo_listener \<and>
   (\<exists>t'. accept_round (Acc_Ready False True) 5 11 (1, 0) demo_listener = Inr (t', [Add_Callback 5 CB_RDONLY], Listening) \<and> ts_ok t' \<and>
      map_of (ts_conns t') = [4 \<mapsto> 10, 5 \<mapsto> 11])"
proof -
  have ok: "ts_ok demo_listener" by (simp add: ts_ok_def demo_listener_def entry_ok_def conn_new_def)
  have "\<not> list_ex (collectable (ts_heap demo_listener)) (ts_conns demo_listener)"
    by (simp add: demo_listener_def collectable_def conn_new_def)
  with accept_round_spec [OF ok, of 11 5 "(1, 0)"]
  have "\<exists>t'. accept_round (Acc_Ready False True) 5 11 (1, 0) demo_listener = Inr (t', [Add_Callback 5 CB_RDONLY], Listening) \<and> ts_ok t' \<and>
        map_of (ts_conns t') = (map_of (ts_conns demo_listener))(5 \<mapsto> 11)" by (auto simp: demo_listener_def)
  then show ?thesis using ok by (simp add: demo_listener_def)
qed

text \<open>
  The destructor closes every connection of the map and drops the reference the map holds: a connection nobody
  else refers to is deleted, any other is dead with one reference less, and the connections that are not in the map
  are untouched. It is enough that a connection only the map refers to has no write in progress.
\<close>

lemma tcpsconn_delete_releases:
  assumes "ts_ok t" "\<forall>(fd, a) \<in> set (ts_conns t). \<forall>k. ts_heap t a = Some k \<and> conn_refno k = 1 \<longrightarrow> cb_buf (conn_wpdu k) = None"
  shows "\<exists>h' acts. tcpsconn_delete t = Inr (h', acts) \<and>
    (\<forall>fd a k. (fd, a) \<in> set (ts_conns t) \<and> ts_heap t a = Some k \<longrightarrow>
       h' a = (if conn_refno k = 1 then None else Some (k\<lparr>conn_dead := True, conn_refno := conn_refno k - 1\<rparr>)) \<and>
       (\<not> conn_dead k \<longrightarrow> Shut_Down fd \<in> set acts \<and> Block_Remove fd \<in> set acts)) \<and>
    (\<forall>a. a \<notin> snd ` set (ts_conns t) \<longrightarrow> h' a = ts_heap t a)"
proof -
  have ent: "entry_ok (ts_heap t) e" if "e \<in> set (ts_conns t)" for e using assms(1) that by (simp add: ts_ok_def list_all_iff)
  have "\<forall>a \<in> snd ` set (ts_conns t). releasable (ts_heap t) a"
    using assms(2) ent by (force simp: releasable_def entry_ok_def split: option.splits)
  note c = close_all_spec [OF ts_ok_distinct [OF assms(1)] this]
  have acts: "Shut_Down fd \<in> set (closing_acts (ts_heap t) a) \<and> Block_Remove fd \<in> set (closing_acts (ts_heap t) a)"
    if "(fd, a) \<in> set (ts_conns t)" "ts_heap t a = Some k" "\<not> conn_dead k" for fd a k
    using ent [OF that(1)] that by (simp add: closing_acts_def conn_closeconn_def entry_ok_def)
  define h' where "h' = (\<lambda>b. if b \<in> snd ` set (ts_conns t) then Option.bind (ts_heap t b) released else ts_heap t b)"
  define as where "as = concat (map (closing_acts (ts_heap t)) (map snd (ts_conns t)))"
  have "tcpsconn_delete t = Inr (h', as)" by (simp add: tcpsconn_delete_def c h'_def as_def)
  moreover have "h' a = released k" "\<not> conn_dead k \<longrightarrow> Shut_Down fd \<in> set as \<and> Block_Remove fd \<in> set as"
    if "(fd, a) \<in> set (ts_conns t)" "ts_heap t a = Some k" for fd a k
  proof -
    have a: "a \<in> snd ` set (ts_conns t)" using that(1) by (metis image_eqI snd_conv)
    then show "h' a = released k" by (simp add: h'_def that(2))
    have "set (closing_acts (ts_heap t) a) \<subseteq> set as" using a by (auto simp: as_def)
    with acts [OF that] show "\<not> conn_dead k \<longrightarrow> Shut_Down fd \<in> set as \<and> Block_Remove fd \<in> set as" by blast
  qed
  moreover have "h' a = ts_heap t a" if "a \<notin> snd ` set (ts_conns t)" for a using that by (simp add: h'_def)
  ultimately show ?thesis unfolding released_def by (intro exI [of _ h'] exI [of _ as] conjI allI impI; (elim conjE)?; blast)
qed

lemma tcpsconn_delete_releases_example:
  "\<exists>h' acts. tcpsconn_delete demo_listener = Inr (h', acts) \<and> h' 10 = None \<and> Shut_Down 4 \<in> set acts"
proof -
  have k: "ts_heap demo_listener 10 = Some (fst (conn_new 4 0 (0, 0)))" "(4, 10) \<in> set (ts_conns demo_listener)"
    by (simp_all add: demo_listener_def)
  have "ts_ok demo_listener" by (simp add: ts_ok_def demo_listener_def entry_ok_def conn_new_def)
  moreover have "\<forall>(fd, a) \<in> set (ts_conns demo_listener). \<forall>k. ts_heap demo_listener a = Some k \<and> conn_refno k = 1 \<longrightarrow> cb_buf (conn_wpdu k) = None"
    by (simp add: demo_listener_def conn_new_def charbuf_new_def)
  ultimately obtain h' acts where d: "tcpsconn_delete demo_listener = Inr (h', acts)"
    "\<forall>fd a k. (fd, a) \<in> set (ts_conns demo_listener) \<and> ts_heap demo_listener a = Some k \<longrightarrow>
       h' a = (if conn_refno k = 1 then None else Some (k\<lparr>conn_dead := True, conn_refno := conn_refno k - 1\<rparr>)) \<and>
       (\<not> conn_dead k \<longrightarrow> Shut_Down fd \<in> set acts \<and> Block_Remove fd \<in> set acts)"
    using tcpsconn_delete_releases [of demo_listener] by blast
  from d(2) [rule_format, OF conjI [OF k(2,1)]] d(1) show ?thesis by (simp add: conn_new_def)
qed

end
