(* ===== verification/Rpc_Client.thy ===== *)
theory Rpc_Client
  imports Rpc_Stubs Connection
begin

text \<open>
  The RPC client \<^verbatim>\<open>rpcc\<close> of \<^verbatim>\<open>src/rpc/rpc.cc\<close>: the window of received replies (\<^verbatim>\<open>update_xid_rep\<close>), a call
  (\<^verbatim>\<open>call1\<close>) with its retransmissions and deadlines, the arrival of replies (\<^verbatim>\<open>got_pdu\<close>) and \<^verbatim>\<open>cancel\<close>.

  \<^verbatim>\<open>call1\<close> is split at its critical sections and at its wait; \<open>call1_rounds\<close> is its loop, in which an argument
  says what the other threads do to the client while the caller waits. The result of \<^verbatim>\<open>connect_to_dst\<close> and the
  clock are arguments. A \<^verbatim>\<open>caller\<close> object lives in the map of outstanding calls; \<^verbatim>\<open>int\<close> keys are kept as words.
\<close>

section \<open>Definitions\<close>

subsection \<open>The window of received replies\<close>

text \<open>The insertion before the first larger element, and \<^verbatim>\<open>push_back\<close> when there is none.\<close>

fun insert_xid :: "u32 \<Rightarrow> u32 list \<Rightarrow> u32 list" where
  "insert_xid xid [] = [xid]"
| "insert_xid xid (x # w) = (if x > xid then xid # x # w else x # insert_xid xid w)"

text \<open>
  The loop at \<^verbatim>\<open>compress\<close>: \<open>before\<close> holds the elements in front of the iterator. The inner loop pops the front
  while its successor is the element at the iterator; it stops at that element, which is not its own successor.
\<close>

fun compress :: "u32 list \<Rightarrow> u32 list \<Rightarrow> u32 list" where
  "compress before [] = before"
| "compress before (x # rest) = compress (dropWhile (\<lambda>p. p + 1 = x) before @ [x]) rest"

definition update_xid_rep :: "u32 \<Rightarrow> u32 list \<Rightarrow> fault + u32 list" where
  "update_xid_rep xid w =
     (case w of
        [] \<Rightarrow> Inl Wild_Access
      | front # _ \<Rightarrow>
          if xid \<le> front then Inr w
          else let w = insert_xid xid w in Inr (compress [hd w] (tl w)))"

subsection \<open>State\<close>

record caller =
  ca_un :: unmarshall
  ca_intret :: u32
  ca_done :: bool

definition caller_new :: "unmarshall \<Rightarrow> caller" where
  "caller_new xun = \<lparr>ca_un = xun, ca_intret = 0, ca_done = False\<rparr>"

record request =
  rq_buf :: cells
  rq_xid :: u32

definition request_clear :: request where
  "request_clear = \<lparr>rq_buf = [], rq_xid = -1\<rparr>"

definition request_isvalid :: "request \<Rightarrow> bool" where
  "request_isvalid r \<longleftrightarrow> rq_xid r \<noteq> -1"

record rpcc =
  rc_clt_nonce :: u32
  rc_srv_nonce :: u32
  rc_bind_done :: bool
  rc_xid :: u32
  rc_lossytest :: int
  rc_retrans :: bool
  rc_reachable :: bool
  rc_chan :: "addr option"
  rc_destroy_wait :: bool
  rc_calls :: "u32 \<rightharpoonup> caller"
  rc_xid_rep_window :: "u32 list"
  rc_dup_req :: request
  rc_xid_rep_done :: u32
  rc_heap :: "addr \<rightharpoonup> connection"

definition rpcc_new :: "u32 \<Rightarrow> int \<Rightarrow> bool \<Rightarrow> rpcc" where
  "rpcc_new nonce lossy retrans =
     \<lparr>rc_clt_nonce = (if retrans then nonce else 0), rc_srv_nonce = 0, rc_bind_done = False, rc_xid = 1,
      rc_lossytest = lossy, rc_retrans = retrans, rc_reachable = True, rc_chan = None, rc_destroy_wait = False,
      rc_calls = Map.empty, rc_xid_rep_window = [0], rc_dup_req = request_clear, rc_xid_rep_done = -1,
      rc_heap = Map.empty\<rparr>"

definition set_reachable :: "bool \<Rightarrow> rpcc \<Rightarrow> rpcc" where
  "set_reachable r c = c\<lparr>rc_reachable := r\<rparr>"

subsection \<open>The connection of the client\<close>

definition clt_conn :: "addr \<Rightarrow> rpcc \<Rightarrow> fault + connection" where
  "clt_conn a c = (case rc_heap c a of None \<Rightarrow> Inl Wild_Access | Some k \<Rightarrow> Inr k)"

definition clt_incref :: "addr \<Rightarrow> rpcc \<Rightarrow> fault + rpcc" where
  "clt_incref a c = rbind (clt_conn a c) (\<lambda>k. Inr (c\<lparr>rc_heap := (rc_heap c)(a \<mapsto> conn_incref k)\<rparr>))"

definition clt_decref :: "addr \<Rightarrow> rpcc \<Rightarrow> fault + rpcc" where
  "clt_decref a c =
     rbind (clt_conn a c) (\<lambda>k. rbind (conn_decref k) (\<lambda>r. Inr (c\<lparr>rc_heap := (rc_heap c)(a := r)\<rparr>)))"

text \<open>\<^verbatim>\<open>connect_to_dst\<close>: the socket, or None when \<^verbatim>\<open>connect\<close> fails; the time is the creation time of the connection.\<close>

definition connect_to_dst :: "int option \<Rightarrow> int \<Rightarrow> int \<times> int \<Rightarrow> (connection \<times> poll_action list) option" where
  "connect_to_dst s lossy now = map_option (\<lambda>fd. conn_new fd lossy now) s"

text \<open>
  \<^verbatim>\<open>get_refconn\<close>; \<open>fresh\<close> is the connection \<^verbatim>\<open>connect_to_dst\<close> returns when it is called, with the address it is
  allocated at, and \<open>ch\<close> the value of the caller's variable.
\<close>

definition reconnect :: "(addr \<times> connection) option \<Rightarrow> rpcc \<Rightarrow> rpcc" where
  "reconnect fresh c =
     (case fresh of
        None \<Rightarrow> c\<lparr>rc_chan := None\<rparr>
      | Some (a, k) \<Rightarrow> c\<lparr>rc_chan := Some a, rc_heap := (rc_heap c)(a \<mapsto> k)\<rparr>)"

definition get_refconn :: "(addr \<times> connection) option \<Rightarrow> addr option \<Rightarrow> rpcc \<Rightarrow> fault + rpcc \<times> addr option" where
  "get_refconn fresh ch c =
     rbind (case rc_chan c of
              None \<Rightarrow> Inr (reconnect fresh c)
            | Some a \<Rightarrow> rbind (clt_conn a c) (\<lambda>k.
                if conn_dead k then rbind (clt_decref a c) (\<lambda>c. Inr (reconnect fresh c)) else Inr c)) (\<lambda>c.
       case rc_chan c of
         None \<Rightarrow> Inr (c, ch)
       | Some a \<Rightarrow>
           rbind (case ch of None \<Rightarrow> Inr c | Some b \<Rightarrow> clt_decref b c) (\<lambda>c.
           rbind (clt_incref a c) (\<lambda>c. Inr (c, Some a))))"

subsection \<open>A call\<close>

definition to_max :: int where "to_max = 120000"
definition to_min :: int where "to_min = 1000"

text \<open>The local variables of \<^verbatim>\<open>call1\<close>.\<close>

record call_st =
  cs_xid :: u32
  cs_req :: marshall
  cs_xid_rep :: u32
  cs_curr_to :: int
  cs_nextdeadline :: timespec
  cs_finaldeadline :: timespec
  cs_transmit :: bool
  cs_ch :: "addr option"

text \<open>The first critical section: an error code, or the call's variables.\<close>

definition call1_begin :: "u32 \<Rightarrow> marshall \<Rightarrow> unmarshall \<Rightarrow> rpcc \<Rightarrow> fault + rpcc \<times> (u32 + call_st)" where
  "call1_begin proc req rep c =
     (if proc \<noteq> rpc_bind \<and> \<not> rc_bind_done c \<or> proc = rpc_bind \<and> rc_bind_done c then Inr (c, Inl bind_failure)
      else if rc_destroy_wait c then Inr (c, Inl cancel_failure)
      else
        let xid = rc_xid c;
            c = c\<lparr>rc_xid := xid + 1, rc_calls := (rc_calls c)(xid \<mapsto> caller_new rep)\<rparr>
        in case rc_xid_rep_window c of
             [] \<Rightarrow> Inl Wild_Access
           | front # _ \<Rightarrow>
               rbind (pack_req_header \<lparr>h_xid = xid, h_proc = proc, h_clt_nonce = rc_clt_nonce c,
                        h_srv_nonce = rc_srv_nonce c, h_xid_rep = front\<rparr> req) (\<lambda>req.
                 Inr (c, Inr \<lparr>cs_xid = xid, cs_req = req, cs_xid_rep = front, cs_curr_to = 0,
                   cs_nextdeadline = \<lparr>tv_sec = 0, tv_nsec = 0\<rparr>, cs_finaldeadline = \<lparr>tv_sec = 0, tv_nsec = 0\<rparr>,
                   cs_transmit = True, cs_ch = None\<rparr>)))"

definition call1_start :: "timespec \<Rightarrow> int \<Rightarrow> call_st \<Rightarrow> fault + call_st" where
  "call1_start now to st =
     rbind (add_timespec now to) (\<lambda>f.
       Inr (st\<lparr>cs_finaldeadline := f, cs_curr_to := to_min, cs_transmit := True, cs_ch := None\<rparr>))"

text \<open>The transmission at the top of the loop; the output is what is sent on which connection.\<close>

definition call1_transmit ::
  "(addr \<times> connection) option \<Rightarrow> rpcc \<Rightarrow> call_st \<Rightarrow> fault + rpcc \<times> call_st \<times> (addr \<times> cells) list" where
  "call1_transmit fresh c st =
     (if \<not> cs_transmit st then Inr (c, st, [])
      else rbind (get_refconn fresh (cs_ch st) c) (\<lambda>(c, ch).
        let st = st\<lparr>cs_ch := ch, cs_transmit := False\<rparr>
        in case ch of
             None \<Rightarrow> Inr (c, st, [])
           | Some a \<Rightarrow>
               if \<not> rc_reachable c then Inr (c, st, [])
               else
                 let take = request_isvalid (rc_dup_req c) \<and> sint (rc_xid_rep_done c) > sint (rq_xid (rc_dup_req c));
                     forgot = (if take then rc_dup_req c else request_clear);
                     c = (if take then c\<lparr>rc_dup_req := request_clear\<rparr> else c)
                 in Inr (c, st, (if request_isvalid forgot then [(a, rq_buf forgot)] else []) @ [(a, m_cells (cs_req st))])))"

text \<open>The deadline of the next wait; None when the loop is left because the final deadline has passed.\<close>

definition call1_arm :: "timespec \<Rightarrow> call_st \<Rightarrow> fault + call_st option" where
  "call1_arm now st =
     (if tv_sec (cs_finaldeadline st) = 0 then Inr None
      else rbind (add_timespec now (cs_curr_to st)) (\<lambda>next.
        if cmp_timespec next (cs_finaldeadline st) > 0
        then Inr (Some (st\<lparr>cs_nextdeadline := cs_finaldeadline st, cs_finaldeadline := (cs_finaldeadline st)\<lparr>tv_sec := 0\<rparr>\<rparr>))
        else Inr (Some (st\<lparr>cs_nextdeadline := next\<rparr>))))"

text \<open>The end of a round whose wait timed out.\<close>

definition call1_timeout :: "rpcc \<Rightarrow> call_st \<Rightarrow> fault + call_st" where
  "call1_timeout c st =
     rbind (case cs_ch st of None \<Rightarrow> Inr True | Some a \<Rightarrow> rbind (clt_conn a c) (\<lambda>k. Inr (conn_dead k))) (\<lambda>gone.
       Inr (st\<lparr>cs_transmit := (if rc_retrans c \<and> gone then True else cs_transmit st),
               cs_curr_to := to_int32 (2 * cs_curr_to st)\<rparr>))"

definition call_done :: "u32 \<Rightarrow> rpcc \<Rightarrow> bool" where
  "call_done xid c = (case rc_calls c xid of None \<Rightarrow> False | Some ca \<Rightarrow> ca_done ca)"

text \<open>
  One round of the loop: what \<^verbatim>\<open>connect_to_dst\<close> returns should it be called, the clock when the deadline is
  computed, and what the other threads do to the client until the wait ends, by a reply or at its deadline.
\<close>

record round =
  rd_fresh :: "(addr \<times> connection) option"
  rd_now :: timespec
  rd_env :: "rpcc \<Rightarrow> rpcc"

text \<open>The loop over the given rounds; None: it is still running after them.\<close>

fun call1_rounds :: "round list \<Rightarrow> rpcc \<Rightarrow> call_st \<Rightarrow> fault + (rpcc \<times> call_st \<times> (addr \<times> cells) list) option" where
  "call1_rounds [] c st = Inr None"
| "call1_rounds (r # rs) c st =
     rbind (call1_transmit (rd_fresh r) c st) (\<lambda>(c, st, out).
     rbind (call1_arm (rd_now r) st) (\<lambda>arm.
       case arm of
         None \<Rightarrow> Inr (Some (c, st, out))
       | Some st \<Rightarrow>
           let c = rd_env r c
           in if call_done (cs_xid st) c then Inr (Some (c, st, out))
              else rbind (call1_timeout c st) (\<lambda>st.
                   rbind (call1_rounds rs c st) (\<lambda>res.
                     Inr (map_option (\<lambda>(c, st, out'). (c, st, out @ out')) res)))))"

text \<open>The bookkeeping for the lossy test mode: keep one finished request to send again later.\<close>

definition keep_dup_req :: "call_st \<Rightarrow> rpcc \<Rightarrow> rpcc" where
  "keep_dup_req st c =
     (let c = (if \<not> request_isvalid (rc_dup_req c)
               then c\<lparr>rc_dup_req := \<lparr>rq_buf = m_cells (cs_req st), rq_xid = cs_xid st\<rparr>\<rparr> else c)
      in if sint (cs_xid_rep st) > sint (rc_xid_rep_done c) then c\<lparr>rc_xid_rep_done := cs_xid_rep st\<rparr> else c)"

text \<open>What follows the loop: the call leaves the map, its reply counts as received, the result is returned.\<close>

definition call1_end :: "rpcc \<Rightarrow> call_st \<Rightarrow> fault + rpcc \<times> u32 \<times> unmarshall" where
  "call1_end c st =
     (case rc_calls c (cs_xid st) of
        None \<Rightarrow> Inl Wild_Access
      | Some ca \<Rightarrow>
          rbind (update_xid_rep (cs_xid st) (rc_xid_rep_window c)) (\<lambda>w.
          let c = c\<lparr>rc_calls := (rc_calls c)(cs_xid st := None), rc_xid_rep_window := w\<rparr>;
              c = (if ca_done ca \<and> rc_lossytest c \<noteq> 0 then keep_dup_req st c else c)
          in rbind (case cs_ch st of None \<Rightarrow> Inr c | Some a \<Rightarrow> clt_decref a c) (\<lambda>c.
               Inr (c, if ca_done ca then ca_intret ca else timeout_failure, ca_un ca))))"

text \<open>The whole of \<^verbatim>\<open>call1\<close>: \<open>now\<close> is the clock at its start. None: still waiting after the given rounds.\<close>

definition rpcc_call1 ::
  "round list \<Rightarrow> timespec \<Rightarrow> int \<Rightarrow> u32 \<Rightarrow> marshall \<Rightarrow> unmarshall \<Rightarrow> rpcc \<Rightarrow>
   fault + (rpcc \<times> (addr \<times> cells) list \<times> u32 \<times> unmarshall) option" where
  "rpcc_call1 rs now to proc req rep c =
     rbind (call1_begin proc req rep c) (\<lambda>(c, r).
       case r of
         Inl code \<Rightarrow> Inr (Some (c, [], code, rep))
       | Inr st \<Rightarrow>
           rbind (call1_start now to st) (\<lambda>st.
           rbind (call1_rounds rs c st) (\<lambda>res.
             case res of
               None \<Rightarrow> Inr None
             | Some (c, st, out) \<Rightarrow> rbind (call1_end c st) (\<lambda>(c, ret, u). Inr (Some (c, out, ret, u))))))"

text \<open>\<^verbatim>\<open>bind\<close>, over the exchange \<open>call1\<close> as in the stubs.\<close>

definition rpcc_bind :: "rpcc call1 \<Rightarrow> rpcc \<Rightarrow> fault + rpcc \<times> u32" where
  "rpcc_bind call1 c =
     rbind (rpc_call1 call1 (\<lambda>_. get_int) put_int rpc_bind 0 0 c) (\<lambda>(c, ret, r).
       Inr (if ret = 0 then c\<lparr>rc_bind_done := True, rc_srv_nonce := r\<rparr> else c, ret))"

subsection \<open>Replies, cancellation, destruction\<close>

definition clt_got_pdu :: "byte list \<Rightarrow> rpcc \<Rightarrow> fault + rpcc" where
  "clt_got_pdu b c =
     rbind (unpack_reply_header (unmarshall_new b (length b))) (\<lambda>(h, rep).
       if \<not> u_ok rep then Inr c
       else rbind (update_xid_rep (r_xid h) (rc_xid_rep_window c)) (\<lambda>w.
         let c = c\<lparr>rc_xid_rep_window := w\<rparr>
         in case rc_calls c (r_xid h) of
              None \<Rightarrow> Inr c
            | Some ca \<Rightarrow>
                Inr (if \<not> ca_done ca
                     then c\<lparr>rc_calls := (rc_calls c)(r_xid h \<mapsto>
                            ca\<lparr>ca_un := fst (u_take_in (ca_un ca) rep), ca_intret := r_ret h, ca_done := True\<rparr>)\<rparr>
                     else c)))"

text \<open>\<^verbatim>\<open>cancel\<close> up to its wait for the calls to leave the map, and whether it returns.\<close>

definition rpcc_cancel :: "rpcc \<Rightarrow> rpcc" where
  "rpcc_cancel c =
     c\<lparr>rc_calls := (\<lambda>x. map_option (\<lambda>ca. ca\<lparr>ca_done := True, ca_intret := cancel_failure\<rparr>) (rc_calls c x)),
       rc_destroy_wait := (if rc_calls c = Map.empty then rc_destroy_wait c else True)\<rparr>"

definition cancel_returns :: "rpcc \<Rightarrow> bool" where
  "cancel_returns c \<longleftrightarrow> rc_calls c = Map.empty"

definition rpcc_delete :: "rpcc \<Rightarrow> fault + poll_action list" where
  "rpcc_delete c =
     rbind (case rc_chan c of
              None \<Rightarrow> Inr (c, [])
            | Some a \<Rightarrow> rbind (clt_conn a c) (\<lambda>k.
                let (k, acts) = conn_closeconn k
                in rbind (clt_decref a (c\<lparr>rc_heap := (rc_heap c)(a \<mapsto> k)\<rparr>)) (\<lambda>c. Inr (c, acts)))) (\<lambda>(c, acts).
       rbind (verify (rc_calls c = Map.empty)) (\<lambda>_. Inr acts))"

section \<open>The window of received replies\<close>

text \<open>
  The specification of the window for the set \<open>R\<close> of the ids whose reply was received: its front is the largest
  id up to which no reply is missing, the rest are the received ids above the front, in order.
\<close>

definition window_of :: "u32 set \<Rightarrow> u32 list \<Rightarrow> bool" where
  "window_of R w \<longleftrightarrow> w \<noteq> [] \<and> sorted w \<and> (\<forall>m \<le> hd w. m \<in> R) \<and> (hd w \<noteq> -1 \<longrightarrow> hd w + 1 \<notin> R) \<and>
     set w = insert (hd w) {x \<in> R. x > hd w}"

lemma insert_xid_set [simp]: "set (insert_xid x w) = insert x (set w)"
  by (induction x w rule: insert_xid.induct) auto

lemma insert_xid_sorted: "sorted w \<Longrightarrow> sorted (insert_xid x w)"
  by (induction x w rule: insert_xid.induct) (auto simp: not_less)

lemma insert_xid_hd: "w \<noteq> [] \<Longrightarrow> hd w < x \<Longrightarrow> insert_xid x w \<noteq> [] \<and> hd (insert_xid x w) = hd w"
  by (cases w) auto

lemma compress_step:
  fixes x :: u32
  assumes "sorted (before @ [x])" "before \<noteq> []" "hd before + 1 \<notin> set before"
  shows "dropWhile (\<lambda>p. p + 1 = x) before @ [x] = (if hd before + 1 = x then [x] else before @ [x])"
proof (cases "hd before + 1 = x")
  case True
  have "p = hd before" if "p \<in> set before" for p
  proof -
    have "hd before \<le> p" "p \<le> x" using assms(1,2) that by (auto simp: sorted_append neq_Nil_conv)
    moreover have "p \<noteq> x" using assms(3) True that by auto
    ultimately show ?thesis using True inc_le [of "hd before" p] by (auto simp: order.order_iff_strict)
  qed
  then have "dropWhile (\<lambda>p. p + 1 = x) before = []" using True by (auto simp: dropWhile_eq_Nil_conv)
  with True show ?thesis by simp
next
  case False
  then have "dropWhile (\<lambda>p. p + 1 = x) before = before" using assms(2) by (cases before) auto
  with False show ?thesis by simp
qed

lemma compress_spec:
  assumes "sorted (before @ rest)" "before \<noteq> []" "hd before + 1 \<notin> set before" "r = compress before rest"
  shows "r \<noteq> [] \<and> sorted r \<and> hd r + 1 \<notin> set r \<and> set r = {y \<in> set (before @ rest). hd r \<le> y} \<and> hd before \<le> hd r \<and>
    (\<forall>y. hd before < y \<and> y \<le> hd r \<longrightarrow> y \<in> set (before @ rest))"
  using assms
proof (induction before rest rule: compress.induct)
  case (1 before)
  have "hd before \<le> y" if "y \<in> set before" for y using 1 that by (cases before) auto
  with 1 show ?case by auto
next
  case (2 before x rest)
  let ?b = "dropWhile (\<lambda>p. p + 1 = x) before @ [x]"
  have sx: "sorted (before @ [x])" using "2.prems"(1) by (simp add: sorted_append)
  note b = compress_step [OF sx "2.prems"(2,3)]
  have hx: "hd before \<le> x" using "2.prems"(1,2) by (auto simp: sorted_append)
  have s: "sorted (?b @ rest)" using "2.prems"(1) unfolding b by (auto simp: sorted_append)
  have g: "hd ?b + 1 \<notin> set ?b" using "2.prems"(2,3) unfolding b by auto
  have r: "r = compress ?b rest" using "2.prems"(4) by simp
  have ih: "r \<noteq> []" "sorted r" "hd r + 1 \<notin> set r" "set r = {y \<in> set (?b @ rest). hd r \<le> y}" "hd ?b \<le> hd r"
      "\<forall>y. hd ?b < y \<and> y \<le> hd r \<longrightarrow> y \<in> set (?b @ rest)"
    using "2.IH" [OF s snoc_eq_iff_butlast [THEN iffD1, OF refl, THEN conjunct1] g r] by blast+
  have hb: "hd before \<le> hd ?b" using hx "2.prems"(2) unfolding b by auto
  have low: "y < hd ?b" if "y \<in> set (before @ x # rest)" "y \<notin> set (?b @ rest)" for y
  proof -
    have e: "hd before + 1 = x" and y: "y \<in> set before" using that unfolding b by (auto split: if_splits)
    have "y \<le> x" "y \<noteq> x" using sx y that by (auto simp: sorted_append)
    with e show ?thesis unfolding b by simp
  qed
  have sub: "set (?b @ rest) \<subseteq> set (before @ x # rest)" using set_dropWhileD [of _ "\<lambda>p. p + 1 = x" before] by auto
  have "set r = {y \<in> set (before @ x # rest). hd r \<le> y}"
    unfolding ih(4) using sub low ih(5) by fastforce
  moreover have "y \<in> set (before @ x # rest)" if y: "hd before < y" "y \<le> hd r" for y
  proof (cases "hd ?b < y")
    case True
    with ih(6) y sub show ?thesis by blast
  next
    case False
    then have "y \<le> hd ?b" by simp
    with y(1) have "hd before + 1 = x" using "2.prems"(2) unfolding b by (auto split: if_splits)
    with \<open>y \<le> hd ?b\<close> y(1) have "y \<le> x" "x \<le> y" unfolding b using inc_le [of "hd before" y] by auto
    then show ?thesis by simp
  qed
  ultimately show ?case using ih(1,2,3,5) hb by auto
qed

lemma update_xid_rep_spec:
  assumes "window_of R w"
  shows "\<exists>w'. update_xid_rep x w = Inr w' \<and> window_of (insert x R) w' \<and> hd w \<le> hd w'"
proof (cases "x \<le> hd w")
  case True
  with assms have "x \<in> R" by (simp add: window_of_def)
  then have "insert x R = R" by blast
  with True assms show ?thesis by (cases w) (auto simp: window_of_def update_xid_rep_def)
next
  case False
  define v where "v = insert_xid x w"
  define r where "r = compress [hd v] (tl v)"
  have w: "w \<noteq> []" "sorted w" "\<forall>m \<le> hd w. m \<in> R" "set w = insert (hd w) {x \<in> R. x > hd w}"
    using assms by (simp_all add: window_of_def)
  have v: "v \<noteq> []" "hd v = hd w" "sorted v" "set v = insert x (set w)"
    using insert_xid_hd [OF w(1)] False insert_xid_sorted [OF w(2)] by (simp_all add: v_def)
  have e: "[hd v] @ tl v = v" using v(1) by simp
  have "hd [hd v] + 1 \<notin> set [hd v]" by simp
  from compress_spec [of "[hd v]" "tl v" r, unfolded e, OF v(3) not_Cons_self2 this r_def, unfolded list.sel v(2)] have r: "r \<noteq> []" "sorted r" "hd r + 1 \<notin> set r"
      "set r = {y \<in> set v. hd r \<le> y}" "hd w \<le> hd r" "\<forall>y. hd w < y \<and> y \<le> hd r \<longrightarrow> y \<in> set v"
    by blast+
  have sv: "y \<in> set v \<longleftrightarrow> y \<in> insert x R" if "hd w < y" for y using that v(4) w(4) by auto
  have low: "\<forall>m \<le> hd r. m \<in> insert x R"
  proof (intro allI impI)
    fix m assume "m \<le> hd r"
    with r(6) sv w(3) show "m \<in> insert x R" by (cases "hd w < m") auto
  qed
  moreover have "hd r + 1 \<notin> insert x R" if "hd r \<noteq> -1"
  proof -
    have "hd r < hd r + 1" by (rule word_less_succ [OF that])
    then have "hd w < hd r + 1" "hd r \<le> hd r + 1" using r(5) by auto
    with r(3,4) sv show ?thesis by blast
  qed
  moreover have "set r = insert (hd r) {y \<in> insert x R. y > hd r}"
  proof -
    have "y \<in> set v \<longleftrightarrow> y \<in> insert x R" if "hd r < y" for y using sv that r(5) by (meson le_less_trans)
    moreover have "hd r \<in> set v" using r(1,4) hd_in_set by blast
    ultimately show ?thesis unfolding r(4) by (auto simp: order.order_iff_strict)
  qed
  ultimately have "window_of (insert x R) r" using r(1,2) by (simp add: window_of_def)
  moreover have "update_xid_rep x w = Inr r"
    using False w(1) by (cases w) (simp_all add: update_xid_rep_def Let_def r_def v_def)
  ultimately show ?thesis using r(5) by blast
qed

primrec report_all :: "u32 list \<Rightarrow> u32 list \<Rightarrow> fault + u32 list" where
  "report_all [] w = Inr w"
| "report_all (x # xs) w = rbind (update_xid_rep x w) (report_all xs)"

lemma window_of_new: "window_of {0} [0]"
  by (auto simp: window_of_def)

lemma report_all_spec: "window_of R w \<Longrightarrow> \<exists>w'. report_all xs w = Inr w' \<and> window_of (R \<union> set xs) w'"
proof (induction xs arbitrary: R w)
  case (Cons x xs)
  obtain w1 where w1: "update_xid_rep x w = Inr w1" "window_of (insert x R) w1"
    using update_xid_rep_spec [OF Cons.prems] by blast
  from Cons.IH [OF w1(2)] w1(1) show ?case by simp
qed simp

text \<open>
  C14. The window of the client: whatever replies are reported, in whatever order and however often, \<^verbatim>\<open>update_xid_rep\<close>
  keeps exactly the set of received ids, compressed: the front is the largest id with no gap below it, so the
  \<^verbatim>\<open>xid_rep\<close> a request carries never skips a missing reply, and the rest of the list are the received ids above.
\<close>

theorem update_xid_rep_window:
  "\<exists>w. report_all xs [0] = Inr w \<and> window_of (insert 0 (set xs)) w"
  using report_all_spec [OF window_of_new, of xs] by simp

section \<open>Deadlines\<close>

lemma add_timespec_ok:
  assumes "normal a" "0 \<le> b"
  obtains t where "add_timespec a b = Inr t" "nanos t = nanos a + b * 1000000" "0 \<le> tv_nsec t" "tv_nsec t \<le> 1000000000"
proof -
  have m: "0 \<le> b mod 1000" "b mod 1000 < 1000" "b = 1000 * (b div 1000) + b mod 1000" by simp_all
  define n where "n = tv_nsec a + b mod 1000 * 1000000"
  have n: "0 \<le> n" "n < 2000000000" using m(1,2) assms(1) unfolding n_def normal_def by linarith+
  have "b * 1000000 = 1000000000 * (b div 1000) + b mod 1000 * 1000000" using m(3) by linarith
  with n that add_timespec_eq [OF assms] show thesis
    by (auto simp: Let_def nanos_def n_def [symmetric] split: if_splits)
qed

lemma cmp_timespec_later:
  assumes "0 \<le> tv_nsec a" "tv_nsec a \<le> 1000000000" "0 \<le> tv_nsec b" "tv_nsec b \<le> 1000000000" "nanos b < nanos a"
  shows "cmp_timespec a b > 0"
  using assms by (auto simp: cmp_timespec_def nanos_def)

lemma call1_transmit_frame:
  assumes "call1_transmit fresh c st = Inr (c', st', out)"
  shows "cs_curr_to st' = cs_curr_to st \<and> cs_finaldeadline st' = cs_finaldeadline st \<and> cs_xid st' = cs_xid st"
proof (cases "cs_transmit st")
  case True
  then obtain c1 ch where g: "get_refconn fresh (cs_ch st) c = Inr (c1, ch)"
    using assms by (cases "get_refconn fresh (cs_ch st) c") (auto simp: call1_transmit_def)
  show ?thesis
  proof (cases ch)
    case None
    with True g assms show ?thesis by (auto simp: call1_transmit_def)
  next
    case (Some a)
    with True g assms show ?thesis by (cases "rc_reachable c1") (auto simp: call1_transmit_def Let_def)
  qed
qed (use assms in \<open>simp add: call1_transmit_def\<close>)

text \<open>How far the loop has come: the last wait is over, or \<open>k\<close> waits timed out before the final deadline.\<close>

definition loop_bound :: "int \<Rightarrow> nat \<Rightarrow> nat \<Rightarrow> call_st \<Rightarrow> bool" where
  "loop_bound T k n st \<longleftrightarrow>
     tv_sec (cs_finaldeadline st) = 0 \<and> 0 < n \<or>
     k \<le> 7 \<and> cs_curr_to st = 1000 * 2 ^ k \<and> 9 \<le> n + k \<and> 0 \<le> tv_nsec (cs_finaldeadline st) \<and>
     tv_nsec (cs_finaldeadline st) \<le> 1000000000 \<and> nanos (cs_finaldeadline st) \<le> T + to_max * 1000000"

lemma call1_arm_bound:
  assumes "loop_bound T k (Suc n) st" "normal now" "T \<le> nanos now"
  shows "call1_arm now st = Inr None \<or>
    (\<exists>st'. call1_arm now st = Inr (Some st') \<and> cs_xid st' = cs_xid st \<and>
       (tv_sec (cs_finaldeadline st') = 0 \<and> 0 < n \<or> k \<le> 6 \<and> tv_sec (cs_finaldeadline st') \<noteq> 0 \<and> loop_bound T k (Suc n) st'))"
proof (cases "tv_sec (cs_finaldeadline st) = 0")
  case False
  with assms(1) have b: "k \<le> 7" "cs_curr_to st = 1000 * 2 ^ k" "9 \<le> Suc n + k" "0 \<le> tv_nsec (cs_finaldeadline st)"
      "tv_nsec (cs_finaldeadline st) \<le> 1000000000" "nanos (cs_finaldeadline st) \<le> T + to_max * 1000000"
    by (simp_all add: loop_bound_def)
  obtain t where t: "add_timespec now (cs_curr_to st) = Inr t" "nanos t = nanos now + cs_curr_to st * 1000000"
      "0 \<le> tv_nsec t" "tv_nsec t \<le> 1000000000"
    using add_timespec_ok [OF assms(2), of "cs_curr_to st"] b(2) by auto
  show ?thesis
  proof (cases "cmp_timespec t (cs_finaldeadline st) > 0")
    case True
    with False t(1) b(1,3) show ?thesis by (simp add: call1_arm_def)
  next
    case le: False
    with cmp_timespec_later [OF t(3,4) b(4,5)] have "nanos t \<le> nanos (cs_finaldeadline st)" by force
    with t(2) b(2,6) assms(3) have "(2 :: int) ^ k \<le> 120" by (simp add: to_max_def)
    with b(1) have "k \<le> 6" by (cases "k = 7") auto
    with False le t(1) b show ?thesis by (auto simp: call1_arm_def loop_bound_def)
  qed
qed (simp add: call1_arm_def)

lemma call1_rounds_stop:
  assumes "loop_bound T k (length rs) st" "\<forall>r \<in> set rs. normal (rd_now r) \<and> T \<le> nanos (rd_now r)"
  shows "call1_rounds rs c st \<noteq> Inr None"
  using assms
proof (induction rs arbitrary: c st k)
  case Nil
  then show ?case by (auto simp: loop_bound_def)
next
  case (Cons r rs)
  show ?case
  proof (cases "call1_transmit (rd_fresh r) c st")
    case (Inr p)
    obtain c1 st1 out where p: "p = (c1, st1, out)" by (cases p)
    note fr = call1_transmit_frame [OF Inr [unfolded p]]
    have b1: "loop_bound T k (Suc (length rs)) st1" using Cons.prems(1) fr by (simp add: loop_bound_def)
    from call1_arm_bound [OF b1, of "rd_now r"] Cons.prems(2)
    consider "call1_arm (rd_now r) st1 = Inr None"
      | st2 where "call1_arm (rd_now r) st1 = Inr (Some st2)"
          "tv_sec (cs_finaldeadline st2) = 0 \<and> 0 < length rs \<or> k \<le> 6 \<and> tv_sec (cs_finaldeadline st2) \<noteq> 0 \<and> loop_bound T k (Suc (length rs)) st2"
      by auto
    then show ?thesis
    proof cases
      case 1
      with Inr p show ?thesis by simp
    next
      case 2
      have "call1_rounds rs c2 st3 \<noteq> Inr None" if "call1_timeout c2 st2 = Inr st3" for c2 st3
      proof -
        have st3: "cs_curr_to st3 = to_int32 (2 * cs_curr_to st2)" "cs_finaldeadline st3 = cs_finaldeadline st2"
          using that by (auto simp: call1_timeout_def rbind_eq_Inr)
        have "loop_bound T (Suc k) (length rs) st3"
        proof (cases "tv_sec (cs_finaldeadline st2) = 0 \<and> 0 < length rs")
          case True
          with st3 show ?thesis by (simp add: loop_bound_def)
        next
          case False
          with 2(2) have k: "k \<le> 6" "tv_sec (cs_finaldeadline st2) \<noteq> 0" "loop_bound T k (Suc (length rs)) st2" by auto
          have "(2 :: int) ^ Suc k \<le> 2 ^ 7" using k(1) by (intro power_increasing) auto
          then have "to_int32 (2 * (1000 * 2 ^ k)) = 1000 * 2 ^ Suc k" by (subst to_int32_id) (auto intro: order_trans [of _ 0])
          with k st3 show ?thesis by (simp add: loop_bound_def)
        qed
        with Cons show ?thesis by simp
      qed
      moreover have "call1_rounds (r # rs) c st = (let c2 = rd_env r c1 in
          if call_done (cs_xid st2) c2 then Inr (Some (c2, st2, out))
          else rbind (call1_timeout c2 st2) (\<lambda>st3. rbind (call1_rounds rs c2 st3) (\<lambda>res.
            Inr (map_option (\<lambda>(c, st, out'). (c, st, out @ out')) res))))"
        by (simp add: Inr p 2(1))
      ultimately show ?thesis
        by (auto simp: Let_def rbind_eq_Inr split: if_splits)
    qed
  qed simp
qed



section \<open>Histories of a client\<close>

text \<open>
  The calls that enter and leave the client, the PDUs that arrive and the cancellations, in any order; the last
  two rules are binding and everything that concerns the connection only.
\<close>

datatype client_event = Called u32 | Reply_In "byte list" | Cancelled | Returned u32 u32

inductive client_run :: "rpcc \<Rightarrow> client_event list \<Rightarrow> rpcc \<Rightarrow> bool" for c0 where
  cr_nil: "client_run c0 [] c0"
| cr_call: "client_run c0 es c \<Longrightarrow> call1_begin proc req rep c = Inr (c', Inr st) \<Longrightarrow> client_run c0 (es @ [Called (cs_xid st)]) c'"
| cr_reply: "client_run c0 es c \<Longrightarrow> clt_got_pdu bs c = Inr c' \<Longrightarrow> client_run c0 (es @ [Reply_In bs]) c'"
| cr_cancel: "client_run c0 es c \<Longrightarrow> client_run c0 (es @ [Cancelled]) (rpcc_cancel c)"
| cr_return: "client_run c0 es c \<Longrightarrow> call1_end c st = Inr (c', r, u) \<Longrightarrow> client_run c0 (es @ [Returned (cs_xid st) r]) c'"
| cr_bind: "client_run c0 es c \<Longrightarrow> client_run c0 es (c\<lparr>rc_bind_done := True, rc_srv_nonce := n\<rparr>)"
| cr_conn: "client_run c0 es c \<Longrightarrow>
    client_run c0 es (c\<lparr>rc_chan := a, rc_heap := h, rc_dup_req := d, rc_reachable := b\<rparr>)"

definition carries :: "byte list \<Rightarrow> reply_header \<Rightarrow> bool" where
  "carries bs h \<longleftrightarrow> (\<exists>u. unpack_reply_header (unmarshall_new bs (length bs)) = Inr (h, u) \<and> u_ok u)"

lemma call1_begin_frame:
  assumes "call1_begin proc req rep c = Inr (c', Inr st)"
  shows "cs_xid st = rc_xid c \<and> c' = c\<lparr>rc_xid := rc_xid c + 1, rc_calls := (rc_calls c)(rc_xid c \<mapsto> caller_new rep)\<rparr> \<and>
    rc_xid_rep_window c \<noteq> [] \<and> cs_xid_rep st = hd (rc_xid_rep_window c)"
proof (cases "rc_xid_rep_window c")
  case Nil
  with assms show ?thesis by (simp add: call1_begin_def Let_def split: if_splits)
next
  case (Cons f w)
  let ?h = "\<lparr>h_xid = rc_xid c, h_proc = proc, h_clt_nonce = rc_clt_nonce c, h_srv_nonce = rc_srv_nonce c, h_xid_rep = f\<rparr>"
  from assms Cons show ?thesis
    by (cases "pack_req_header ?h req") (auto simp: call1_begin_def Let_def split: if_splits)
qed

lemma clt_got_pdu_cases:
  assumes "clt_got_pdu bs c = Inr c'"
  obtains (Bad) "c' = c"
  | (Late) h w where "carries bs h" "update_xid_rep (r_xid h) (rc_xid_rep_window c) = Inr w"
      "c' = c\<lparr>rc_xid_rep_window := w\<rparr>" "\<forall>ca. rc_calls c (r_xid h) = Some ca \<longrightarrow> ca_done ca"
  | (Fresh) h w ca u where "carries bs h" "update_xid_rep (r_xid h) (rc_xid_rep_window c) = Inr w"
      "rc_calls c (r_xid h) = Some ca" "\<not> ca_done ca"
      "c' = c\<lparr>rc_xid_rep_window := w, rc_calls := (rc_calls c)(r_xid h \<mapsto> ca\<lparr>ca_un := u, ca_intret := r_ret h, ca_done := True\<rparr>)\<rparr>"
proof (cases "unpack_reply_header (unmarshall_new bs (length bs))")
  case (Inr p)
  obtain h rep where p: "p = (h, rep)" by (cases p)
  show thesis
  proof (cases "u_ok rep")
    case True
    with Inr p have h: "carries bs h" by (auto simp: carries_def)
    obtain w where w: "update_xid_rep (r_xid h) (rc_xid_rep_window c) = Inr w"
      using assms by (cases "update_xid_rep (r_xid h) (rc_xid_rep_window c)") (simp_all add: clt_got_pdu_def Inr p True)
    show thesis
    proof (cases "rc_calls c (r_xid h)")
      case None
      have "c' = c\<lparr>rc_xid_rep_window := w\<rparr>" using assms by (simp add: clt_got_pdu_def Let_def Inr p True w None)
      then show thesis by (rule Late [OF h w]) (simp add: None)
    next
      case (Some ca)
      show thesis
      proof (cases "ca_done ca")
        case True
        have "c' = c\<lparr>rc_xid_rep_window := w\<rparr>"
          using assms by (simp add: clt_got_pdu_def Let_def Inr p \<open>u_ok rep\<close> w Some True)
        then show thesis by (rule Late [OF h w]) (simp add: Some True)
      next
        case False
        have "c' = c\<lparr>rc_xid_rep_window := w, rc_calls := (rc_calls c)(r_xid h \<mapsto>
            ca\<lparr>ca_un := fst (u_take_in (ca_un ca) rep), ca_intret := r_ret h, ca_done := True\<rparr>)\<rparr>"
          using assms by (simp add: clt_got_pdu_def Let_def Inr p \<open>u_ok rep\<close> w Some False)
        then show thesis by (rule Fresh [OF h w Some False])
      qed
    qed
  next
    case False
    with assms Inr p have "c' = c" by (simp add: clt_got_pdu_def)
    then show thesis by (rule Bad)
  qed
qed (use assms in \<open>simp add: clt_got_pdu_def\<close>)

lemma keep_dup_req_frame [simp]:
  "rc_calls (keep_dup_req st c) = rc_calls c" "rc_xid_rep_window (keep_dup_req st c) = rc_xid_rep_window c"
  "rc_xid (keep_dup_req st c) = rc_xid c"
  by (simp_all add: keep_dup_req_def Let_def)

lemma clt_decref_frame:
  assumes "clt_decref a c = Inr c'"
  shows "rc_calls c' = rc_calls c" "rc_xid_rep_window c' = rc_xid_rep_window c" "rc_xid c' = rc_xid c"
  using assms unfolding clt_decref_def rbind_eq_Inr by auto

lemma call1_end_cases:
  assumes "call1_end c st = Inr (c', r, u)"
  obtains ca w where "rc_calls c (cs_xid st) = Some ca" "update_xid_rep (cs_xid st) (rc_xid_rep_window c) = Inr w"
    "r = (if ca_done ca then ca_intret ca else timeout_failure)"
    "rc_calls c' = (rc_calls c)(cs_xid st := None)" "rc_xid_rep_window c' = w" "rc_xid c' = rc_xid c"
proof -
  obtain ca where ca: "rc_calls c (cs_xid st) = Some ca"
    using assms by (cases "rc_calls c (cs_xid st)") (simp_all add: call1_end_def)
  obtain w where w: "update_xid_rep (cs_xid st) (rc_xid_rep_window c) = Inr w"
    using assms ca by (cases "update_xid_rep (cs_xid st) (rc_xid_rep_window c)") (simp_all add: call1_end_def)
  define c1 where "c1 = c\<lparr>rc_calls := (rc_calls c)(cs_xid st := None), rc_xid_rep_window := w\<rparr>"
  define d where "d = (if ca_done ca \<and> rc_lossytest c1 \<noteq> 0 then keep_dup_req st c1 else c1)"
  have d: "rc_calls d = (rc_calls c)(cs_xid st := None)" "rc_xid_rep_window d = w" "rc_xid d = rc_xid c"
    by (simp_all add: d_def c1_def)
  have e: "rbind (case cs_ch st of None \<Rightarrow> Inr d | Some a \<Rightarrow> clt_decref a d) (\<lambda>c.
         Inr (c, if ca_done ca then ca_intret ca else timeout_failure, ca_un ca)) = Inr (c', r, u)"
    using assms unfolding call1_end_def d_def c1_def by (simp only: ca w option.case rbind_simps Let_def)
  show thesis
  proof (cases "cs_ch st")
    case None
    with e d that [OF ca w] show thesis by simp
  next
    case (Some a)
    with e obtain c2 where c2: "clt_decref a d = Inr c2" by (cases "clt_decref a d") simp_all
    with e Some have "c' = c2" "r = (if ca_done ca then ca_intret ca else timeout_failure)" by simp_all
    with clt_decref_frame [OF c2] d that [OF ca w] show thesis by simp
  qed
qed

section \<open>What the client promises\<close>

lemma client_done:
  assumes "client_run (rpcc_new nonce lossy retrans) es c" "rc_calls c x = Some ca" "ca_done ca"
  shows "ca_intret ca = cancel_failure \<or> (\<exists>bs h. Reply_In bs \<in> set es \<and> carries bs h \<and> r_xid h = x \<and> r_ret h = ca_intret ca)"
  using assms
proof (induction arbitrary: x ca rule: client_run.induct)
  case cr_nil
  then show ?case by (simp add: rpcc_new_def)
next
  case (cr_call es c proc req rep c' st)
  from call1_begin_frame [OF cr_call.hyps(2)] cr_call.prems
  have "rc_calls c x = Some ca" by (auto simp: caller_new_def split: if_splits)
  from cr_call.IH [OF this cr_call.prems(2)] show ?case by auto
next
  case (cr_reply es c bs c')
  from cr_reply.hyps(2) show ?case
  proof (cases rule: clt_got_pdu_cases)
    case Bad
    with cr_reply.IH [of x ca] cr_reply.prems show ?thesis by auto
  next
    case (Late h w)
    then have "rc_calls c x = Some ca" using cr_reply.prems(1) by simp
    from cr_reply.IH [OF this cr_reply.prems(2)] show ?thesis by auto
  next
    case (Fresh h w ca' u)
    show ?thesis
    proof (cases "x = r_xid h")
      case True
      with Fresh cr_reply.prems(1) have "ca_intret ca = r_ret h" by auto
      with Fresh(1) True show ?thesis by auto
    next
      case False
      with Fresh cr_reply.prems(1) have "rc_calls c x = Some ca" by simp
      from cr_reply.IH [OF this cr_reply.prems(2)] show ?thesis by auto
    qed
  qed
next
  case (cr_cancel es c)
  then show ?case by (auto simp: rpcc_cancel_def)
next
  case (cr_return es c st c' r u)
  from cr_return.hyps(2) obtain w where "rc_calls c' = (rc_calls c)(cs_xid st := None)" by (rule call1_end_cases)
  with cr_return.prems(1) have "rc_calls c x = Some ca" by (simp split: if_splits)
  from cr_return.IH [OF this cr_return.prems(2)] show ?case by auto
qed simp_all


definition demo_reply :: "byte list" where
  "demo_reply = replicate 4 0 @ be32 1 @ be32 42 @ replicate 12 0"

definition demo_client :: "fault + rpcc \<times> call_st" where
  "demo_client =
     rbind (call1_begin rpc_bind marshall_new unmarshall_empty (rpcc_new 7 0 True)) (\<lambda>(c, r).
       case r of
         Inl _ \<Rightarrow> Inl Verify_Failed
       | Inr st \<Rightarrow> rbind (clt_got_pdu demo_reply c) (\<lambda>c. Inr (c, st)))"

lemma demo_client_run:
  assumes "demo_client = Inr (c, st)"
  shows "cs_xid st = 1" "client_run (rpcc_new 7 0 True) [Called 1, Reply_In demo_reply] c"
proof -
  obtain c1 b where b: "call1_begin rpc_bind marshall_new unmarshall_empty (rpcc_new 7 0 True) = Inr (c1, b)"
    using assms unfolding demo_client_def rbind_eq_Inr by auto
  then obtain st' where st': "b = Inr st'" using assms by (cases b) (simp_all add: demo_client_def)
  with assms b have g: "clt_got_pdu demo_reply c1 = Inr c" "st' = st"
    by (cases "clt_got_pdu demo_reply c1"; simp add: demo_client_def)+
  show x: "cs_xid st = 1" using call1_begin_frame [OF b [unfolded st']] g(2) by (simp add: rpcc_new_def)
  from cr_reply [OF cr_call [OF cr_nil b [unfolded st']] g(1)] x g(2)
  show "client_run (rpcc_new 7 0 True) [Called 1, Reply_In demo_reply] c" by simp
qed


text \<open>Every reply that arrives answers a call made before.\<close>

definition honest_replies :: "client_event list \<Rightarrow> bool" where
  "honest_replies es \<longleftrightarrow>
     (\<forall>es1 bs es2 h. es = es1 @ Reply_In bs # es2 \<longrightarrow> carries bs h \<longrightarrow> Called (r_xid h) \<in> set es1)"

lemma honest_replies_prefix: "honest_replies (es @ es') \<Longrightarrow> honest_replies es"
  unfolding honest_replies_def by (metis append.assoc append_Cons)

definition calls_of :: "client_event list \<Rightarrow> nat" where
  "calls_of es = length (filter (\<lambda>e. case e of Called _ \<Rightarrow> True | _ \<Rightarrow> False) es)"

lemma calls_of_snoc [simp]:
  "calls_of [] = 0" "calls_of (es @ [Called x]) = Suc (calls_of es)" "calls_of (es @ [Reply_In bs]) = calls_of es"
  "calls_of (es @ [Cancelled]) = calls_of es" "calls_of (es @ [Returned x r]) = calls_of es"
  by (simp_all add: calls_of_def)

text \<open>Ids are handed out in order; an outstanding call whose id counts as received is finished.\<close>

definition client_inv :: "client_event list \<Rightarrow> rpcc \<Rightarrow> bool" where
  "client_inv es c \<longleftrightarrow> rc_xid c = of_nat (Suc (calls_of es)) \<and>
     (\<forall>x. Called x \<in> set es \<longleftrightarrow> (\<exists>k. 0 < k \<and> k \<le> calls_of es \<and> x = of_nat k)) \<and>
     (\<forall>x ca. rc_calls c x = Some ca \<longrightarrow> Called x \<in> set es) \<and>
     (\<exists>R. window_of R (rc_xid_rep_window c) \<and> (\<forall>x \<in> R. x = 0 \<or> Called x \<in> set es) \<and>
        (\<forall>x ca. rc_calls c x = Some ca \<and> x \<in> R \<longrightarrow> ca_done ca))"

lemma client_inv_frame [simp]:
  "client_inv es (c\<lparr>rc_bind_done := b, rc_srv_nonce := n\<rparr>) \<longleftrightarrow> client_inv es c"
  "client_inv es (c\<lparr>rc_chan := a, rc_heap := h, rc_dup_req := d, rc_reachable := b\<rparr>) \<longleftrightarrow> client_inv es c"
  unfolding client_inv_def by simp_all

lemma client_inv_ids:
  assumes "client_inv es c"
  shows "rc_xid c = of_nat (Suc (calls_of es))"
    "\<forall>x. Called x \<in> set es \<longleftrightarrow> (\<exists>k. 0 < k \<and> k \<le> calls_of es \<and> x = of_nat k)"
    "\<forall>x ca. rc_calls c x = Some ca \<longrightarrow> Called x \<in> set es"
  using assms unfolding client_inv_def by blast+

lemma client_invI:
  assumes "client_inv es c" "rc_xid c' = rc_xid c" "calls_of es' = calls_of es" "\<forall>x. Called x \<in> set es' \<longleftrightarrow> Called x \<in> set es"
    "\<forall>x. rc_calls c x = None \<longrightarrow> rc_calls c' x = None" "window_of R (rc_xid_rep_window c')"
    "\<forall>x \<in> R. x = 0 \<or> Called x \<in> set es" "\<forall>x ca. rc_calls c' x = Some ca \<and> x \<in> R \<longrightarrow> ca_done ca"
  shows "client_inv es' c'"
proof -
  have "\<forall>x ca. rc_calls c' x = Some ca \<longrightarrow> Called x \<in> set es'"
  proof (intro allI impI)
    fix x ca assume "rc_calls c' x = Some ca"
    with assms(5) have "rc_calls c x \<noteq> None" by auto
    with client_inv_ids(3) [OF assms(1)] assms(4) show "Called x \<in> set es'" by auto
  qed
  moreover have "\<forall>x \<in> R. x = 0 \<or> Called x \<in> set es'" using assms(4,7) by blast
  ultimately show ?thesis
    unfolding client_inv_def assms(2,3) client_inv_ids(1) [OF assms(1)] using client_inv_ids(2) [OF assms(1)] assms(4,6,8)
    by blast
qed

lemma of_nat_u32_eq: "j < 2 ^ 32 \<Longrightarrow> k < 2 ^ 32 \<Longrightarrow> (of_nat j :: u32) = of_nat k \<longleftrightarrow> j = k"
  by (simp add: word_of_nat_eq_iff take_bit_nat_eq_self)

lemma client_inv_run:
  assumes "client_run (rpcc_new nonce lossy retrans) es c" "honest_replies es" "calls_of es < 2 ^ 32 - 1"
  shows "client_inv es c"
  using assms
proof (induction rule: client_run.induct)
  case cr_nil
  then show ?case using window_of_new by (auto simp: client_inv_def rpcc_new_def intro!: exI [of _ "{0}"])
next
  case (cr_call es c proc req rep c' st)
  note fr = call1_begin_frame [OF cr_call.hyps(2)]
  have inv: "client_inv es c" using cr_call.IH honest_replies_prefix [OF cr_call.prems(1)] cr_call.prems(2) by simp
  define n where "n = calls_of es"
  have n: "n < 2 ^ 32 - 2" using cr_call.prems(2) by (simp add: n_def)
  have fresh: "\<not> Called (of_nat (Suc n)) \<in> set es" "(of_nat (Suc n) :: u32) \<noteq> 0"
    using inv n of_nat_u32_eq [of "Suc n"] of_nat_u32_eq [of "Suc n" 0] by (auto simp: client_inv_def n_def [symmetric])
  obtain R where R: "window_of R (rc_xid_rep_window c)" "\<forall>x \<in> R. x = 0 \<or> Called x \<in> set es"
      "\<forall>x ca. rc_calls c x = Some ca \<and> x \<in> R \<longrightarrow> ca_done ca"
    using inv by (auto simp: client_inv_def)
  have "of_nat (Suc n) \<notin> R" using R(2) fresh by blast
  then have R3: "\<forall>x ca. rc_calls c' x = Some ca \<and> x \<in> R \<longrightarrow> ca_done ca"
    using R(3) fr inv by (auto simp: client_inv_def n_def)
  have "(Called x \<in> set (es @ [Called (cs_xid st)])) = (\<exists>k. 0 < k \<and> k \<le> Suc n \<and> x = of_nat k)" for x
    using inv fr by (auto simp: client_inv_def n_def le_Suc_eq)
  then have called: "\<forall>x. (Called x \<in> set (es @ [Called (cs_xid st)])) =
      (\<exists>k. 0 < k \<and> k \<le> calls_of (es @ [Called (cs_xid st)]) \<and> x = of_nat k)"
    by (simp add: n_def)
  have dom: "\<forall>x ca. rc_calls c' x = Some ca \<longrightarrow> Called x \<in> set (es @ [Called (cs_xid st)])"
    using inv fr unfolding client_inv_def by (auto split: if_splits)
  have "\<forall>x \<in> R. x = 0 \<or> Called x \<in> set (es @ [Called (cs_xid st)])" using R(2) by auto
  moreover have "window_of R (rc_xid_rep_window c')" using R(1) fr by simp
  moreover have "rc_xid c' = of_nat (Suc (calls_of (es @ [Called (cs_xid st)])))"
    using inv fr by (simp add: client_inv_def)
  ultimately show ?case using called dom R3 unfolding client_inv_def by blast
next
  case (cr_reply es c bs c')
  have inv: "client_inv es c" using cr_reply.IH honest_replies_prefix [OF cr_reply.prems(1)] cr_reply.prems(2) by simp
  then obtain R where R: "window_of R (rc_xid_rep_window c)" "\<forall>x \<in> R. x = 0 \<or> Called x \<in> set es"
      "\<forall>x ca. rc_calls c x = Some ca \<and> x \<in> R \<longrightarrow> ca_done ca"
    by (auto simp: client_inv_def)
  have h: "Called (r_xid h) \<in> set es" if "carries bs h" for h
    using cr_reply.prems(1) that unfolding honest_replies_def by blast
  from cr_reply.hyps(2) show ?case
  proof (cases rule: clt_got_pdu_cases)
    case Bad
    with R show ?thesis by (intro client_invI [OF inv]) simp_all
  next
    case (Late h' w)
    obtain w' where w': "update_xid_rep (r_xid h') (rc_xid_rep_window c) = Inr w'" "window_of (insert (r_xid h') R) w'"
      using update_xid_rep_spec [OF R(1)] by blast
    with Late(2) have W: "window_of (insert (r_xid h') R) (rc_xid_rep_window c')" using Late(3) by simp
    have D: "\<forall>x ca. rc_calls c' x = Some ca \<and> x \<in> insert (r_xid h') R \<longrightarrow> ca_done ca" using Late(3,4) R(3) by auto
    have B: "\<forall>x \<in> insert (r_xid h') R. x = 0 \<or> Called x \<in> set es" using R(2) h [OF Late(1)] by auto
    show ?thesis by (rule client_invI [OF inv _ _ _ _ W B D]) (simp_all add: Late(3))
  next
    case (Fresh h' w ca' u)
    obtain w' where w': "update_xid_rep (r_xid h') (rc_xid_rep_window c) = Inr w'" "window_of (insert (r_xid h') R) w'"
      using update_xid_rep_spec [OF R(1)] by blast
    with Fresh(2) have W: "window_of (insert (r_xid h') R) (rc_xid_rep_window c')" using Fresh(5) by simp
    have D: "\<forall>x ca. rc_calls c' x = Some ca \<and> x \<in> insert (r_xid h') R \<longrightarrow> ca_done ca" using Fresh(5) R(3) by auto
    have B: "\<forall>x \<in> insert (r_xid h') R. x = 0 \<or> Called x \<in> set es" using R(2) h [OF Fresh(1)] by auto
    show ?thesis by (rule client_invI [OF inv _ _ _ _ W B D]) (simp_all add: Fresh(3,5))
  qed
next
  case (cr_cancel es c)
  have inv: "client_inv es c" using cr_cancel.IH honest_replies_prefix [OF cr_cancel.prems(1)] cr_cancel.prems(2) by simp
  then obtain R where R: "window_of R (rc_xid_rep_window c)" "\<forall>x \<in> R. x = 0 \<or> Called x \<in> set es"
    by (auto simp: client_inv_def)
  have W: "window_of R (rc_xid_rep_window (rpcc_cancel c))" using R(1) by (simp add: rpcc_cancel_def)
  have D: "\<forall>x ca. rc_calls (rpcc_cancel c) x = Some ca \<and> x \<in> R \<longrightarrow> ca_done ca" by (auto simp: rpcc_cancel_def)
  show ?case by (rule client_invI [OF inv _ _ _ _ W R(2) D]) (simp_all add: rpcc_cancel_def)
next
  case (cr_return es c st c' r u)
  have inv: "client_inv es c" using cr_return.IH honest_replies_prefix [OF cr_return.prems(1)] cr_return.prems(2) by simp
  then obtain R where R: "window_of R (rc_xid_rep_window c)" "\<forall>x \<in> R. x = 0 \<or> Called x \<in> set es"
      "\<forall>x ca. rc_calls c x = Some ca \<and> x \<in> R \<longrightarrow> ca_done ca"
    by (auto simp: client_inv_def)
  from cr_return.hyps(2) obtain ca w where e: "rc_calls c (cs_xid st) = Some ca"
      "update_xid_rep (cs_xid st) (rc_xid_rep_window c) = Inr w"
      "rc_calls c' = (rc_calls c)(cs_xid st := None)" "rc_xid_rep_window c' = w" "rc_xid c' = rc_xid c"
    by (rule call1_end_cases)
  have W: "window_of (insert (cs_xid st) R) (rc_xid_rep_window c')" using update_xid_rep_spec [OF R(1), of "cs_xid st"] e(2,4) by auto
  have B: "\<forall>x \<in> insert (cs_xid st) R. x = 0 \<or> Called x \<in> set es" using R(2) inv e(1) by (auto simp: client_inv_def)
  have D: "\<forall>x ca. rc_calls c' x = Some ca \<and> x \<in> insert (cs_xid st) R \<longrightarrow> ca_done ca" using e(3) R(3) by auto
  show ?case by (rule client_invI [OF inv _ _ _ _ W B D]) (simp_all add: e(3,5))
qed simp_all

text \<open>
  C20. What a request tells the server with \<^verbatim>\<open>xid_rep\<close> is true: as long as replies answer calls that were made and
  fewer than \<^verbatim>\<open>2^32 - 1\<close> calls were made, every id up to the front of the window belongs to a call that was made
  and is not waiting for its reply any more.
\<close>

theorem client_xid_rep_sound:
  assumes "client_run (rpcc_new nonce lossy retrans) es c" "honest_replies es" "calls_of es < 2 ^ 32 - 1"
  shows "rc_xid_rep_window c \<noteq> [] \<and>
    (\<forall>x. 0 < x \<and> x \<le> hd (rc_xid_rep_window c) \<longrightarrow>
       Called x \<in> set es \<and> (\<forall>ca. rc_calls c x = Some ca \<longrightarrow> ca_done ca))"
proof -
  obtain R where R: "window_of R (rc_xid_rep_window c)" "\<forall>x \<in> R. x = 0 \<or> Called x \<in> set es"
      "\<forall>x ca. rc_calls c x = Some ca \<and> x \<in> R \<longrightarrow> ca_done ca"
    using client_inv_run [OF assms] by (auto simp: client_inv_def)
  then show ?thesis unfolding window_of_def by fastforce
qed

theorem client_xid_rep_sound_witness:
  "\<exists>c st. demo_client = Inr (c, st) \<and> rc_xid_rep_window c = [1] \<and>
     (\<forall>ca. rc_calls c 1 = Some ca \<longrightarrow> ca_done ca)"
proof -
  have "case demo_client of Inl _ \<Rightarrow> False | Inr (c, st) \<Rightarrow> rc_xid_rep_window c = [1]" by code_simp
  then obtain c st where e: "demo_client = Inr (c, st)" "rc_xid_rep_window c = [1]" by (auto split: sum.splits)
  have u: "case unpack_reply_header (unmarshall_new demo_reply (length demo_reply)) of Inl _ \<Rightarrow> False | Inr (h, _) \<Rightarrow> r_xid h = 1"
    by code_simp
  have "honest_replies [Called 1, Reply_In demo_reply]"
    using u by (auto simp: honest_replies_def carries_def Cons_eq_append_conv)
  moreover have "calls_of [Called 1, Reply_In demo_reply] < 2 ^ 32 - 1" by (simp add: calls_of_def)
  ultimately have "\<forall>ca. rc_calls c 1 = Some ca \<longrightarrow> ca_done ca"
    using client_xid_rep_sound [OF demo_client_run(2) [OF e(1)], THEN conjunct2, THEN spec, of 1] e(2) by simp
  with e show ?thesis by blast
qed

end
