(* ===== verification/Handle.thy ===== *)
theory Handle
  imports Yfs_Prelude
begin

text \<open>
  The cache of RPC clients of \<^verbatim>\<open>src/handle.cc\<close>, through which the lock server calls the lock clients back.
  A \<^verbatim>\<open>handle\<close> object names a destination; the manager keeps one \<^verbatim>\<open>hinfo\<close> per destination with the number of
  handles that point to it, and \<^verbatim>\<open>safebind\<close> gives every handle of a destination the same client.

  The manager, the \<^verbatim>\<open>hinfo\<close> blocks and the clients are explicit stores, so that a use after \<^verbatim>\<open>delete\<close> is a fault.
  The addresses that \<^verbatim>\<open>new\<close> returns and the result of \<^verbatim>\<open>rpcc::bind\<close> are arguments. \<^verbatim>\<open>get_handle\<close>, \<^verbatim>\<open>done_handle\<close>
  and \<^verbatim>\<open>delete_handle\<close> hold \<^verbatim>\<open>handle_mutex\<close> throughout and are one step each; \<^verbatim>\<open>safebind\<close> blocks in \<^verbatim>\<open>bind\<close> with
  only \<^verbatim>\<open>cl_mutex\<close> held and is two.
\<close>

section \<open>The manager\<close>

record hinfo =
  hi_cl :: "addr option"
  hi_refcnt :: int
  hi_del :: bool
  hi_m :: string
  hi_locked :: bool   \<comment> \<open>\<^verbatim>\<open>cl_mutex\<close> is held\<close>

record handle_mgr =
  hmap :: "string \<rightharpoonup> addr"
  hm_heap :: "addr \<rightharpoonup> hinfo"
  hm_clients :: "addr set"   \<comment> \<open>the \<^verbatim>\<open>rpcc\<close> objects that were created here and not deleted\<close>

definition handle_mgr_new :: handle_mgr where
  "handle_mgr_new = \<lparr>hmap = Map.empty, hm_heap = Map.empty, hm_clients = {}\<rparr>"

definition hinfo_at :: "addr \<Rightarrow> handle_mgr \<Rightarrow> fault + hinfo" where
  "hinfo_at a s = (case hm_heap s a of None \<Rightarrow> Inl Wild_Access | Some i \<Rightarrow> Inr i)"

definition set_hinfo :: "addr \<Rightarrow> hinfo \<Rightarrow> handle_mgr \<Rightarrow> handle_mgr" where
  "set_hinfo a i s = s\<lparr>hm_heap := (hm_heap s)(a \<mapsto> i)\<rparr>"

text \<open>\<open>a\<close> is the address of the block \<^verbatim>\<open>new\<close> would return.\<close>

definition get_handle :: "addr \<Rightarrow> string \<Rightarrow> handle_mgr \<Rightarrow> fault + handle_mgr \<times> addr option" where
  "get_handle a m s =
     (case hmap s m of
        None \<Rightarrow>
          Inr (set_hinfo a \<lparr>hi_cl = None, hi_refcnt = 1, hi_del = False, hi_m = m, hi_locked = False\<rparr>
                 (s\<lparr>hmap := (hmap s)(m \<mapsto> a)\<rparr>), Some a)
      | Some b \<Rightarrow>
          rbind (hinfo_at b s) (\<lambda>i.
            if \<not> hi_del i then Inr (set_hinfo b (i\<lparr>hi_refcnt := hi_refcnt i + 1\<rparr>) s, Some b)
            else Inr (s, None)))"

text \<open>\<^verbatim>\<open>delete\<close> of a client; a second \<^verbatim>\<open>delete\<close> of the same address is undefined.\<close>

definition client_delete :: "addr \<Rightarrow> handle_mgr \<Rightarrow> fault + handle_mgr" where
  "client_delete c s = (if c \<in> hm_clients s then Inr (s\<lparr>hm_clients := hm_clients s - {c}\<rparr>) else Inl Wild_Access)"

definition delete_handle_wo :: "string \<Rightarrow> handle_mgr \<Rightarrow> fault + handle_mgr" where
  "delete_handle_wo m s =
     (case hmap s m of
        None \<Rightarrow> Inr s
      | Some a \<Rightarrow>
          rbind (hinfo_at a s) (\<lambda>i.
            if hi_refcnt i = 0 then
              rbind (case hi_cl i of None \<Rightarrow> Inr s | Some c \<Rightarrow> client_delete c s) (\<lambda>s.
                Inr (s\<lparr>hmap := (hmap s)(m := None), hm_heap := (hm_heap s)(a := None)\<rparr>))
            else Inr (set_hinfo a (i\<lparr>hi_del := True\<rparr>) s)))"

definition done_handle :: "addr \<Rightarrow> handle_mgr \<Rightarrow> fault + handle_mgr" where
  "done_handle a s =
     rbind (hinfo_at a s) (\<lambda>i.
       let i = i\<lparr>hi_refcnt := hi_refcnt i - 1\<rparr>;
           s = set_hinfo a i s
       in if hi_refcnt i = 0 \<and> hi_del i then delete_handle_wo (hi_m i) s else Inr s)"

definition delete_handle :: "string \<Rightarrow> handle_mgr \<Rightarrow> fault + handle_mgr" where
  "delete_handle m s = delete_handle_wo m s"

section \<open>\<^verbatim>\<open>safebind\<close>\<close>

text \<open>
  What \<^verbatim>\<open>safebind\<close> does first: wait for \<^verbatim>\<open>cl_mutex\<close>, return a client or NULL at once, or create a client and
  go into \<^verbatim>\<open>bind\<close> with the mutex held. \<open>c\<close> is the address of the new client.
\<close>

datatype bind_answer = Blocked | Answer "addr option" | Bind addr

definition safebind_begin :: "addr \<Rightarrow> addr option \<Rightarrow> handle_mgr \<Rightarrow> fault + handle_mgr \<times> bind_answer" where
  "safebind_begin c h s =
     (case h of
        None \<Rightarrow> Inr (s, Answer None)
      | Some a \<Rightarrow>
          rbind (hinfo_at a s) (\<lambda>i.
            if hi_locked i then Inr (s, Blocked)
            else if hi_del i then Inr (s, Answer None)
            else case hi_cl i of
                   Some k \<Rightarrow> Inr (s, Answer (Some k))
                 | None \<Rightarrow> Inr (set_hinfo a (i\<lparr>hi_locked := True\<rparr>) (s\<lparr>hm_clients := insert c (hm_clients s)\<rparr>), Bind c)))"

text \<open>After \<^verbatim>\<open>bind\<close> of the client \<open>c\<close> returned \<open>ret\<close>.\<close>

definition safebind_end :: "addr \<Rightarrow> int \<Rightarrow> addr \<Rightarrow> handle_mgr \<Rightarrow> fault + handle_mgr \<times> addr option" where
  "safebind_end c ret a s =
     rbind (hinfo_at a s) (\<lambda>i.
     rbind (if ret < 0 then rbind (client_delete c s) (\<lambda>s. Inr (s, i\<lparr>hi_del := True\<rparr>))
            else Inr (s, i\<lparr>hi_cl := Some c\<rparr>)) (\<lambda>(s, i).
       Inr (set_hinfo a (i\<lparr>hi_locked := False\<rparr>) s, hi_cl i)))"

section \<open>The handle objects\<close>

text \<open>
  A handle object is its pointer \<^verbatim>\<open>h\<close> and, while a thread is in \<^verbatim>\<open>bind\<close> on its behalf, the client that is bound.
  An event whose guard does not hold (an object that does not exist, an address that is in use, an object that is
  destroyed while it binds) is not one a program can perform and has no effect.
\<close>

record handle_obj =
  ho_h :: "addr option"
  ho_binding :: "addr option"

record handle_world =
  hw_mgr :: handle_mgr
  hw_objs :: "nat \<rightharpoonup> handle_obj"

datatype h_event =
    H_New nat string addr
  | H_Bind nat addr
  | H_Bound nat int
  | H_Drop nat
  | H_Delete string

definition handle_new :: "nat \<Rightarrow> string \<Rightarrow> addr \<Rightarrow> handle_world \<Rightarrow> fault + handle_world" where
  "handle_new k m a w =
     rbind (get_handle a m (hw_mgr w)) (\<lambda>(s, h).
       Inr \<lparr>hw_mgr = s, hw_objs = (hw_objs w)(k \<mapsto> \<lparr>ho_h = h, ho_binding = None\<rparr>)\<rparr>)"

definition handle_delete :: "nat \<Rightarrow> handle_obj \<Rightarrow> handle_world \<Rightarrow> fault + handle_world" where
  "handle_delete k b w =
     rbind (case ho_h b of None \<Rightarrow> Inr (hw_mgr w) | Some a \<Rightarrow> done_handle a (hw_mgr w)) (\<lambda>s.
       Inr \<lparr>hw_mgr = s, hw_objs = (hw_objs w)(k := None)\<rparr>)"

definition bind_starts :: "nat \<Rightarrow> handle_obj \<Rightarrow> handle_mgr \<times> bind_answer \<Rightarrow> handle_world \<Rightarrow> handle_world" where
  "bind_starts k b r w =
     w\<lparr>hw_mgr := fst r,
       hw_objs := (case snd r of Bind c \<Rightarrow> (hw_objs w)(k \<mapsto> b\<lparr>ho_binding := Some c\<rparr>) | _ \<Rightarrow> hw_objs w)\<rparr>"

fun h_exec :: "h_event \<Rightarrow> handle_world \<Rightarrow> fault + handle_world" where
  "h_exec (H_New k m a) w =
     (if hw_objs w k = None \<and> hm_heap (hw_mgr w) a = None then handle_new k m a w else Inr w)"
| "h_exec (H_Bind k c) w =
     (case hw_objs w k of
        None \<Rightarrow> Inr w
      | Some b \<Rightarrow>
          if ho_binding b = None \<and> c \<notin> hm_clients (hw_mgr w)
          then rbind (safebind_begin c (ho_h b) (hw_mgr w)) (\<lambda>r. Inr (bind_starts k b r w))
          else Inr w)"
| "h_exec (H_Bound k ret) w =
     (case hw_objs w k of
        None \<Rightarrow> Inr w
      | Some b \<Rightarrow>
          (case (ho_h b, ho_binding b) of
             (Some a, Some c) \<Rightarrow>
               rbind (safebind_end c ret a (hw_mgr w)) (\<lambda>(s, _).
                 Inr \<lparr>hw_mgr = s, hw_objs = (hw_objs w)(k \<mapsto> b\<lparr>ho_binding := None\<rparr>)\<rparr>)
           | _ \<Rightarrow> Inr w))"
| "h_exec (H_Drop k) w =
     (case hw_objs w k of
        None \<Rightarrow> Inr w
      | Some b \<Rightarrow> if ho_binding b = None then handle_delete k b w else Inr w)"
| "h_exec (H_Delete m) w = rbind (delete_handle m (hw_mgr w)) (\<lambda>s. Inr (w\<lparr>hw_mgr := s\<rparr>))"

fun h_run :: "h_event list \<Rightarrow> handle_world \<Rightarrow> fault + handle_world" where
  "h_run [] w = Inr w"
| "h_run (e # es) w = rbind (h_exec e w) (h_run es)"

definition handle_world_new :: handle_world where
  "handle_world_new = \<lparr>hw_mgr = handle_mgr_new, hw_objs = Map.empty\<rparr>"


section \<open>The invariant\<close>

definition users :: "addr \<Rightarrow> (nat \<rightharpoonup> handle_obj) \<Rightarrow> nat set" where
  "users a os = {k. \<exists>b. os k = Some b \<and> ho_h b = Some a}"

text \<open>Who is responsible for a client: the block that caches it, or the object that binds it.\<close>

definition owned :: "handle_world \<Rightarrow> addr + nat \<Rightarrow> addr option" where
  "owned w x =
     (case x of
        Inl a \<Rightarrow> Option.bind (hm_heap (hw_mgr w) a) hi_cl
      | Inr k \<Rightarrow> Option.bind (hw_objs w k) ho_binding)"

definition blocks_ok :: "handle_world \<Rightarrow> bool" where
  "blocks_ok w \<longleftrightarrow>
     (\<forall>m a. hmap (hw_mgr w) m = Some a \<longleftrightarrow> map_option hi_m (hm_heap (hw_mgr w) a) = Some m)"

definition counts_ok :: "handle_world \<Rightarrow> bool" where
  "counts_ok w \<longleftrightarrow>
     finite (dom (hw_objs w)) \<and>
     (\<forall>a. users a (hw_objs w) \<noteq> {} \<longrightarrow> hm_heap (hw_mgr w) a \<noteq> None) \<and>
     (\<forall>a i. hm_heap (hw_mgr w) a = Some i \<longrightarrow> hi_refcnt i = int (card (users a (hw_objs w))))"

text \<open>A block that was given up is there only for the handles that still point to it, except at \<open>X\<close>.\<close>

definition given_up_ok :: "addr set \<Rightarrow> handle_world \<Rightarrow> bool" where
  "given_up_ok X w \<longleftrightarrow>
     (\<forall>a i. a \<notin> X \<and> hm_heap (hw_mgr w) a = Some i \<and> hi_del i \<longrightarrow> users a (hw_objs w) \<noteq> {})"

definition binders_ok :: "handle_world \<Rightarrow> bool" where
  "binders_ok w \<longleftrightarrow>
     (\<forall>k b. hw_objs w k = Some b \<and> ho_binding b \<noteq> None \<longrightarrow>
        (\<exists>a i. ho_h b = Some a \<and> hm_heap (hw_mgr w) a = Some i \<and> hi_locked i)) \<and>
     (\<forall>k b k' b'. hw_objs w k = Some b \<and> ho_binding b \<noteq> None \<and> hw_objs w k' = Some b' \<and> ho_binding b' \<noteq> None \<and>
        ho_h b = ho_h b' \<longrightarrow> k = k') \<and>
     (\<forall>a i. hm_heap (hw_mgr w) a = Some i \<and> hi_locked i \<longrightarrow> hi_cl i = None)"

definition clients_ok :: "handle_world \<Rightarrow> bool" where
  "clients_ok w \<longleftrightarrow>
     (\<forall>c. c \<in> hm_clients (hw_mgr w) \<longleftrightarrow> (\<exists>x. owned w x = Some c)) \<and>
     (\<forall>x y c. owned w x = Some c \<and> owned w y = Some c \<longrightarrow> x = y)"

definition h_inv :: "handle_world \<Rightarrow> bool" where
  "h_inv w \<longleftrightarrow> blocks_ok w \<and> counts_ok w \<and> given_up_ok {} w \<and> binders_ok w \<and> clients_ok w"

lemma users_finite: "counts_ok w \<Longrightarrow> finite (users a (hw_objs w))"
  by (rule finite_subset [of _ "dom (hw_objs w)"]) (auto simp: counts_ok_def users_def)

lemma h_inv_new: "h_inv handle_world_new"
  by (simp add: h_inv_def blocks_ok_def counts_ok_def given_up_ok_def binders_ok_def clients_ok_def handle_world_new_def
      handle_mgr_new_def users_def owned_def split: sum.splits)


text \<open>The parts of the invariant depend on the world only through the blocks, the objects and the owners.\<close>

lemma owned_simps:
  "owned w (Inl a) = Option.bind (hm_heap (hw_mgr w) a) hi_cl"
  "owned w (Inr k) = Option.bind (hw_objs w k) ho_binding"
  by (simp_all add: owned_def)

lemma clients_same:
  assumes "clients_ok w" "owned w' = owned w" "hm_clients (hw_mgr w') = hm_clients (hw_mgr w)"
  shows "clients_ok w'"
  using assms by (simp add: clients_ok_def)

lemma clients_add:
  assumes "clients_ok w" "owned w' = (owned w)(x \<mapsto> c)" "owned w x = None"
    "hm_clients (hw_mgr w') = insert c (hm_clients (hw_mgr w))" "c \<notin> hm_clients (hw_mgr w)"
  shows "clients_ok w'"
proof -
  have "(\<exists>y. owned w' y = Some d) \<longleftrightarrow> d = c \<or> (\<exists>y. owned w y = Some d)" for d
    unfolding assms(2) using assms(3) by (metis fun_upd_apply option.distinct(1) option.inject)
  moreover have "\<not> (\<exists>y. owned w y = Some c)" using assms(1,5) by (simp add: clients_ok_def)
  ultimately show ?thesis using assms(1,4) by (simp add: clients_ok_def assms(2))
qed

lemma clients_drop:
  assumes "clients_ok w" "owned w' = (owned w)(x := None)" "owned w x = Some c"
    "hm_clients (hw_mgr w') = hm_clients (hw_mgr w) - {c}"
  shows "clients_ok w'"
proof -
  have one: "y = x" if "owned w y = Some c" for y using assms(1,3) that by (simp add: clients_ok_def)
  have "(\<exists>y. owned w' y = Some d) \<longleftrightarrow> d \<noteq> c \<and> (\<exists>y. owned w y = Some d)" for d
    unfolding assms(2) using assms(3) one by (metis fun_upd_apply option.distinct(1) option.inject)
  with assms(1,4) show ?thesis by (simp add: clients_ok_def assms(2)) blast
qed

lemma clients_move:
  assumes "clients_ok w" "owned w' = (owned w)(x := None, y \<mapsto> c)" "owned w x = Some c" "owned w y = None"
    "hm_clients (hw_mgr w') = hm_clients (hw_mgr w)"
  shows "clients_ok w'"
proof -
  have one: "z = x" if "owned w z = Some c" for z using assms(1,3) that by (simp add: clients_ok_def)
  have "(\<exists>z. owned w' z = Some d) \<longleftrightarrow> (\<exists>z. owned w z = Some d)" for d
    unfolding assms(2) using assms(3,4) one by (metis fun_upd_apply option.distinct(1) option.inject)
  with assms(1,5) one show ?thesis by (simp add: clients_ok_def assms(2)) blast
qed

lemma owned_eqI:
  assumes "\<And>a. Option.bind (hm_heap (hw_mgr w) a) hi_cl = f (Inl a)" "\<And>k. Option.bind (hw_objs w k) ho_binding = f (Inr k)"
  shows "owned w = f"
proof
  fix x show "owned w x = f x" using assms by (cases x) (simp_all add: owned_simps)
qed

lemma binder_locked:
  assumes "binders_ok w" "hw_objs w k = Some b" "ho_binding b \<noteq> None"
  obtains a i where "ho_h b = Some a" "hm_heap (hw_mgr w) a = Some i" "hi_locked i"
  using assms unfolding binders_ok_def by blast

lemma one_binder:
  assumes "binders_ok w" "hw_objs w k = Some b" "ho_binding b \<noteq> None" "hw_objs w k' = Some b'" "ho_binding b' \<noteq> None" "ho_h b = ho_h b'"
  shows "k = k'"
  using assms unfolding binders_ok_def by blast

lemma blocks_same:
  assumes "blocks_ok w" "hmap (hw_mgr w') = hmap (hw_mgr w)" "\<And>a. map_option hi_m (hm_heap (hw_mgr w') a) = map_option hi_m (hm_heap (hw_mgr w) a)"
  shows "blocks_ok w'"
  using assms by (simp add: blocks_ok_def)

lemma block_at:
  assumes "blocks_ok w" "hmap (hw_mgr w) m = Some a"
  obtains i where "hm_heap (hw_mgr w) a = Some i" "hi_m i = m"
  using assms by (auto simp: blocks_ok_def)

lemma binders_same:
  assumes ok: "binders_ok w"
    and os: "\<And>k b. hw_objs w' k = Some b \<Longrightarrow> ho_binding b \<noteq> None \<Longrightarrow> hw_objs w k = Some b"
    and lk: "\<And>k b a i. hw_objs w' k = Some b \<Longrightarrow> ho_h b = Some a \<Longrightarrow> hm_heap (hw_mgr w) a = Some i \<Longrightarrow> hi_locked i \<Longrightarrow> \<exists>i'. hm_heap (hw_mgr w') a = Some i' \<and> hi_locked i'"
    and cl: "\<And>a i. hm_heap (hw_mgr w') a = Some i \<Longrightarrow> hi_locked i \<Longrightarrow> hi_cl i = None"
  shows "binders_ok w'"
  unfolding binders_ok_def
proof (intro conjI allI impI; elim conjE)
  fix k b assume b: "hw_objs w' k = Some b" "ho_binding b \<noteq> None"
  obtain a i where a: "ho_h b = Some a" "hm_heap (hw_mgr w) a = Some i" "hi_locked i"
    by (rule binder_locked [OF ok os [OF b] b(2)])
  from lk [OF b(1) a] a(1) show "\<exists>a i. ho_h b = Some a \<and> hm_heap (hw_mgr w') a = Some i \<and> hi_locked i" by simp
next
  fix k b k' b' assume b: "hw_objs w' k = Some b" "ho_binding b \<noteq> None" "hw_objs w' k' = Some b'" "ho_binding b' \<noteq> None" "ho_h b = ho_h b'"
  show "k = k'" by (rule one_binder [OF ok os [OF b(1,2)] b(2) os [OF b(3,4)] b(4,5)])
qed (rule cl)

lemma binders_bind:
  assumes ok: "binders_ok w" and a: "hm_heap (hw_mgr w) a = Some i" "\<not> hi_locked i" "hi_cl i = None" "ho_h b = Some a"
    and w': "hw_objs w' = (hw_objs w)(k \<mapsto> b\<lparr>ho_binding := Some c\<rparr>)"
      "hm_heap (hw_mgr w') = (hm_heap (hw_mgr w))(a \<mapsto> i\<lparr>hi_locked := True\<rparr>)"
  shows "binders_ok w'"
proof -
  have na: "\<exists>a' i'. ho_h b' = Some a' \<and> a' \<noteq> a \<and> hm_heap (hw_mgr w) a' = Some i' \<and> hi_locked i'"
    if b': "hw_objs w k' = Some b'" "ho_binding b' \<noteq> None" for k' b'
  proof -
    obtain a' i' where "ho_h b' = Some a'" "hm_heap (hw_mgr w) a' = Some i'" "hi_locked i'" by (rule binder_locked [OF ok b'])
    then show ?thesis using a(1,2) by (cases "a' = a") auto
  qed
  show ?thesis unfolding binders_ok_def
  proof (intro conjI allI impI; elim conjE)
    fix k' b' assume "hw_objs w' k' = Some b'" "ho_binding b' \<noteq> None"
    then show "\<exists>a i. ho_h b' = Some a \<and> hm_heap (hw_mgr w') a = Some i \<and> hi_locked i"
      using na [of k' b'] a(4) by (auto simp: w' split: if_splits)
  next
    fix k1 b1 k2 b2
    assume "hw_objs w' k1 = Some b1" "ho_binding b1 \<noteq> None" "hw_objs w' k2 = Some b2" "ho_binding b2 \<noteq> None" "ho_h b1 = ho_h b2"
    then show "k1 = k2" using na [of k1 b1] na [of k2 b2] one_binder [OF ok, of k1 b1 k2 b2] a(4)
      by (auto simp: w' split: if_splits)
  next
    fix a' i' assume "hm_heap (hw_mgr w') a' = Some i'" "hi_locked i'"
    then show "hi_cl i' = None" using ok a(3) by (auto simp: w'(2) binders_ok_def split: if_splits)
  qed
qed

lemma binders_bound:
  assumes ok: "binders_ok w" and k: "hw_objs w k = Some b" "ho_binding b \<noteq> None" "ho_h b = Some a"
    and w': "hw_objs w' = (hw_objs w)(k \<mapsto> b\<lparr>ho_binding := None\<rparr>)" "hm_heap (hw_mgr w') = (hm_heap (hw_mgr w))(a \<mapsto> j)"
    "\<not> hi_locked j"
  shows "binders_ok w'"
  unfolding binders_ok_def
proof (intro conjI allI impI; elim conjE)
  fix k' b' assume "hw_objs w' k' = Some b'" "ho_binding b' \<noteq> None"
  then have b': "hw_objs w k' = Some b'" "ho_binding b' \<noteq> None" "k' \<noteq> k" by (auto simp: w' split: if_splits)
  have na: "ho_h b' \<noteq> Some a" using one_binder [OF ok k(1,2) b'(1,2)] b'(3) k(3) by auto
  obtain a' i' where "ho_h b' = Some a'" "hm_heap (hw_mgr w) a' = Some i'" "hi_locked i'" by (rule binder_locked [OF ok b'(1,2)])
  with na show "\<exists>a i. ho_h b' = Some a \<and> hm_heap (hw_mgr w') a = Some i \<and> hi_locked i" by (auto simp: w')
next
  fix k1 b1 k2 b2
  assume "hw_objs w' k1 = Some b1" "ho_binding b1 \<noteq> None" "hw_objs w' k2 = Some b2" "ho_binding b2 \<noteq> None" "ho_h b1 = ho_h b2"
  then show "k1 = k2" by (intro one_binder [OF ok, of k1 b1 k2 b2]) (auto simp: w' split: if_splits)
next
  fix a' i assume "hm_heap (hw_mgr w') a' = Some i" "hi_locked i"
  then show "hi_cl i = None" using ok w'(3) by (auto simp: w'(2) binders_ok_def split: if_splits)
qed

lemma locked_no_client: "binders_ok w \<Longrightarrow> hm_heap (hw_mgr w) a = Some i \<Longrightarrow> hi_locked i \<Longrightarrow> hi_cl i = None"
  by (simp add: binders_ok_def)

lemma hinfo_at_simps [simp]:
  "hm_heap s a = Some i \<Longrightarrow> hinfo_at a s = Inr i"
  by (simp add: hinfo_at_def)

subsection \<open>Construction\<close>

lemma new_inv:
  assumes inv: "h_inv w" and k: "hw_objs w k = None" and a: "hm_heap (hw_mgr w) a = None"
  shows "\<exists>w'. handle_new k m a w = Inr w' \<and> h_inv w'"
proof (cases "hmap (hw_mgr w) m")
  case None
  note ok = inv [unfolded h_inv_def]
  let ?i = "\<lparr>hi_cl = None, hi_refcnt = 1, hi_del = False, hi_m = m, hi_locked = False\<rparr>"
  define w' where "w' = \<lparr>hw_mgr = set_hinfo a ?i ((hw_mgr w)\<lparr>hmap := (hmap (hw_mgr w))(m \<mapsto> a)\<rparr>),
    hw_objs = (hw_objs w)(k \<mapsto> \<lparr>ho_h = Some a, ho_binding = None\<rparr>)\<rparr>"
  have u: "users b (hw_objs w') = (if b = a then insert k (users b (hw_objs w)) else users b (hw_objs w))" for b
    using k by (auto simp: users_def w'_def)
  have ua: "users a (hw_objs w) = {}" using ok a by (auto simp: counts_ok_def)
  have "map_option hi_m (hm_heap (hw_mgr w) b) \<noteq> Some m" for b using ok None by (metis blocks_ok_def option.distinct(1))
  then have "blocks_ok w'" using ok a by (auto simp: blocks_ok_def set_hinfo_def w'_def)
  moreover have "counts_ok w'" unfolding counts_ok_def u using ok ua by (auto simp: counts_ok_def set_hinfo_def w'_def)
  moreover have "given_up_ok {} w'" unfolding given_up_ok_def u using ok by (auto simp: given_up_ok_def set_hinfo_def w'_def)
  moreover have "binders_ok w'"
    by (rule binders_same [of w]) (use ok a k in \<open>auto simp: set_hinfo_def locked_no_client w'_def split: if_splits\<close>)
  moreover have "owned w' = owned w" by (rule owned_eqI) (simp_all add: owned_simps set_hinfo_def w'_def k a)
  then have "clients_ok w'" by (rule clients_same [of w, rotated]) (simp_all add: ok set_hinfo_def w'_def)
  moreover have "handle_new k m a w = Inr w'" using None by (simp add: handle_new_def get_handle_def w'_def)
  ultimately show ?thesis by (simp add: h_inv_def)
next
  case (Some b)
  note ok = inv [unfolded h_inv_def]
  obtain i where i: "hm_heap (hw_mgr w) b = Some i" "hi_m i = m" by (rule block_at [OF conjunct1 [OF ok] Some])
  define w' where "w' = \<lparr>hw_mgr = if hi_del i then hw_mgr w else set_hinfo b (i\<lparr>hi_refcnt := hi_refcnt i + 1\<rparr>) (hw_mgr w),
    hw_objs = (hw_objs w)(k \<mapsto> \<lparr>ho_h = if hi_del i then None else Some b, ho_binding = None\<rparr>)\<rparr>"
  have u: "users x (hw_objs w') = (if x = b \<and> \<not> hi_del i then insert k (users x (hw_objs w)) else users x (hw_objs w))" for x
    using k by (auto simp: users_def w'_def)
  have ku: "k \<notin> users x (hw_objs w)" "finite (users x (hw_objs w))" for x
    using k ok users_finite [of w x] by (simp_all add: users_def)
  have "blocks_ok w'" by (rule blocks_same [of w]) (simp_all add: ok set_hinfo_def w'_def i)
  moreover have "counts_ok w'" unfolding counts_ok_def u using ok ku i by (auto simp: counts_ok_def set_hinfo_def w'_def)
  moreover have "given_up_ok {} w'" unfolding given_up_ok_def u using ok i by (auto simp: given_up_ok_def set_hinfo_def w'_def)
  moreover have "binders_ok w'"
    by (rule binders_same [of w]) (use ok i k in \<open>auto simp: set_hinfo_def locked_no_client w'_def split: if_splits\<close>)
  moreover have "owned w' = owned w" by (rule owned_eqI) (simp_all add: owned_simps set_hinfo_def w'_def k i)
  then have "clients_ok w'" by (rule clients_same [of w, rotated]) (simp_all add: ok set_hinfo_def w'_def)
  moreover have "handle_new k m a w = Inr w'" using Some i by (simp add: handle_new_def get_handle_def w'_def)
  ultimately show ?thesis by (simp add: h_inv_def)
qed


subsection \<open>Giving a block up, and destruction\<close>

lemma delete_wo_inv:
  assumes ok: "blocks_ok w" "counts_ok w" "given_up_ok {a} w" "binders_ok w" "clients_ok w"
    and m: "hmap (hw_mgr w) m = Some a"
  shows "\<exists>s. delete_handle_wo m (hw_mgr w) = Inr s \<and> h_inv (w\<lparr>hw_mgr := s\<rparr>)"
proof -
  obtain i where i: "hm_heap (hw_mgr w) a = Some i" "hi_m i = m" by (rule block_at [OF ok(1) m])
  have ri: "hi_refcnt i = int (card (users a (hw_objs w)))" using ok(2) i by (simp add: counts_ok_def)
  have fin: "finite (users a (hw_objs w))" by (rule users_finite [OF ok(2)])
  show ?thesis
  proof (cases "hi_refcnt i = 0")
    case True
    then have ua: "users a (hw_objs w) = {}" using ri fin by simp
    define cs where "cs = (case hi_cl i of None \<Rightarrow> hm_clients (hw_mgr w) | Some c \<Rightarrow> hm_clients (hw_mgr w) - {c})"
    define w' where "w' = w\<lparr>hw_mgr := (hw_mgr w)\<lparr>hmap := (hmap (hw_mgr w))(m := None), hm_heap := (hm_heap (hw_mgr w))(a := None), hm_clients := cs\<rparr>\<rparr>"
    have oa: "owned w (Inl a) = hi_cl i" by (simp add: owned_simps i)
    have cl: "c \<in> hm_clients (hw_mgr w)" if "hi_cl i = Some c" for c using ok(5) oa that by (auto simp: clients_ok_def)
    have "delete_handle_wo m (hw_mgr w) = Inr (hw_mgr w')"
      using m i True cl by (auto simp: delete_handle_wo_def client_delete_def w'_def cs_def split: option.splits)
    moreover have "b = a" if "map_option hi_m (hm_heap (hw_mgr w) b) = Some m" for b
      using ok(1) m that by (metis blocks_ok_def option.inject)
    then have "blocks_ok w'" using ok(1) i by (auto simp: blocks_ok_def w'_def)
    moreover have "counts_ok w'" using ok(2) ua by (auto simp: counts_ok_def w'_def)
    moreover have "given_up_ok {} w'" using ok(3) by (auto simp: given_up_ok_def w'_def)
    moreover have "binders_ok w'"
      by (rule binders_same [OF ok(4)]) (use ok(4) ua in \<open>auto simp: users_def locked_no_client w'_def split: if_splits\<close>)
    moreover have "owned w' = (owned w)(Inl a := None)" by (rule owned_eqI) (simp_all add: owned_simps w'_def)
    then have "clients_ok w'"
      using clients_drop [OF ok(5), of w' "Inl a"] clients_same [OF ok(5), of w'] oa
      by (cases "hi_cl i") (auto simp: w'_def cs_def fun_upd_idem)
    ultimately show ?thesis by (auto simp: h_inv_def w'_def)
  next
    case False
    then have ua: "users a (hw_objs w) \<noteq> {}" using ri by auto
    define w' where "w' = w\<lparr>hw_mgr := set_hinfo a (i\<lparr>hi_del := True\<rparr>) (hw_mgr w)\<rparr>"
    have "delete_handle_wo m (hw_mgr w) = Inr (hw_mgr w')" using m i False by (simp add: delete_handle_wo_def w'_def)
    moreover have "blocks_ok w'" by (rule blocks_same [OF ok(1)]) (simp_all add: set_hinfo_def w'_def i)
    moreover have "counts_ok w'" using ok(2) i by (auto simp: counts_ok_def w'_def set_hinfo_def)
    moreover have "given_up_ok {} w'" using ok(3) ua by (auto simp: given_up_ok_def w'_def set_hinfo_def)
    moreover have "binders_ok w'"
      by (rule binders_same [OF ok(4)]) (use ok(4) i in \<open>auto simp: set_hinfo_def locked_no_client w'_def split: if_splits\<close>)
    moreover have "owned w' = owned w" by (rule owned_eqI) (simp_all add: owned_simps set_hinfo_def w'_def i)
    then have "clients_ok w'" by (rule clients_same [OF ok(5)]) (simp add: set_hinfo_def w'_def)
    ultimately show ?thesis by (auto simp: h_inv_def w'_def)
  qed
qed


lemma delete_inv:
  assumes "h_inv w"
  shows "\<exists>s. delete_handle m (hw_mgr w) = Inr s \<and> h_inv (w\<lparr>hw_mgr := s\<rparr>)"
proof (cases "hmap (hw_mgr w) m")
  case None
  then show ?thesis using assms by (simp add: delete_handle_def delete_handle_wo_def)
next
  case (Some a)
  have "given_up_ok {a} w" using assms by (simp add: h_inv_def given_up_ok_def)
  with delete_wo_inv [OF _ _ _ _ _ Some] assms show ?thesis by (simp add: delete_handle_def h_inv_def)
qed

lemma drop_inv:
  assumes inv: "h_inv w" and k: "hw_objs w k = Some b" "ho_binding b = None"
  shows "\<exists>w'. handle_delete k b w = Inr w' \<and> h_inv w'"
proof (cases "ho_h b")
  case None
  note ok = inv [unfolded h_inv_def]
  define w' where "w' = \<lparr>hw_mgr = hw_mgr w, hw_objs = (hw_objs w)(k := None)\<rparr>"
  have u: "users x (hw_objs w') = users x (hw_objs w)" for x using k None by (auto simp: users_def w'_def)
  have "blocks_ok w'" by (rule blocks_same [of w]) (simp_all add: ok w'_def)
  moreover have "counts_ok w'" unfolding counts_ok_def u using ok by (auto simp: counts_ok_def w'_def)
  moreover have "given_up_ok {} w'" unfolding given_up_ok_def u using ok by (auto simp: given_up_ok_def w'_def)
  moreover have "binders_ok w'"
    by (rule binders_same [of w]) (use ok k in \<open>auto simp: locked_no_client w'_def split: if_splits\<close>)
  moreover have "owned w' = owned w" by (rule owned_eqI) (simp_all add: owned_simps w'_def k)
  then have "clients_ok w'" by (rule clients_same [of w, rotated]) (simp_all add: ok w'_def)
  ultimately show ?thesis using None by (simp add: handle_delete_def h_inv_def w'_def)
next
  case (Some a)
  note ok = inv [unfolded h_inv_def]
  have ka: "k \<in> users a (hw_objs w)" using k Some by (simp add: users_def)
  then obtain i where i: "hm_heap (hw_mgr w) a = Some i" using ok by (auto simp: counts_ok_def)
  define j where "j = i\<lparr>hi_refcnt := hi_refcnt i - 1\<rparr>"
  define w' where "w' = \<lparr>hw_mgr = set_hinfo a j (hw_mgr w), hw_objs = (hw_objs w)(k := None)\<rparr>"
  have u: "users x (hw_objs w') = (if x = a then users x (hw_objs w) - {k} else users x (hw_objs w))" for x
    using k Some by (auto simp: users_def w'_def)
  have fin: "finite (users x (hw_objs w))" for x by (rule users_finite) (simp add: ok)
  have rj: "hi_refcnt j = int (card (users a (hw_objs w) - {k}))"
    using ok i ka fin [of a] card_gt_0_iff [of "users a (hw_objs w)"] by (auto simp: counts_ok_def j_def of_nat_diff)
  have b: "blocks_ok w'" by (rule blocks_same [of w]) (simp_all add: ok w'_def set_hinfo_def j_def i)
  have c: "counts_ok w'" unfolding counts_ok_def u using ok rj by (auto simp: counts_ok_def w'_def set_hinfo_def)
  have g: "given_up_ok {a} w'" unfolding given_up_ok_def u using ok by (auto simp: given_up_ok_def w'_def set_hinfo_def)
  have l: "binders_ok w'"
    by (rule binders_same [of w]) (use ok i k in \<open>auto simp: locked_no_client w'_def j_def set_hinfo_def split: if_splits\<close>)
  have "owned w' = owned w" by (rule owned_eqI) (simp_all add: owned_simps w'_def k i j_def set_hinfo_def)
  then have o: "clients_ok w'" by (rule clients_same [of w, rotated]) (simp_all add: ok w'_def set_hinfo_def)
  have m: "hmap (hw_mgr w') (hi_m j) = Some a" using b by (simp add: blocks_ok_def w'_def set_hinfo_def)
  have d: "done_handle a (hw_mgr w) = (if hi_refcnt j = 0 \<and> hi_del j then delete_handle_wo (hi_m j) (hw_mgr w') else Inr (hw_mgr w'))"
    by (simp add: done_handle_def i w'_def j_def Let_def)
  show ?thesis
  proof (cases "hi_refcnt j = 0 \<and> hi_del j")
    case True
    obtain s where "delete_handle_wo (hi_m j) (hw_mgr w') = Inr s" "h_inv (w'\<lparr>hw_mgr := s\<rparr>)"
      using delete_wo_inv [OF b c g l o m] by auto
    then show ?thesis using True by (simp add: handle_delete_def Some d) (simp add: w'_def)
  next
    case False
    have "given_up_ok {} w'" using g False rj fin [of a] unfolding given_up_ok_def by (auto simp: w'_def set_hinfo_def u [unfolded w'_def set_hinfo_def, simplified])
    then have "h_inv w'" using b c l o by (simp add: h_inv_def)
    moreover have "done_handle a (hw_mgr w) = Inr (hw_mgr w')" unfolding d by (rule if_not_P [OF False])
    then have "handle_delete k b w = Inr w'" using Some by (simp add: handle_delete_def) (simp add: w'_def)
    ultimately show ?thesis by simp
  qed
qed


subsection \<open>\<^verbatim>\<open>safebind\<close>\<close>

lemma object_block:
  assumes "h_inv w" "hw_objs w k = Some b" "ho_h b = Some a"
  obtains i where "hm_heap (hw_mgr w) a = Some i"
proof -
  have "users a (hw_objs w) \<noteq> {}" using assms(2,3) by (auto simp: users_def)
  then show ?thesis using assms(1) that by (auto simp: h_inv_def counts_ok_def)
qed

lemma bind_inv:
  assumes inv: "h_inv w" and k: "hw_objs w k = Some b" "ho_binding b = None" and fresh: "c \<notin> hm_clients (hw_mgr w)"
  shows "\<exists>r. safebind_begin c (ho_h b) (hw_mgr w) = Inr r \<and> h_inv (bind_starts k b r w)"
proof (cases "ho_h b")
  case None
  then show ?thesis using inv by (simp add: safebind_begin_def bind_starts_def)
next
  case (Some a)
  obtain i where i: "hm_heap (hw_mgr w) a = Some i" by (rule object_block [OF inv k(1) Some])
  show ?thesis
  proof (cases "hi_locked i \<or> hi_del i \<or> hi_cl i \<noteq> None")
    case True
    then show ?thesis using inv i Some by (auto simp: safebind_begin_def bind_starts_def)
  next
    case False
    note ok = inv [unfolded h_inv_def]
    define r where "r = (set_hinfo a (i\<lparr>hi_locked := True\<rparr>) ((hw_mgr w)\<lparr>hm_clients := insert c (hm_clients (hw_mgr w))\<rparr>), Bind c)"
    define w' where "w' = bind_starts k b r w"
    note w'_defs = w'_def bind_starts_def r_def set_hinfo_def
    have u: "users x (hw_objs w') = users x (hw_objs w)" for x using k by (auto simp: users_def w'_defs)
    have "blocks_ok w'" by (rule blocks_same [of w]) (simp_all add: ok w'_defs i)
    moreover have "counts_ok w'" unfolding counts_ok_def u using ok i by (auto simp: counts_ok_def w'_defs)
    moreover have "given_up_ok {} w'" unfolding given_up_ok_def u using ok i by (auto simp: given_up_ok_def w'_defs)
    moreover have "binders_ok w'"
    proof (rule binders_bind [of w a i b w' k c])
      show "hw_objs w' = (hw_objs w)(k \<mapsto> b\<lparr>ho_binding := Some c\<rparr>)" by (simp add: w'_defs)
      show "hm_heap (hw_mgr w') = (hm_heap (hw_mgr w))(a \<mapsto> i\<lparr>hi_locked := True\<rparr>)" by (simp add: w'_defs)
    qed (use ok i Some False in simp_all)
    moreover have "owned w' = (owned w)(Inr k \<mapsto> c)" by (rule owned_eqI) (simp_all add: owned_simps w'_defs i)
    then have "clients_ok w'" by (rule clients_add [of w, rotated]) (simp_all add: ok w'_defs fresh k owned_simps)
    ultimately show ?thesis using Some i False by (simp add: safebind_begin_def r_def [symmetric] h_inv_def w'_def)
  qed
qed


lemma bound_inv:
  assumes inv: "h_inv w" and k: "hw_objs w k = Some b" "ho_h b = Some a" "ho_binding b = Some c"
  shows "\<exists>s r. safebind_end c ret a (hw_mgr w) = Inr (s, r) \<and>
    h_inv \<lparr>hw_mgr = s, hw_objs = (hw_objs w)(k \<mapsto> b\<lparr>ho_binding := None\<rparr>)\<rparr>"
proof -
  note ok = inv [unfolded h_inv_def]
  have B: "binders_ok w" and bb: "ho_binding b \<noteq> None" using ok k by simp_all
  obtain a' i where "ho_h b = Some a'" "hm_heap (hw_mgr w) a' = Some i" "hi_locked i" by (rule binder_locked [OF B k(1) bb])
  then have i: "hm_heap (hw_mgr w) a = Some i" "hi_locked i" using k by simp_all
  have icl: "hi_cl i = None" by (rule locked_no_client [OF B i])
  have own: "owned w (Inr k) = Some c" "owned w (Inl a) = None" by (simp_all add: owned_simps k i icl)
  then have cin: "c \<in> hm_clients (hw_mgr w)" using ok by (auto simp: clients_ok_def)
  define j where "j = (if ret < 0 then i\<lparr>hi_del := True, hi_locked := False\<rparr> else i\<lparr>hi_cl := Some c, hi_locked := False\<rparr>)"
  define w' where "w' = \<lparr>hw_mgr = set_hinfo a j (if ret < 0 then (hw_mgr w)\<lparr>hm_clients := hm_clients (hw_mgr w) - {c}\<rparr> else hw_mgr w),
     hw_objs = (hw_objs w)(k \<mapsto> b\<lparr>ho_binding := None\<rparr>)\<rparr>"
  note w'_defs = w'_def set_hinfo_def j_def
  have u: "users x (hw_objs w') = users x (hw_objs w)" for x using k by (auto simp: users_def w'_def)
  have ua: "users a (hw_objs w) \<noteq> {}" using k by (auto simp: users_def)
  have "blocks_ok w'" by (rule blocks_same [of w]) (simp_all add: ok w'_defs i)
  moreover have "counts_ok w'" unfolding counts_ok_def u using ok i by (auto simp: counts_ok_def w'_defs)
  moreover have "given_up_ok {} w'" unfolding given_up_ok_def u using ok i ua by (auto simp: given_up_ok_def w'_defs)
  moreover have "binders_ok w'"
  proof (rule binders_bound [OF B k(1) bb k(2)])
    show "hw_objs w' = (hw_objs w)(k \<mapsto> b\<lparr>ho_binding := None\<rparr>)" by (simp add: w'_def)
    show "hm_heap (hw_mgr w') = (hm_heap (hw_mgr w))(a \<mapsto> j)" "\<not> hi_locked j" by (simp_all add: w'_defs)
  qed
  moreover have "owned w' = (if ret < 0 then (owned w)(Inr k := None) else (owned w)(Inr k := None, Inl a \<mapsto> c))"
    by (rule owned_eqI) (simp_all add: owned_simps w'_defs i icl)
  then have "clients_ok w'"
    using clients_drop [of w w' "Inr k" c] clients_move [of w w' "Inr k" "Inl a" c] ok own
    by (cases "ret < 0") (simp_all add: w'_defs)
  ultimately show ?thesis using i cin icl by (auto simp: safebind_end_def client_delete_def h_inv_def w'_def j_def)
qed

lemma exec_inv:
  assumes "h_inv w"
  shows "\<exists>w'. h_exec e w = Inr w' \<and> h_inv w'"
proof (cases e)
  case (H_New k m a)
  then show ?thesis using new_inv [OF assms, of k a m] assms by simp
next
  case (H_Bind k c)
  then show ?thesis using bind_inv [OF assms, of k _ c] assms by (fastforce split: option.split)
next
  case (H_Bound k ret)
  show ?thesis
  proof (cases "\<exists>b a c. hw_objs w k = Some b \<and> ho_h b = Some a \<and> ho_binding b = Some c")
    case True
    then obtain b a c where k: "hw_objs w k = Some b" "ho_h b = Some a" "ho_binding b = Some c" by auto
    from bound_inv [OF assms k, of ret] show ?thesis by (auto simp: H_Bound k)
  next
    case False
    then have "h_exec e w = Inr w" by (auto simp: H_Bound split: option.split)
    then show ?thesis using assms by simp
  qed
next
  case (H_Drop k)
  then show ?thesis using drop_inv [OF assms, of k] assms by (simp split: option.split)
next
  case (H_Delete m)
  then show ?thesis using delete_inv [OF assms, of m] by auto
qed

lemma run_inv: "h_inv w \<Longrightarrow> \<exists>w'. h_run es w = Inr w' \<and> h_inv w'"
proof (induction es arbitrary: w)
  case (Cons e es)
  obtain w1 where "h_exec e w = Inr w1" "h_inv w1" using exec_inv [OF Cons.prems] by auto
  with Cons.IH [of w1] show ?case by simp
qed simp


section \<open>Correctness\<close>

text \<open>
  What \<^verbatim>\<open>safebind\<close> has answered once it keeps to: a block whose client is there, or that was given up, stays as it
  is while a handle points to it, except that \<^verbatim>\<open>delete_handle\<close> gives it up.
\<close>

definition settled :: "hinfo \<Rightarrow> bool" where
  "settled i \<longleftrightarrow> \<not> hi_locked i \<and> (hi_del i \<or> hi_cl i \<noteq> None)"

definition kept :: "bool \<Rightarrow> hinfo \<Rightarrow> hinfo \<Rightarrow> bool" where
  "kept given_up i i' \<longleftrightarrow>
     \<not> hi_locked i' \<and> hi_cl i' = hi_cl i \<and> hi_m i' = hi_m i \<and> (hi_del i' \<longleftrightarrow> hi_del i \<or> given_up)"

lemma delete_wo_kept:
  assumes "delete_handle_wo m s = Inr s'" "hm_heap s a = Some i" "\<not> hi_locked i" "hi_refcnt i \<noteq> 0"
    "hmap s m = Some a \<longleftrightarrow> hi_m i = m"
  shows "\<exists>i'. hm_heap s' a = Some i' \<and> kept (m = hi_m i) i i'"
proof (cases "hmap s m")
  case None
  then show ?thesis using assms by (simp add: delete_handle_wo_def kept_def)
next
  case (Some a')
  show ?thesis
  proof (cases "a' = a")
    case True
    then show ?thesis using assms Some by (auto simp: delete_handle_wo_def kept_def set_hinfo_def)
  next
    case False
    then show ?thesis using assms Some
      by (auto simp: delete_handle_wo_def kept_def set_hinfo_def client_delete_def hinfo_at_def rbind_eq_Inr split: option.splits if_splits)
  qed
qed

lemma done_kept:
  assumes d: "done_handle a' s = Inr s'" and a: "hm_heap s a = Some i" "\<not> hi_locked i" "hi_refcnt i \<noteq> 0" "a' = a \<Longrightarrow> hi_refcnt i \<noteq> 1"
    and m: "\<And>m b j. hm_heap s b = Some j \<Longrightarrow> hmap s m = Some b \<longleftrightarrow> hi_m j = m"
  shows "\<exists>i'. hm_heap s' a = Some i' \<and> kept False i i'"
proof (cases "a' = a")
  case True
  then show ?thesis using d a by (auto simp: done_handle_def set_hinfo_def kept_def Let_def)
next
  case False
  obtain j where j: "hm_heap s a' = Some j" using d by (auto simp: done_handle_def hinfo_at_def rbind_eq_Inr split: option.splits)
  let ?j = "j\<lparr>hi_refcnt := hi_refcnt j - 1\<rparr>"
  show ?thesis
  proof (cases "hi_refcnt ?j = 0 \<and> hi_del ?j")
    case True
    then have "delete_handle_wo (hi_m j) (set_hinfo a' ?j s) = Inr s'" using d j by (simp add: done_handle_def Let_def)
    from delete_wo_kept [OF this, of a i] a m [OF a(1)] False
    have "\<exists>i'. hm_heap s' a = Some i' \<and> kept (hi_m j = hi_m i) i i'" by (simp add: set_hinfo_def)
    moreover have "hi_m j \<noteq> hi_m i" using m [OF a(1), of "hi_m i"] m [OF j, of "hi_m j"] False by auto
    ultimately show ?thesis by simp
  next
    case c: False
    then have "s' = set_hinfo a' ?j s" using d j by (auto simp: done_handle_def Let_def split: if_splits)
    then show ?thesis using a False by (simp add: set_hinfo_def kept_def)
  qed
qed

lemma exec_kept:
  assumes inv: "h_inv w" and ex: "h_exec e w = Inr w'" and k: "hw_objs w k = Some b" "ho_h b = Some a" "e \<noteq> H_Drop k"
    and i: "hm_heap (hw_mgr w) a = Some i" "settled i"
  shows "\<exists>i' b'. hm_heap (hw_mgr w') a = Some i' \<and> kept (e = H_Delete (hi_m i)) i i' \<and> hw_objs w' k = Some b' \<and> ho_h b' = Some a"
proof -
  note ok = inv [unfolded h_inv_def]
  have nl: "\<not> hi_locked i" using i by (simp add: settled_def)
  have ka: "k \<in> users a (hw_objs w)" using k by (simp add: users_def)
  have fin: "finite (users a (hw_objs w))" using ok users_finite by blast
  have ri: "hi_refcnt i = int (card (users a (hw_objs w)))" using ok i by (simp add: counts_ok_def)
  have r0: "hi_refcnt i \<noteq> 0" using ri fin ka by auto
  have mb: "hmap (hw_mgr w) m = Some a \<longleftrightarrow> hi_m i = m" if "hm_heap (hw_mgr w) a = Some i" for m a i
    using ok that by (simp add: blocks_ok_def)
  note mi = mb [OF i(1)]
  show ?thesis
  proof (cases e)
    case (H_New k' m a')
    then show ?thesis using ex k i nl
      by (auto simp: handle_new_def get_handle_def set_hinfo_def kept_def hinfo_at_def rbind_eq_Inr split: option.splits if_splits)
  next
    case (H_Bind k' c)
    then show ?thesis using ex k i nl
      by (auto simp: safebind_begin_def bind_starts_def set_hinfo_def kept_def settled_def hinfo_at_def rbind_eq_Inr split: option.splits if_splits)
  next
    case (H_Delete m)
    then obtain s where "delete_handle_wo m (hw_mgr w) = Inr s" "w' = w\<lparr>hw_mgr := s\<rparr>"
      using ex by (auto simp: delete_handle_def rbind_eq_Inr)
    with delete_wo_kept [OF _ i(1) nl r0 mi, of m s] k H_Delete show ?thesis by auto
  next
    case (H_Bound k' ret)
    show ?thesis
    proof (cases "\<exists>b a c. hw_objs w k' = Some b \<and> ho_h b = Some a \<and> ho_binding b = Some c")
      case True
      then obtain b' a' c' where k': "hw_objs w k' = Some b'" "ho_h b' = Some a'" "ho_binding b' = Some c'" by auto
      have B: "binders_ok w" and bb: "ho_binding b' \<noteq> None" using ok k' by simp_all
      obtain a2 i2 where "ho_h b' = Some a2" "hm_heap (hw_mgr w) a2 = Some i2" "hi_locked i2" by (rule binder_locked [OF B k'(1) bb])
      then have "a' \<noteq> a" using k' i nl by auto
      moreover from this have "k' \<noteq> k" using k k' by auto
      ultimately show ?thesis using ex k i nl
        by (auto simp: H_Bound k' safebind_end_def client_delete_def set_hinfo_def kept_def rbind_eq_Inr split: if_splits)
    next
      case False
      then have "w' = w" using ex by (auto simp: H_Bound split: option.splits)
      then show ?thesis using k i nl H_Bound by (simp add: kept_def)
    qed
  next
    case (H_Drop k')
    then have ne: "k' \<noteq> k" using k by simp
    show ?thesis
    proof (cases "\<exists>b' a'. hw_objs w k' = Some b' \<and> ho_binding b' = None \<and> ho_h b' = Some a'")
      case True
      then obtain b' a' where k': "hw_objs w k' = Some b'" "ho_binding b' = None" "ho_h b' = Some a'" by auto
      obtain s where s: "done_handle a' (hw_mgr w) = Inr s" "w' = \<lparr>hw_mgr = s, hw_objs = (hw_objs w)(k' := None)\<rparr>"
        using ex by (auto simp: H_Drop k' handle_delete_def rbind_eq_Inr)
      have two: "hi_refcnt i \<noteq> 1" if "a' = a"
      proof -
        have "{k, k'} \<subseteq> users a (hw_objs w)" using ka k' that by (auto simp: users_def)
        from card_mono [OF fin this] ne ri show ?thesis by simp
      qed
      from done_kept [OF s(1) i(1) nl r0 two mb] k ne s(2) H_Drop show ?thesis by auto
    next
      case False
      then have "hw_mgr w' = hw_mgr w" "hw_objs w' k = hw_objs w k" using ex ne
        by (auto simp: H_Drop handle_delete_def split: option.splits if_splits)
      then show ?thesis using k i nl H_Drop by (simp add: kept_def)
    qed
  qed
qed


lemma run_kept:
  assumes "h_inv w" "h_run es w = Inr w'" "hw_objs w k = Some b" "ho_h b = Some a" "H_Drop k \<notin> set es"
    "hm_heap (hw_mgr w) a = Some i" "settled i"
  shows "\<exists>i'. hm_heap (hw_mgr w') a = Some i' \<and> kept (H_Delete (hi_m i) \<in> set es) i i'"
  using assms
proof (induction es arbitrary: w b i)
  case Nil
  then show ?case by (simp add: kept_def settled_def)
next
  case (Cons e es)
  obtain w1 where w1: "h_exec e w = Inr w1" "h_inv w1" "h_run es w1 = Inr w'"
    using exec_inv [OF Cons.prems(1), of e] Cons.prems(2) by auto
  obtain i1 b1 where 1: "hm_heap (hw_mgr w1) a = Some i1" "kept (e = H_Delete (hi_m i)) i i1" "hw_objs w1 k = Some b1" "ho_h b1 = Some a"
    using exec_kept [OF Cons.prems(1) w1(1) Cons.prems(3,4) _ Cons.prems(6,7)] Cons.prems(5) by auto
  have "settled i1" using 1(2) Cons.prems(7) by (auto simp: kept_def settled_def)
  with Cons.IH [OF w1(2,3) 1(3,4) _ 1(1)] Cons.prems(5)
  obtain i' where "hm_heap (hw_mgr w') a = Some i'" "kept (H_Delete (hi_m i1) \<in> set es) i1 i'" by auto
  with 1(2) show ?case by (auto simp: kept_def)
qed

text \<open>
  C26. Whatever the threads do (handles created, bound, destroyed, destinations deleted, in any order), no operation
  touches a freed block or deletes a client twice. The block of every handle is alive, is the one the map has for
  its destination, counts exactly the handles that point to it, and its client, if it has one, is alive. Every client
  that was created and not deleted is the client of exactly one block or of exactly one \<^verbatim>\<open>bind\<close> in progress.
\<close>

theorem handle_cache_sound:
  "\<exists>w. h_run es handle_world_new = Inr w \<and>
     (\<forall>k b a. hw_objs w k = Some b \<and> ho_h b = Some a \<longrightarrow>
        (\<exists>i. hm_heap (hw_mgr w) a = Some i \<and> hmap (hw_mgr w) (hi_m i) = Some a \<and>
             hi_refcnt i = int (card (users a (hw_objs w))) \<and> (\<forall>c. hi_cl i = Some c \<longrightarrow> c \<in> hm_clients (hw_mgr w)))) \<and>
     (\<forall>c \<in> hm_clients (hw_mgr w). \<exists>!x. owned w x = Some c)"
proof -
  obtain w where w: "h_run es handle_world_new = Inr w" "h_inv w" using run_inv [OF h_inv_new] by auto
  have "\<exists>i. hm_heap (hw_mgr w) a = Some i \<and> hmap (hw_mgr w) (hi_m i) = Some a \<and>
      hi_refcnt i = int (card (users a (hw_objs w))) \<and> (\<forall>c. hi_cl i = Some c \<longrightarrow> c \<in> hm_clients (hw_mgr w))"
    if k: "hw_objs w k = Some b" "ho_h b = Some a" for k b a
  proof -
    obtain i where i: "hm_heap (hw_mgr w) a = Some i" by (rule object_block [OF w(2) k])
    have "owned w (Inl a) = hi_cl i" by (simp add: owned_simps i)
    then show ?thesis using w(2) i by (auto simp: h_inv_def blocks_ok_def counts_ok_def clients_ok_def)
  qed
  moreover have "\<exists>!x. owned w x = Some c" if "c \<in> hm_clients (hw_mgr w)" for c
    using w(2) that by (auto simp: h_inv_def clients_ok_def)
  ultimately show ?thesis using w(1) by blast
qed

theorem handle_cache_sound_witness:
  "\<exists>w i. h_run [H_New 0 ''a:1'' 7, H_New 1 ''a:1'' 8, H_Bind 0 3, H_Bind 1 4, H_Bound 0 0, H_Drop 0] handle_world_new = Inr w \<and>
     hw_objs w 1 = Some \<lparr>ho_h = Some 7, ho_binding = None\<rparr> \<and> hm_heap (hw_mgr w) 7 = Some i \<and>
     hmap (hw_mgr w) (hi_m i) = Some 7 \<and> hi_cl i = Some 3 \<and> 3 \<in> hm_clients (hw_mgr w) \<and> (\<exists>!x. owned w x = Some 3)"
proof -
  let ?es = "[H_New 0 ''a:1'' 7, H_New 1 ''a:1'' 8, H_Bind 0 3, H_Bind 1 4, H_Bound 0 0, H_Drop 0]"
  obtain w where w: "h_run ?es handle_world_new = Inr w" "hw_objs w 1 = Some \<lparr>ho_h = Some 7, ho_binding = None\<rparr>"
    "Option.bind (hm_heap (hw_mgr w) 7) hi_cl = Some 3"
    by (simp add: handle_world_new_def handle_mgr_new_def handle_new_def get_handle_def set_hinfo_def safebind_begin_def
        bind_starts_def safebind_end_def handle_delete_def done_handle_def hinfo_at_def Let_def)
  from handle_cache_sound [of ?es] w(1)
  have s: "\<forall>k b a. hw_objs w k = Some b \<and> ho_h b = Some a \<longrightarrow>
        (\<exists>i. hm_heap (hw_mgr w) a = Some i \<and> hmap (hw_mgr w) (hi_m i) = Some a \<and>
             hi_refcnt i = int (card (users a (hw_objs w))) \<and> (\<forall>c. hi_cl i = Some c \<longrightarrow> c \<in> hm_clients (hw_mgr w)))"
    "\<forall>c \<in> hm_clients (hw_mgr w). \<exists>!x. owned w x = Some c" by (simp_all only: sum.inject) blast+
  from s(1) [rule_format, of 1 _ 7] w(2) obtain i where i: "hm_heap (hw_mgr w) 7 = Some i" "hmap (hw_mgr w) (hi_m i) = Some 7"
    "\<forall>c. hi_cl i = Some c \<longrightarrow> c \<in> hm_clients (hw_mgr w)" by auto
  then have "hi_cl i = Some 3" using w(3) by simp
  then show ?thesis using w i s(2) by auto
qed



end
