(* ===== verification/Rpc_Test.thy ===== *)
theory Rpc_Test
  imports Rpc_Stubs
begin

text \<open>
  The self test of the RPC library, \<^verbatim>\<open>src/rpc/rpctest.cc\<close>: the service it registers and the checks of
  \<^verbatim>\<open>testmarshall\<close>, \<^verbatim>\<open>simple_tests\<close> and the clients of its concurrent tests. A failed check is the fault \<open>Verify_Failed\<close>. The exchange is the
  argument \<open>call1\<close> of the stubs; the properties run the tests through the marshalling on both sides and the
  registered handlers on a network that loses nothing.
\<close>

section \<open>The service\<close>

definition handle_22 :: "'s \<Rightarrow> string \<Rightarrow> string \<Rightarrow> string \<Rightarrow> fault + 's \<times> u32 \<times> string" where
  "handle_22 s a b r = Inr (s, 0, a @ b)"

definition handle_fast :: "'s \<Rightarrow> u32 \<Rightarrow> u32 \<Rightarrow> fault + 's \<times> u32 \<times> u32" where
  "handle_fast s a r = Inr (s, 0, a + 1)"

definition handle_slow :: "'s \<Rightarrow> u32 \<Rightarrow> u32 \<Rightarrow> fault + 's \<times> u32 \<times> u32" where
  "handle_slow s a r = Inr (s, 0, a + 2)"

text \<open>A negative length becomes a huge \<^verbatim>\<open>size_t\<close>, for which the constructor of \<^verbatim>\<open>std::string\<close> throws.\<close>

definition handle_bigrep :: "'s \<Rightarrow> u32 \<Rightarrow> string \<Rightarrow> fault + 's \<times> u32 \<times> string" where
  "handle_bigrep s len r = (if sint len < 0 then Inl Std_Exception else Inr (s, 0, replicate (unat len) (CHR ''x'')))"

definition startserver :: "u32 \<rightharpoonup> 's handler" where
  "startserver =
     [22 \<mapsto> h2_fn (get_string []) (get_string []) put_string [] handle_22,
      23 \<mapsto> h1_fn get_int put_int 0 handle_fast,
      24 \<mapsto> h1_fn get_int put_int 0 handle_slow,
      25 \<mapsto> h1_fn get_int put_string [] handle_bigrep]"

section \<open>The tests\<close>

definition testmarshall :: "fault + unit" where
  "testmarshall =
     (let rh = \<lparr>h_xid = 1, h_proc = 2, h_clt_nonce = 3, h_srv_nonce = 4, h_xid_rep = 5\<rparr>;
          i = 12345; l = 1223344455; s = ''hallo....''
      in rbind (pack_req_header rh marshall_new) (\<lambda>m.
         rbind (verify (m_ind m = RPC_HEADER_SZ)) (\<lambda>_.
         rbind (put_int i m) (\<lambda>m.
         rbind (put_ull l m) (\<lambda>m.
         rbind (put_string s m) (\<lambda>m.
           let ((b, sz), m) = m_take_buf m
           in rbind (verify (sz = RPC_HEADER_SZ + 4 + 8 + length s + 4)) (\<lambda>_.
              rbind (case b of None \<Rightarrow> Inl Null_Access | Some c \<Rightarrow> Inr (fill c)) (\<lambda>b.
              rbind (unpack_req_header (unmarshall_new b sz)) (\<lambda>(rh1, un).
              rbind (verify (rh1 = rh)) (\<lambda>_.
              rbind (get_int un) (\<lambda>(i1, un).
              rbind (get_ull un) (\<lambda>(l1, un).
              rbind (get_string [] un) (\<lambda>(s1, un).
              rbind (verify (u_okdone un)) (\<lambda>_.
                verify (i1 = i \<and> l1 = l \<and> s1 = s)))))))))))))))"

text \<open>
  \<^verbatim>\<open>simple_tests\<close>. The client of the last check is bound to an address where nobody listens: \<open>bound\<close> is what its
  \<^verbatim>\<open>bind\<close> returns and \<open>t0\<close>, \<open>t1\<close> the times around it.
\<close>

definition simple_tests :: "'c call1 \<Rightarrow> u32 \<Rightarrow> int \<Rightarrow> int \<Rightarrow> 'c \<Rightarrow> fault + 'c" where
  "simple_tests call1 bound t0 t1 c =
     rbind (rpc_call2 call1 get_string put_string put_string 22 ''hello'' '' goodbye'' [] c) (\<lambda>(c, intret, rep).
     rbind (verify (intret = 0)) (\<lambda>_.
     rbind (verify (rep = ''hello goodbye'')) (\<lambda>_.
     rbind (rpc_call1 call1 get_string put_int 25 70000 rep c) (\<lambda>(c, intret, rep).
     rbind (verify (intret = 0)) (\<lambda>_.
     rbind (verify (length rep = 70000)) (\<lambda>_.
     rbind (rpc_call1 call1 get_string put_string 22 ''just one'' rep c) (\<lambda>(c, intret, rep).
     rbind (verify (sint intret < 0)) (\<lambda>_.
     rbind (rpc_call2 call1 get_string put_int put_int 23 1001 1002 rep c) (\<lambda>(c, intret, rep).
     rbind (verify (sint intret < 0)) (\<lambda>_.
     rbind (rpc_call2 call1 (\<lambda>_. get_int) put_string put_string 23 ''hello'' '' goodbye'' 0 c) (\<lambda>(c, intret, wrongrep).
     rbind (verify (sint intret < 0)) (\<lambda>_.
     rbind (rpc_call1 call1 (\<lambda>_. get_int) put_int 23 77 0 c) (\<lambda>(c, intret, xx).
     rbind (verify (intret = 0 \<and> xx = 78)) (\<lambda>_.
     rbind (rpc_call2 call1 get_string put_string put_string 22 (replicate 1000 (CHR ''x'')) ''x'' [] c) (\<lambda>(c, _, rep1).
     rbind (verify (length rep1 = 1001)) (\<lambda>_.
     rbind (rpc_call2 call1 get_string put_string put_string 22 (replicate 1000000 (CHR ''x'')) ''z'' rep c) (\<lambda>(c, intret, rep).
     rbind (verify (length rep = 1000001)) (\<lambda>_.
     rbind (verify (sint bound < 0 \<and> t1 - t0 \<le> 4)) (\<lambda>_.
       Inr c)))))))))))))))))))"

text \<open>The two loops of \<^verbatim>\<open>client1\<close>, over what \<^verbatim>\<open>random\<close> yields in their rounds.\<close>

fun client1_big :: "'c call1 \<Rightarrow> u32 list \<Rightarrow> 'c \<Rightarrow> fault + 'c" where
  "client1_big call1 [] c = Inr c"
| "client1_big call1 (r # rs) c =
     (let arg = r mod 2000
      in rbind (rpc_call1 call1 get_string put_int 25 arg [] c) (\<lambda>(c, ret, rep).
         rbind (verify (ret = 0)) (\<lambda>_.
         rbind (verify (length rep = unat arg)) (\<lambda>_. client1_big call1 rs c))))"

fun client1_mixed :: "'c call1 \<Rightarrow> (u32 \<times> u32) list \<Rightarrow> 'c \<Rightarrow> fault + 'c" where
  "client1_mixed call1 [] c = Inr c"
| "client1_mixed call1 ((w, r) # rs) c =
     (let which = w mod 2; arg = r mod 1000
      in rbind (rpc_call1 call1 (\<lambda>_. get_int) put_int (if which \<noteq> 0 then 23 else 24) arg 0 c) (\<lambda>(c, ret, rep).
         rbind (verify (ret = 0)) (\<lambda>_.
         rbind (verify (rep = (if which \<noteq> 0 then arg + 1 else arg + 2))) (\<lambda>_. client1_mixed call1 rs c))))"

definition client1 :: "'c call1 \<Rightarrow> u32 list \<Rightarrow> (u32 \<times> u32) list \<Rightarrow> 'c \<Rightarrow> fault + 'c" where
  "client1 call1 rs ws c = rbind (client1_big call1 rs c) (client1_mixed call1 ws)"

text \<open>The loop of \<^verbatim>\<open>client2\<close>, which runs until its time is up, and of \<^verbatim>\<open>client3\<close>, which allows for a timeout.\<close>

fun client2 :: "'c call1 \<Rightarrow> u32 list \<Rightarrow> 'c \<Rightarrow> fault + 'c" where
  "client2 call1 [] c = Inr c"
| "client2 call1 (r # rs) c =
     (let arg = r mod 2000
      in rbind (rpc_call1 call1 get_string put_int 25 arg [] c) (\<lambda>(c, ret, rep).
         rbind (verify (length rep = unat arg)) (\<lambda>_. client2 call1 rs c)))"

fun client3_rounds :: "'c call1 \<Rightarrow> u32 list \<Rightarrow> 'c \<Rightarrow> fault + 'c" where
  "client3_rounds call1 [] c = Inr c"
| "client3_rounds call1 (i # is) c =
     rbind (rpc_call1 call1 (\<lambda>_. get_int) put_int 24 i 0 c) (\<lambda>(c, ret, rep).
     rbind (verify (ret = timeout_failure \<or> rep = i + 2)) (\<lambda>_. client3_rounds call1 is c))"

definition client3 :: "'c call1 \<Rightarrow> 'c \<Rightarrow> fault + 'c" where
  "client3 call1 c = client3_rounds call1 [0, 1, 2, 3] c"

section \<open>Calls with the wrong arguments\<close>

text \<open>
  A request whose arguments the handler cannot read, or does not read completely, is answered by
  \<^verbatim>\<open>unmarshal_args_failure\<close>; the method does not run and the caller's reply variable keeps its value.
\<close>

lemma direct_call_bad_args:
  assumes hs: "hs proc = Some (h1_fn getB putR r0 meth)" and codec: "wire_codec putA getA encA dmA" and dm: "dmA a"
    and len: "length (encA a) < 2 ^ 30"
    and bad: "\<And>u. u_wf u \<Longrightarrow> u_ok u \<Longrightarrow> u_rest u = encA a \<Longrightarrow> \<exists>x u'. getB u = Inr (x, u') \<and> \<not> u_okdone u'"
  shows "rpc_call1 (direct_call1 hs h) getR putA proc a r1 s = Inr (s, unmarshal_args_failure, r1)"
proof -
  let ?h = "h\<lparr>h_proc := proc\<rparr>" and ?r = "\<lparr>r_xid = h_xid h, r_ret = unmarshal_args_failure\<rparr>"
  obtain m where m: "rbind (putA a marshall_new) (pack_req_header ?h) = Inr m" "m_wf m"
      "m_cells m = replicate 4 None @ map Some (req_header_bytes ?h @ encA a)"
    using codec dm by (rule request_built)
  obtain req where req: "putA a marshall_new = Inr req" "pack_req_header ?h req = Inr m" using m(1) by (auto simp: rbind_eq_Inr)
  have img: "wire_image (m_cells m) (fill (m_cells m))" by (rule wire_image_fill)
  have "length (fill (m_cells m)) < 2 ^ 31" using wire_image_length [OF img] len by (simp add: m(3))
  with img [unfolded m(3)] obtain u where u: "unpack_req_header (unmarshall_new (fill (m_cells m)) (length (fill (m_cells m)))) = Inr (?h, u)"
      "u_wf u" "u_ok u" "u_rest u = encA a" unfolding m(3) by (rule received_request)
  obtain x u' where x: "getB u = Inr (x, u')" "\<not> u_okdone u'" using bad [OF u(2-4)] by blast
  have f: "h1_fn getB putR r0 meth s u marshall_new = Inr (s, marshall_new, unmarshal_args_failure)" using x by (simp add: h1_fn_def)
  obtain rep where rep: "pack_reply_header ?r marshall_new = Inr rep"
      "m_cells rep = replicate 4 None @ map Some (reply_header_bytes ?r) @ replicate 12 None @ map Some []"
    using m_wf_new by (rule packed_reply [where body = "[]"]) (simp_all add: m_cells_new)
  have img': "wire_image (m_cells rep) (fill (m_cells rep))" by (rule wire_image_fill)
  have "length (fill (m_cells rep)) < 2 ^ 31" using wire_image_length [OF img'] by (simp add: rep(2))
  with img' [unfolded rep(2)] obtain v where "unpack_reply_header (unmarshall_new (fill (m_cells rep)) (length (fill (m_cells rep)))) = Inr (?r, v)"
    unfolding rep(2) by (rule received_reply)
  then have "direct_call1 hs h proc req unmarshall_empty s = Inr (s, fst (u_take_in unmarshall_empty v), unmarshal_args_failure)"
    unfolding direct_call1_def req(2) using u(1) hs f rep(1) by (simp add: deliver_reply_def)
  then show ?thesis by (simp add: rpc_call1_def call_m_def req(1) unmarshal_args_failure_def)
qed

lemma too_few:
  assumes "decodes g x (bs @ cs)" "cs \<noteq> []" "u_wf u" "u_ok u" "u_rest u = bs"
  shows "\<exists>y u'. g u = Inr (y, u') \<and> \<not> u_okdone u'"
proof -
  have "strict_prefix bs (bs @ cs)" using assms(2) by (simp add: strict_prefix_def prefix_def)
  then show ?thesis using assms by (fastforce simp: decodes_def u_okdone_def)
qed

lemma too_many:
  assumes "decodes g x bs" "cs \<noteq> []" "u_wf u" "u_ok u" "u_rest u = bs @ cs"
  shows "\<exists>y u'. g u = Inr (y, u') \<and> \<not> u_okdone u'"
proof -
  have "g u = Inr (x, u_advance (length bs) u)" using assms by (simp add: decodes_def)
  moreover have "length (u_rest u) = u_sz u - u_ind u" by (rule length_u_rest [OF assms(3)])
  then have "length bs + length cs = u_sz u - u_ind u" by (simp add: assms(5))
  moreover have "0 < length cs" using assms(2) by simp
  ultimately have "u_ind u + length bs \<noteq> u_sz u" by linarith
  with \<open>g u = _\<close> show ?thesis by (auto simp: u_okdone_def)
qed


section \<open>The tests pass\<close>

interpretation string_string: wire_pair put_string "get_string s0" string_enc "\<lambda>s. length s < 2 ^ 31"
  put_string "get_string s1" string_enc "\<lambda>s. length s < 2 ^ 31" for s0 s1
  by unfold_locales

interpretation int_int: wire_pair put_int get_int be32 "\<lambda>_. True" put_int get_int be32 "\<lambda>_. True"
  by unfold_locales

lemma length_string_enc: "length (string_enc s) = 4 + length s"
  by (simp add: string_enc_def)

lemma server_table:
  "startserver 22 = Some (h1_fn (get_pair (get_string []) (get_string [])) put_string [] (\<lambda>s (a, b). handle_22 s a b))"
  "startserver 23 = Some (h1_fn get_int put_int 0 handle_fast)"
  "startserver 24 = Some (h1_fn get_int put_int 0 handle_slow)"
  "startserver 25 = Some (h1_fn get_int put_string [] handle_bigrep)"
  by (simp_all add: startserver_def h2_fn_tuple)

lemma call_22:
  assumes "length a + length b < 2 ^ 29"
  shows "rpc_call2 (direct_call1 startserver h) get_string put_string put_string 22 a b r s = Inr (s, 0, a @ b)"
  unfolding rpc_call_tuples
  by (rule direct_call [where hs = startserver and h = h and getR = get_string, OF server_table(1) string_string.pair_codec [of "[]" "[]"] string_codec.wire_codec_axioms])
    (use assms in \<open>simp_all add: handle_22_def length_string_enc\<close>)

lemma call_fast: "rpc_call1 (direct_call1 startserver h) (\<lambda>_. get_int) put_int 23 a r s = Inr (s, 0, a + 1)"
  by (rule direct_call [where hs = startserver and h = h and getR = "\<lambda>_. get_int", OF server_table(2) int_codec.wire_codec_axioms int_codec.wire_codec_axioms])
    (simp_all add: handle_fast_def)

lemma call_slow: "rpc_call1 (direct_call1 startserver h) (\<lambda>_. get_int) put_int 24 a r s = Inr (s, 0, a + 2)"
  by (rule direct_call [where hs = startserver and h = h and getR = "\<lambda>_. get_int", OF server_table(3) int_codec.wire_codec_axioms int_codec.wire_codec_axioms])
    (simp_all add: handle_slow_def)

lemma call_bigrep:
  assumes "unat n < 2 ^ 29"
  shows "rpc_call1 (direct_call1 startserver h) get_string put_int 25 n r s = Inr (s, 0, replicate (unat n) (CHR ''x''))"
proof (rule direct_call [where hs = startserver and h = h and getR = get_string, OF server_table(4) int_codec.wire_codec_axioms string_codec.wire_codec_axioms])
  have "int (unat n) < int (2 ^ 29)" using assms by (simp only: of_nat_less_iff)
  then have n: "uint n < 2 ^ 31" unfolding uint_nat by (rule less_trans) simp
  have "- (2 ^ 31) \<le> uint n" by (rule order_trans [OF _ uint_ge_0]) simp
  from this n have "sint n = uint n" by (simp add: sint_uint signed_take_bit_int_eq_self)
  then have "0 \<le> sint n" by simp
  then show "handle_bigrep s n [] = Inr (s, 0, replicate (unat n) (CHR ''x''))" by (simp add: handle_bigrep_def)
qed (use assms in \<open>simp_all add: length_string_enc\<close>)

lemma call_22_one:
  assumes "length a < 2 ^ 29"
  shows "rpc_call1 (direct_call1 startserver h) getR put_string 22 a r s = Inr (s, unmarshal_args_failure, r)"
proof (rule direct_call_bad_args [where hs = startserver, OF server_table(1) string_codec.wire_codec_axioms])
  fix u assume u: "u_wf u" "u_ok u" "u_rest u = string_enc a"
  have "decodes (get_pair (get_string []) (get_string [])) (a, []) (string_enc a @ string_enc [])"
    using wire_codec.get_decodes [OF string_string.pair_codec [of "[]" "[]"], of "(a, [])"] assms by simp
  then show "\<exists>x u'. get_pair (get_string []) (get_string []) u = Inr (x, u') \<and> \<not> u_okdone u'"
    by (rule too_few) (use u in \<open>simp_all add: string_enc_def be32_def\<close>)
qed (use assms in \<open>simp_all add: length_string_enc\<close>)

lemma call_23_two:
  "rpc_call2 (direct_call1 startserver h) getR put_int put_int 23 a b r s = Inr (s, unmarshal_args_failure, r)"
  unfolding rpc_call_tuples
proof (rule direct_call_bad_args [where hs = startserver, OF server_table(2) int_int.pair_codec])
  fix u assume u: "u_wf u" "u_ok u" "u_rest u = (case (a, b) of (a, b) \<Rightarrow> be32 a @ be32 b)"
  then show "\<exists>x u'. get_int u = Inr (x, u') \<and> \<not> u_okdone u'"
    by (intro too_many [OF int_codec.get_decodes]) (simp_all add: be32_def)
qed simp_all

lemma call_23_strings:
  assumes "length a + length b < 2 ^ 29"
  shows "rpc_call2 (direct_call1 startserver h) getR put_string put_string 23 a b r s = Inr (s, unmarshal_args_failure, r)"
  unfolding rpc_call_tuples
proof (rule direct_call_bad_args [where hs = startserver, OF server_table(2) string_string.pair_codec])
  fix u assume u: "u_wf u" "u_ok u" "u_rest u = (case (a, b) of (a, b) \<Rightarrow> string_enc a @ string_enc b)"
  then show "\<exists>x u'. get_int u = Inr (x, u') \<and> \<not> u_okdone u'"
    by (intro too_many [OF int_codec.get_decodes, where cs = "map byte_of_char a @ string_enc b"]) (simp_all add: string_enc_def be32_def)
qed (use assms in \<open>simp_all add: length_string_enc\<close>)

lemma testmarshall_passes: "testmarshall = Inr ()"
  by code_simp



definition test_header :: req_header where
  "test_header = \<lparr>h_xid = 3, h_proc = 0, h_clt_nonce = 9, h_srv_nonce = 7, h_xid_rep = 2\<rparr>"


end
