(* ===== verification/Extent_Server.thy ===== *)
theory Extent_Server
  imports Rpc_Stubs
begin

text \<open>
  The extent server of \<^verbatim>\<open>src/extent_server.cc\<close>, its wire protocol (\<^verbatim>\<open>src/extent_protocol.h\<close>) and its registration
  (\<^verbatim>\<open>src/extent_smain.cc\<close>). A method takes the time at which it runs, the state and its arguments; the last
  argument and the last result are its reference parameter. \<^verbatim>\<open>size_t\<close> is 32 bits wide: the marshalling operators
  exist for \<^verbatim>\<open>unsigned int\<close> and \<^verbatim>\<open>unsigned long long\<close> and for no other unsigned type of that rank, so these
  calls compile where \<^verbatim>\<open>size_t\<close> is \<^verbatim>\<open>unsigned int\<close>. The limit \<^verbatim>\<open>max_size()\<close> of a string is the argument \<open>mx\<close>.
\<close>

section \<open>Definitions\<close>

definition ext_OK :: u32 where "ext_OK = 0"
definition ext_RPCERR :: u32 where "ext_RPCERR = 1"
definition ext_NOENT :: u32 where "ext_NOENT = 2"
definition ext_IOERR :: u32 where "ext_IOERR = 3"

record attr =
  a_atime :: u32
  a_mtime :: u32
  a_ctime :: u32
  a_size :: u32

definition put_attr :: "attr \<Rightarrow> marshall \<Rightarrow> fault + marshall" where
  "put_attr a m =
     rbind (put_uint (a_atime a) m) (\<lambda>m. rbind (put_uint (a_mtime a) m) (\<lambda>m.
     rbind (put_uint (a_ctime a) m) (\<lambda>m. put_uint (a_size a) m)))"

definition get_attr :: "unmarshall \<Rightarrow> fault + attr \<times> unmarshall" where
  "get_attr u =
     rbind (get_uint u) (\<lambda>(at, u). rbind (get_uint u) (\<lambda>(mt, u). rbind (get_uint u) (\<lambda>(ct, u).
     rbind (get_uint u) (\<lambda>(sz, u). Inr (\<lparr>a_atime = at, a_mtime = mt, a_ctime = ct, a_size = sz\<rparr>, u)))))"

record store =
  st_buf :: string
  st_a :: attr

text \<open>The table is a \<^verbatim>\<open>map<int, store>\<close>: a 64-bit extent id is converted to a 32-bit key.\<close>

type_synonym extents = "u32 \<rightharpoonup> store"

definition ext_key :: "u64 \<Rightarrow> u32" where
  "ext_key eid = ucast eid"

subsection \<open>Strings of the standard library\<close>

definition str_resize :: "nat \<Rightarrow> nat \<Rightarrow> string \<Rightarrow> fault + string" where
  "str_resize mx n s =
     (if n > mx then Inl Std_Exception else Inr (take n s @ replicate (n - length s) (CHR 0x00)))"

definition str_replace :: "nat \<Rightarrow> nat \<Rightarrow> nat \<Rightarrow> string \<Rightarrow> string \<Rightarrow> fault + string" where
  "str_replace mx pos n t s =
     (if pos > length s then Inl Std_Exception
      else let r = take pos s @ t @ drop (pos + n) s
           in if length r > mx then Inl Std_Exception else Inr r)"

subsection \<open>The methods\<close>

definition es_put :: "u32 \<Rightarrow> extents \<Rightarrow> u64 \<Rightarrow> string \<Rightarrow> u32 \<Rightarrow> fault + extents \<times> u32 \<times> u32" where
  "es_put now es eid buf r =
     Inr (es(ext_key eid \<mapsto> \<lparr>st_buf = buf,
            st_a = \<lparr>a_atime = now, a_mtime = now, a_ctime = now, a_size = of_nat (length buf)\<rparr>\<rparr>), ext_OK, r)"

definition es_new :: "u32 \<Rightarrow> fault + extents" where
  "es_new now = rbind (es_put now Map.empty 1 [] 0) (\<lambda>(es, _, _). Inr es)"

definition es_get :: "u32 \<Rightarrow> extents \<Rightarrow> u64 \<Rightarrow> string \<Rightarrow> fault + extents \<times> u32 \<times> string" where
  "es_get now es eid buf =
     (case es (ext_key eid) of
        None \<Rightarrow> Inr (es, ext_NOENT, buf)
      | Some s \<Rightarrow> Inr (es(ext_key eid \<mapsto> s\<lparr>st_a := (st_a s)\<lparr>a_atime := now\<rparr>\<rparr>), ext_OK, st_buf s))"

definition es_getattr :: "extents \<Rightarrow> u64 \<Rightarrow> attr \<Rightarrow> fault + extents \<times> u32 \<times> attr" where
  "es_getattr es eid a =
     (case es (ext_key eid) of
        None \<Rightarrow> Inr (es, ext_NOENT, \<lparr>a_atime = 0, a_mtime = 0, a_ctime = 0, a_size = 0\<rparr>)
      | Some s \<Rightarrow> Inr (es, ext_OK, st_a s))"

definition es_remove :: "extents \<Rightarrow> u64 \<Rightarrow> u32 \<Rightarrow> fault + extents \<times> u32 \<times> u32" where
  "es_remove es eid r =
     (case es (ext_key eid) of
        None \<Rightarrow> Inr (es, ext_NOENT, r)
      | Some s \<Rightarrow> Inr (es(ext_key eid := None), ext_OK, r))"

definition es_resize :: "nat \<Rightarrow> u32 \<Rightarrow> extents \<Rightarrow> u64 \<Rightarrow> u32 \<Rightarrow> u32 \<Rightarrow> fault + extents \<times> u32 \<times> u32" where
  "es_resize mx now es eid new_size r =
     (case es (ext_key eid) of
        None \<Rightarrow> Inr (es, ext_NOENT, r)
      | Some s \<Rightarrow>
          let s = (if length (st_buf s) > unat new_size then s\<lparr>st_a := (st_a s)\<lparr>a_mtime := now\<rparr>\<rparr> else s)
          in rbind (str_resize mx (unat new_size) (st_buf s)) (\<lambda>b.
               Inr (es(ext_key eid \<mapsto> s\<lparr>st_buf := b, st_a := (st_a s)\<lparr>a_ctime := now\<rparr>\<rparr>), ext_OK, r)))"

definition es_getbuf :: "u32 \<Rightarrow> extents \<Rightarrow> u64 \<Rightarrow> u32 \<Rightarrow> u32 \<Rightarrow> string \<Rightarrow> fault + extents \<times> u32 \<times> string" where
  "es_getbuf now es eid ask_size off buf =
     (case es (ext_key eid) of
        None \<Rightarrow> Inr (es, ext_NOENT, buf)
      | Some s \<Rightarrow>
          let len = length (st_buf s)
          in if unat off < len then
               let allowsize = (if len - unat off > unat ask_size then unat ask_size else len - unat off)
               in Inr (es(ext_key eid \<mapsto> s\<lparr>st_a := (st_a s)\<lparr>a_atime := now\<rparr>\<rparr>), ext_OK,
                       take allowsize (drop (unat off) (st_buf s)))
             else Inr (es, ext_IOERR, buf))"

text \<open>The end of the written range is computed in \<^verbatim>\<open>size_t\<close>.\<close>

definition es_putbuf :: "nat \<Rightarrow> u32 \<Rightarrow> extents \<Rightarrow> u64 \<Rightarrow> u32 \<Rightarrow> string \<Rightarrow> u32 \<Rightarrow> fault + extents \<times> u32 \<times> u32" where
  "es_putbuf mx now es eid off buf r =
     (case es (ext_key eid) of
        None \<Rightarrow> Inr (es, ext_NOENT, r)
      | Some s \<Rightarrow>
          let end = unat (off + of_nat (length buf))
          in rbind (if end > length (st_buf s) then str_resize mx end (st_buf s) else Inr (st_buf s)) (\<lambda>b.
             rbind (str_replace mx (unat off) (length buf) buf b) (\<lambda>b.
               Inr (es(ext_key eid \<mapsto> s\<lparr>st_buf := b,
                      st_a := (st_a s)\<lparr>a_mtime := now, a_size := of_nat (length b)\<rparr>\<rparr>), ext_OK, r))))"

subsection \<open>Registration\<close>

definition ext_proc_put :: u32 where "ext_proc_put = 0x6001"
definition ext_proc_get :: u32 where "ext_proc_get = 0x6002"
definition ext_proc_getattr :: u32 where "ext_proc_getattr = 0x6003"
definition ext_proc_remove :: u32 where "ext_proc_remove = 0x6004"
definition ext_proc_resize :: u32 where "ext_proc_resize = 0x6005"
definition ext_proc_getbuf :: u32 where "ext_proc_getbuf = 0x6006"
definition ext_proc_putbuf :: u32 where "ext_proc_putbuf = 0x6007"

text \<open>
  The handler table of \<^verbatim>\<open>extent_smain.cc\<close>, for the time \<open>now\<close> at which a handler runs; a reply variable starts with
  the value \<open>r0\<close> or \<open>a0\<close>, which the code leaves uninitialised.
\<close>

definition ext_handlers :: "nat \<Rightarrow> u32 \<Rightarrow> u32 \<Rightarrow> attr \<Rightarrow> u32 \<rightharpoonup> extents handler" where
  "ext_handlers mx now r0 a0 = [
     ext_proc_get \<mapsto> h1_fn get_ull put_string [] (es_get now),
     ext_proc_getattr \<mapsto> h1_fn get_ull put_attr a0 es_getattr,
     ext_proc_put \<mapsto> h2_fn get_ull (get_string []) put_int r0 (es_put now),
     ext_proc_remove \<mapsto> h1_fn get_ull put_int r0 es_remove,
     ext_proc_resize \<mapsto> h2_fn get_ull get_uint put_int r0 (es_resize mx now),
     ext_proc_getbuf \<mapsto> h3_fn get_ull get_uint get_uint put_string [] (es_getbuf now),
     ext_proc_putbuf \<mapsto> h3_fn get_ull get_uint (get_string []) put_int r0 (es_putbuf mx now)]"

subsection \<open>The client stubs\<close>

text \<open>\<^verbatim>\<open>src/extent_client.cc\<close>, over the exchange \<open>call1\<close> of the RPC client.\<close>

definition ec_get :: "'c call1 \<Rightarrow> u64 \<Rightarrow> string \<Rightarrow> 'c \<Rightarrow> fault + 'c \<times> u32 \<times> string" where
  "ec_get call1 eid buf = rpc_call1 call1 get_string put_ull ext_proc_get eid buf"

definition ec_resize :: "'c call1 \<Rightarrow> u64 \<Rightarrow> u32 \<Rightarrow> u32 \<Rightarrow> 'c \<Rightarrow> fault + 'c \<times> u32 \<times> u32" where
  "ec_resize call1 eid new_size r = rpc_call2 call1 (\<lambda>_. get_int) put_ull put_uint ext_proc_resize eid new_size r"

definition ec_getbuf :: "'c call1 \<Rightarrow> u64 \<Rightarrow> u32 \<Rightarrow> u32 \<Rightarrow> string \<Rightarrow> 'c \<Rightarrow> fault + 'c \<times> u32 \<times> string" where
  "ec_getbuf call1 eid ask_size off buf =
     rpc_call3 call1 get_string put_ull put_uint put_uint ext_proc_getbuf eid ask_size off buf"

definition ec_putbuf :: "'c call1 \<Rightarrow> u64 \<Rightarrow> u32 \<Rightarrow> string \<Rightarrow> u32 \<Rightarrow> 'c \<Rightarrow> fault + 'c \<times> u32 \<times> u32" where
  "ec_putbuf call1 eid off buf r =
     rpc_call3 call1 (\<lambda>_. get_int) put_ull put_uint put_string ext_proc_putbuf eid off buf r"

definition ec_getattr :: "'c call1 \<Rightarrow> u64 \<Rightarrow> attr \<Rightarrow> 'c \<Rightarrow> fault + 'c \<times> u32 \<times> attr" where
  "ec_getattr call1 eid a = rpc_call1 call1 (\<lambda>_. get_attr) put_ull ext_proc_getattr eid a"

definition ec_put :: "'c call1 \<Rightarrow> u64 \<Rightarrow> string \<Rightarrow> u32 \<Rightarrow> 'c \<Rightarrow> fault + 'c \<times> u32 \<times> u32" where
  "ec_put call1 eid buf r = rpc_call2 call1 (\<lambda>_. get_int) put_ull put_string ext_proc_put eid buf r"

definition ec_remove :: "'c call1 \<Rightarrow> u64 \<Rightarrow> u32 \<Rightarrow> 'c \<Rightarrow> fault + 'c \<times> u32 \<times> u32" where
  "ec_remove call1 eid r = rpc_call1 call1 (\<lambda>_. get_int) put_ull ext_proc_remove eid r"

section \<open>The contract of an extent store\<close>

text \<open>
  What the file system relies on, in terms of the contents of the extents by key. The second locale adds reading
  and writing parts of an extent: \<open>pwrite\<close> is the effect of a write at an offset, with a gap filled by zeros.
\<close>

definition pwrite :: "nat \<Rightarrow> string \<Rightarrow> string \<Rightarrow> string" where
  "pwrite off b c = take off (c @ replicate (off - length c) (CHR 0x00)) @ b @ drop (off + length b) c"

lemma length_pwrite: "length (pwrite off b c) = max (length c) (off + length b)"
  by (auto simp: pwrite_def)

lemma pread_pwrite: "take (length b) (drop off (pwrite off b c)) = b"
  by (simp add: pwrite_def)

locale extent_store =
  fixes get :: "u32 \<Rightarrow> 's \<Rightarrow> u64 \<Rightarrow> string \<Rightarrow> fault + 's \<times> u32 \<times> string"
    and put :: "u32 \<Rightarrow> 's \<Rightarrow> u64 \<Rightarrow> string \<Rightarrow> u32 \<Rightarrow> fault + 's \<times> u32 \<times> u32"
    and remove :: "'s \<Rightarrow> u64 \<Rightarrow> u32 \<Rightarrow> fault + 's \<times> u32 \<times> u32"
    and content :: "'s \<Rightarrow> u32 \<Rightarrow> string option"
  assumes get_law: "\<exists>s'. get now s eid b = Inr (s', case content s (ext_key eid) of None \<Rightarrow> (ext_NOENT, b) | Some c \<Rightarrow> (ext_OK, c)) \<and>
      content s' = content s"
    and put_law: "\<exists>s'. put now s eid b r = Inr (s', ext_OK, r) \<and> content s' = (content s)(ext_key eid \<mapsto> b)"
    and remove_law: "\<exists>s'. remove s eid r = Inr (s', if content s (ext_key eid) = None then ext_NOENT else ext_OK, r) \<and>
      content s' = (content s)(ext_key eid := None)"
begin

lemma get_found: "content s (ext_key eid) = Some c \<Longrightarrow> \<exists>s'. get now s eid b = Inr (s', ext_OK, c) \<and> content s' = content s"
  using get_law [of now s eid b] by simp

lemma get_after_put:
  "\<exists>s1 s2. put t1 s eid b r = Inr (s1, ext_OK, r) \<and> get t2 s1 eid b' = Inr (s2, ext_OK, b) \<and> content s2 = (content s)(ext_key eid \<mapsto> b)"
proof -
  obtain s1 where s1: "put t1 s eid b r = Inr (s1, ext_OK, r)" "content s1 = (content s)(ext_key eid \<mapsto> b)"
    using put_law by blast
  then obtain s2 where "get t2 s1 eid b' = Inr (s2, ext_OK, b)" "content s2 = content s1"
    using get_found [of s1 eid b t2 b'] by auto
  with s1 show ?thesis by auto
qed

lemma get_after_remove:
  "\<exists>s1 st. remove s eid r = Inr (s1, st, r) \<and> (\<forall>t b. \<exists>s2. get t s1 eid b = Inr (s2, ext_NOENT, b))"
proof -
  obtain s1 where s1: "remove s eid r = Inr (s1, if content s (ext_key eid) = None then ext_NOENT else ext_OK, r)"
      "content s1 = (content s)(ext_key eid := None)"
    using remove_law by blast
  moreover have "\<exists>s2. get t s1 eid b = Inr (s2, ext_NOENT, b)" for t b
    using get_law [of t s1 eid b] s1(2) by auto
  ultimately show ?thesis by blast
qed

end

locale extent_file = extent_store +
  fixes getbuf :: "u32 \<Rightarrow> 's \<Rightarrow> u64 \<Rightarrow> u32 \<Rightarrow> u32 \<Rightarrow> string \<Rightarrow> fault + 's \<times> u32 \<times> string"
    and putbuf :: "nat \<Rightarrow> u32 \<Rightarrow> 's \<Rightarrow> u64 \<Rightarrow> u32 \<Rightarrow> string \<Rightarrow> u32 \<Rightarrow> fault + 's \<times> u32 \<times> u32"
  assumes getbuf_law: "content s (ext_key eid) = Some c \<Longrightarrow>
      \<exists>s'. getbuf now s eid n off b = Inr (s', if unat off < length c then (ext_OK, take (unat n) (drop (unat off) c)) else (ext_IOERR, b)) \<and>
        content s' = content s"
    and putbuf_law: "content s (ext_key eid) = Some c \<Longrightarrow> unat off + length b < 2 ^ 32 \<Longrightarrow>
      unat off + length b \<le> mx \<Longrightarrow> length c \<le> mx \<Longrightarrow>
      \<exists>s'. putbuf mx now s eid off b r = Inr (s', ext_OK, r) \<and> content s' = (content s)(ext_key eid \<mapsto> pwrite (unat off) b c)"
begin

lemma read_after_write:
  assumes "content s (ext_key eid) = Some c" "unat off + length b < 2 ^ 32" "unat off + length b \<le> mx" "length c \<le> mx" "b \<noteq> []"
    "unat n = length b"
  shows "\<exists>s1 s2. putbuf mx t1 s eid off b r = Inr (s1, ext_OK, r) \<and> getbuf t2 s1 eid n off b' = Inr (s2, ext_OK, b)"
proof -
  obtain s1 where s1: "putbuf mx t1 s eid off b r = Inr (s1, ext_OK, r)"
      "content s1 = (content s)(ext_key eid \<mapsto> pwrite (unat off) b c)"
    using putbuf_law [OF assms(1-4)] by blast
  have "unat off < length (pwrite (unat off) b c)" using assms(5) by (cases b) (simp_all add: length_pwrite)
  with getbuf_law [of s1 eid "pwrite (unat off) b c" t2 n off b'] s1(2) obtain s2 where "getbuf t2 s1 eid n off b' = Inr (s2, ext_OK, b)"
    by (auto simp: assms(6) pread_pwrite)
  with s1(1) show ?thesis by blast
qed

end

section \<open>The server fulfils it\<close>

definition content :: "extents \<Rightarrow> u32 \<Rightarrow> string option" where
  "content es k = map_option st_buf (es k)"

lemma content_upd [simp]: "content (es(k := x)) = (content es)(k := map_option st_buf x)"
  by (auto simp: content_def)

lemma content_same: "es k = Some s \<Longrightarrow> st_buf s' = st_buf s \<Longrightarrow> content (es(k \<mapsto> s')) = content es"
  by (auto simp: content_def)

interpretation es: extent_file es_get es_put es_remove content es_getbuf es_putbuf
proof
  fix now :: u32 and s :: extents and eid :: u64 and b :: string and r :: u32
  show "\<exists>s'. es_get now s eid b =
      Inr (s', case content s (ext_key eid) of None \<Rightarrow> (ext_NOENT, b) | Some c \<Rightarrow> (ext_OK, c)) \<and> content s' = content s"
    by (cases "s (ext_key eid)") (auto simp: es_get_def content_def)
  show "\<exists>s'. es_put now s eid b r = Inr (s', ext_OK, r) \<and> content s' = (content s)(ext_key eid \<mapsto> b)"
    by (simp add: es_put_def)
  show "\<exists>s'. es_remove s eid r = Inr (s', if content s (ext_key eid) = None then ext_NOENT else ext_OK, r) \<and>
      content s' = (content s)(ext_key eid := None)"
    by (cases "s (ext_key eid)") (auto simp: es_remove_def content_def)
next
  fix s :: extents and eid :: u64 and c b :: string and now n off :: u32
  assume "content s (ext_key eid) = Some c"
  then obtain st where st: "s (ext_key eid) = Some st" "st_buf st = c" by (auto simp: content_def)
  have "take (if length c - unat off > unat n then unat n else length c - unat off) (drop (unat off) c) = take (unat n) (drop (unat off) c)"
    by auto
  with st show "\<exists>s'. es_getbuf now s eid n off b =
      Inr (s', if unat off < length c then (ext_OK, take (unat n) (drop (unat off) c)) else (ext_IOERR, b)) \<and>
      content s' = content s"
    by (auto simp: es_getbuf_def Let_def content_same simp del: content_upd)
next
  fix s :: extents and eid :: u64 and c b :: string and off :: u32 and mx :: nat and now r :: u32
  assume a: "content s (ext_key eid) = Some c" "unat off + length b < 2 ^ 32" "unat off + length b \<le> mx" "length c \<le> mx"
  then obtain st where st: "s (ext_key eid) = Some st" "st_buf st = c" by (auto simp: content_def)
  have e: "unat (off + of_nat (length b)) = unat off + length b"
    using a(2) by (simp add: unat_add_lem [THEN iffD1] unat_of_nat take_bit_nat_eq_self)
  let ?d = "if unat off + length b > length c then c @ replicate (unat off + length b - length c) (CHR 0x00) else c"
  have d: "(if unat off + length b > length c then str_resize mx (unat off + length b) c else Inr c) = Inr ?d"
    using a(3) by (simp add: str_resize_def)
  have p: "take (unat off) ?d @ b @ drop (unat off + length b) ?d = pwrite (unat off) b c"
    by (auto simp: pwrite_def min_def)
  have l: "length (pwrite (unat off) b c) \<le> mx" using a(3,4) by (simp add: length_pwrite)
  have "str_replace mx (unat off) (length b) b ?d = Inr (pwrite (unat off) b c)"
    unfolding str_replace_def Let_def p using l by auto
  with d e st show "\<exists>s'. es_putbuf mx now s eid off b r = Inr (s', ext_OK, r) \<and>
      content s' = (content s)(ext_key eid \<mapsto> pwrite (unat off) b c)"
    by (auto simp: es_putbuf_def Let_def split: if_splits)
qed

interpretation attr_codec: wire_codec put_attr get_attr
  "\<lambda>a. be32 (a_atime a) @ be32 (a_mtime a) @ be32 (a_ctime a) @ be32 (a_size a)" "\<lambda>_. True"
proof
  fix a :: attr
  show "appends (put_attr a) (be32 (a_atime a) @ be32 (a_mtime a) @ be32 (a_ctime a) @ be32 (a_size a))"
    unfolding put_attr_def by (intro appends_seq put_uint_appends)
  have "decodes get_attr \<lparr>a_atime = a_atime a, a_mtime = a_mtime a, a_ctime = a_ctime a, a_size = a_size a\<rparr>
      (be32 (a_atime a) @ be32 (a_mtime a) @ be32 (a_ctime a) @ be32 (a_size a) @ [])"
    unfolding get_attr_def
    by (intro decodes_seq [OF get_uint_decodes] robust_intros get_uint_robust decodes_return)
  then show "decodes get_attr a (be32 (a_atime a) @ be32 (a_mtime a) @ be32 (a_ctime a) @ be32 (a_size a))" by (cases a) simp
next
  show "robust get_attr"
    unfolding get_attr_def by (intro robust_intros get_uint_robust)
qed

section \<open>Properties\<close>

text \<open>
  Writing a piece of an extent and reading it back: within the limits, \<^verbatim>\<open>putbuf\<close> replaces exactly the bytes from
  \<^verbatim>\<open>off\<close> on, extends the extent when needed and fills a gap with zeros, leaves every other extent alone, and
  \<^verbatim>\<open>getbuf\<close> at the same place returns what was written.
\<close>

lemma putbuf_getbuf:
  assumes "content es (ext_key eid) = Some c" "unat off + length b < 2 ^ 32" "unat off + length b \<le> mx" "length c \<le> mx" "b \<noteq> []"
    "unat n = length b"
  shows "\<exists>es1 es2. es_putbuf mx t1 es eid off b r = Inr (es1, ext_OK, r) \<and>
    content es1 = (content es)(ext_key eid \<mapsto> pwrite (unat off) b c) \<and>
    es_getbuf t2 es1 eid n off b' = Inr (es2, ext_OK, b) \<and> content es2 = content es1"
proof -
  obtain es1 es2 where r: "es_putbuf mx t1 es eid off b r = Inr (es1, ext_OK, r)" "es_getbuf t2 es1 eid n off b' = Inr (es2, ext_OK, b)"
    using es.read_after_write [OF assms] by blast
  have c1: "content es1 = (content es)(ext_key eid \<mapsto> pwrite (unat off) b c)"
    using es.putbuf_law [OF assms(1-4), of t1 r] r(1) by auto
  moreover have "content es2 = content es1"
    using es.getbuf_law [of es1 eid "pwrite (unat off) b c" t2 n off b'] c1 r(2) by auto
  ultimately show ?thesis using r by blast
qed

definition demo_extents :: extents where
  "demo_extents = [1 \<mapsto> \<lparr>st_buf = ''ab'', st_a = \<lparr>a_atime = 0, a_mtime = 0, a_ctime = 0, a_size = 2\<rparr>\<rparr>]"

lemma putbuf_getbuf_example:
  "\<exists>es1 es2. es_putbuf 1000 5 demo_extents 1 4 ''xyz'' 0 = Inr (es1, ext_OK, 0) \<and>
     content es1 1 = Some [CHR ''a'', CHR ''b'', CHR 0x00, CHR 0x00, CHR ''x'', CHR ''y'', CHR ''z''] \<and>
     es_getbuf 6 es1 1 3 4 [] = Inr (es2, ext_OK, ''xyz'')"
proof -
  have "content demo_extents (ext_key 1) = Some ''ab''" by (simp add: content_def demo_extents_def ext_key_def)
  moreover have "unat (4 :: u32) + length ''xyz'' < 2 ^ 32" "unat (4 :: u32) + length ''xyz'' \<le> 1000" "length ''ab'' \<le> 1000"
      "''xyz'' \<noteq> []" "unat (3 :: u32) = length ''xyz''" by simp_all
  ultimately obtain es1 es2 where "es_putbuf 1000 5 demo_extents 1 4 ''xyz'' 0 = Inr (es1, ext_OK, 0)"
      "content es1 = (content demo_extents)(ext_key 1 \<mapsto> pwrite (unat (4 :: u32)) ''xyz'' ''ab'')"
      "es_getbuf 6 es1 1 3 4 [] = Inr (es2, ext_OK, ''xyz'')"
    using putbuf_getbuf by blast
  moreover have "pwrite (unat (4 :: u32)) ''xyz'' ''ab'' = [CHR ''a'', CHR ''b'', CHR 0x00, CHR 0x00, CHR ''x'', CHR ''y'', CHR ''z'']"
    by code_simp
  ultimately show ?thesis by (auto simp: ext_key_def)
qed

text \<open>
  C28. The attribute \<^verbatim>\<open>size\<close> agrees with the length of the contents: every operation except \<^verbatim>\<open>resize\<close> keeps this
  invariant (when it does not throw), with lengths below \<open>2^32\<close>.
\<close>

definition sizes_ok :: "extents \<Rightarrow> bool" where
  "sizes_ok es \<longleftrightarrow> (\<forall>k s. es k = Some s \<longrightarrow> a_size (st_a s) = of_nat (length (st_buf s)))"

theorem extent_sizes_kept:
  assumes "sizes_ok es"
    and "es_put now es eid b r = Inr (es', st, r') \<or> es_get now es eid b = Inr (es', st, b') \<or> es_getattr es eid a = Inr (es', st, a') \<or>
      es_remove es eid r = Inr (es', st, r') \<or> es_getbuf now es eid n off b = Inr (es', st, b') \<or>
      es_putbuf mx now es eid off b r = Inr (es', st, r')"
  shows "sizes_ok es'"
proof -
  have upd: "sizes_ok (es(k \<mapsto> s))" if "a_size (st_a s) = of_nat (length (st_buf s))" for k s
    using assms(1) that by (auto simp: sizes_ok_def)
  have same: "a_size (st_a s) = of_nat (length (st_buf s))" if "es k = Some s" for k s
    using assms(1) that by (simp add: sizes_ok_def)
  from assms(2) show ?thesis
  proof (elim disjE)
    assume "es_put now es eid b r = Inr (es', st, r')"
    then show ?thesis by (auto simp: es_put_def intro!: upd)
  next
    assume "es_get now es eid b = Inr (es', st, b')"
    then show ?thesis using assms(1) same by (auto simp: es_get_def intro!: upd split: option.splits)
  next
    assume "es_getattr es eid a = Inr (es', st, a')"
    then show ?thesis using assms(1) by (auto simp: es_getattr_def split: option.splits)
  next
    assume "es_remove es eid r = Inr (es', st, r')"
    then show ?thesis using assms(1) by (auto simp: es_remove_def sizes_ok_def split: option.splits if_splits)
  next
    assume "es_getbuf now es eid n off b = Inr (es', st, b')"
    then show ?thesis using assms(1) same by (auto simp: es_getbuf_def Let_def intro!: upd split: option.splits if_splits)
  next
    assume "es_putbuf mx now es eid off b r = Inr (es', st, r')"
    then show ?thesis using assms(1)
      by (auto simp: es_putbuf_def Let_def rbind_eq_Inr intro!: upd split: option.splits)
  qed
qed

theorem extent_sizes_kept_witness:
  "\<exists>es'. es_putbuf 1000 5 demo_extents 1 4 ''xyz'' 0 = Inr (es', ext_OK, 0) \<and> sizes_ok es'"
proof -
  have "sizes_ok demo_extents" by (simp add: sizes_ok_def demo_extents_def)
  moreover obtain es' where "es_putbuf 1000 5 demo_extents 1 4 ''xyz'' 0 = Inr (es', ext_OK, 0)"
    by (simp add: es_putbuf_def demo_extents_def ext_key_def Let_def str_resize_def str_replace_def)
  ultimately show ?thesis using extent_sizes_kept by blast
qed

text \<open>
  \<^verbatim>\<open>resize\<close> changes the contents and not the attribute \<^verbatim>\<open>size\<close>: \<^verbatim>\<open>getattr\<close> still reports the old size.
\<close>

lemma resize_keeps_old_size:
  assumes "es (ext_key eid) = Some s" "unat n \<le> mx"
  shows "\<exists>es' a'. es_resize mx now es eid n r = Inr (es', ext_OK, r) \<and>
    map_option length (content es' (ext_key eid)) = Some (unat n) \<and>
    es_getattr es' eid a = Inr (es', ext_OK, a') \<and> a_size a' = a_size (st_a s)"
  using assms by (auto simp: es_resize_def str_resize_def es_getattr_def Let_def)

lemma resize_keeps_old_size_example:
  "\<exists>es' a'. es_resize 1000 9 demo_extents 1 100 0 = Inr (es', ext_OK, 0) \<and> map_option length (content es' 1) = Some 100 \<and>
     es_getattr es' 1 \<lparr>a_atime = 0, a_mtime = 0, a_ctime = 0, a_size = 0\<rparr> = Inr (es', ext_OK, a') \<and> a_size a' = 2"
  using resize_keeps_old_size [of demo_extents 1 _ 100 1000 9 0 "\<lparr>a_atime = 0, a_mtime = 0, a_ctime = 0, a_size = 0\<rparr>"]
  by (simp add: demo_extents_def ext_key_def)

text \<open>
  The end of a written range wraps around: when \<^verbatim>\<open>off + buf.size()\<close> exceeds the range of \<^verbatim>\<open>size_t\<close> and \<^verbatim>\<open>off\<close> lies
  beyond the extent, the extent is not extended as far as \<^verbatim>\<open>off\<close>, \<^verbatim>\<open>replace\<close> throws, and nothing catches it.
\<close>

lemma putbuf_wraps:
  assumes "content es (ext_key eid) = Some c" "length c < unat off" "length b < 2 ^ 32" "2 ^ 32 \<le> unat off + length b"
  shows "es_putbuf mx now es eid off b r = Inl Std_Exception"
proof -
  obtain s where s: "es (ext_key eid) = Some s" "st_buf s = c" using assms(1) by (auto simp: content_def)
  let ?e = "unat (off + of_nat (length b))"
  have "unat off < 2 ^ 32" using unsigned_less [where ?'a = nat, of off] by simp
  moreover have "?e = (unat off + length b) mod 2 ^ 32"
    by (simp add: unat_word_ariths unat_of_nat mod_add_right_eq)
  ultimately have e: "?e < unat off" using assms(3,4) by (simp add: le_mod_geq)
  have "str_replace mx (unat off) (length b) b d = Inl Std_Exception" if "length d < unat off" for d
    using that by (simp add: str_replace_def)
  moreover have "length d = ?e" if "str_resize mx ?e c = Inr d" "length c < ?e" for d
    using that by (auto simp: str_resize_def split: if_splits)
  moreover have "str_resize mx ?e c = Inl Std_Exception \<or> (\<exists>d. str_resize mx ?e c = Inr d)" by (simp add: str_resize_def)
  ultimately show ?thesis using s e assms(2) by (auto simp: es_putbuf_def Let_def)
qed

lemma putbuf_wraps_example:
  "es_putbuf 1000 5 demo_extents 1 0xFFFFFFFE ''xyz'' 0 = Inl Std_Exception"
  by (rule putbuf_wraps [of _ _ "''ab''"]) (simp_all add: content_def demo_extents_def ext_key_def)

section \<open>The extent server behind RPC\<close>

lemma ext_handlers_get: "ext_handlers mx now r0 a0 ext_proc_get = Some (h1_fn get_ull put_string [] (es_get now))"
  and ext_handlers_put: "ext_handlers mx now r0 a0 ext_proc_put =
    Some (h1_fn (get_pair get_ull (get_string [])) put_int r0 (\<lambda>es (eid, buf). es_put now es eid buf))"
  by (simp_all add: ext_handlers_def h2_fn_tuple ext_proc_get_def ext_proc_getattr_def ext_proc_put_def ext_proc_remove_def
      ext_proc_resize_def ext_proc_getbuf_def ext_proc_putbuf_def)

text \<open>
  The client stubs and the registered handlers together: when \<^verbatim>\<open>extent_client::put\<close> is served and afterwards
  \<^verbatim>\<open>extent_client::get\<close> of the same extent, whatever the unwritten bytes of the blocks on the wire, the first call
  returns OK and the second returns OK and the buffer that was put.
\<close>

lemma extent_put_get_over_rpc:
  assumes len: "length buf < 2 ^ 29"
    and put: "put_pair put_ull put_string (eid, buf) marshall_new = Inr req1" "ext_handlers mx t1 r0 a0 ext_proc_put = Some f1"
      "served f1 h1 req1 es es1 bs1"
    and get: "put_ull eid marshall_new = Inr req2" "ext_handlers mx t2 r0 a0 ext_proc_get = Some f2" "served f2 h2 req2 es1 es2 bs2"
  shows "ec_put (deliver_reply bs1) eid buf r c = Inr (c, ext_OK, r0) \<and> ec_get (deliver_reply bs2) eid buf0 c' = Inr (c', ext_OK, buf)"
proof -
  define s1 where "s1 = es(ext_key eid \<mapsto> \<lparr>st_buf = buf,
    st_a = \<lparr>a_atime = t1, a_mtime = t1, a_ctime = t1, a_size = of_nat (length buf)\<rparr>\<rparr>)"
  have f1: "f1 = h1_fn (get_pair get_ull (get_string [])) put_int r0 (\<lambda>es (eid, buf). es_put t1 es eid buf)"
    using put(2) by (simp add: ext_handlers_put)
  have f2: "f2 = h1_fn get_ull put_string [] (es_get t2)" using get(2) by (simp add: ext_handlers_get)
  have m1: "(\<lambda>es (eid, buf). es_put t1 es eid buf) es (eid, buf) r0 = Inr (s1, ext_OK, r0)" by (simp add: es_put_def s1_def)
  have ok: "0 \<le> sint ext_OK" by (simp add: ext_OK_def)
  have l1: "length (case (eid, buf) of (a, b) \<Rightarrow> be64 a @ string_enc b) < 2 ^ 30" "length (be32 r0) < 2 ^ 30"
    "length (be64 eid) < 2 ^ 30" "length (string_enc buf) < 2 ^ 30"
    using len by (simp_all add: string_enc_def)
  have d1: "case (eid, buf) of (a, b) \<Rightarrow> True \<and> length b < 2 ^ 31" "length buf < 2 ^ 31" using len by simp_all
  note c1 = served_call [OF ull_string.pair_codec [of "[]"] int_codec.wire_codec_axioms d1(1) TrueI m1 ok l1(1,2) put(1) put(3) [unfolded f1]]
  have s1: "es1 = s1" by (rule c1(1))
  obtain s2 where m2: "es_get t2 es1 eid [] = Inr (s2, ext_OK, buf)"
    by (simp add: es_get_def s1 s1_def)
  note c2 = served_call [where getR = get_string and ?r1.0 = buf0, OF ull_codec.wire_codec_axioms string_codec.wire_codec_axioms TrueI d1(2) m2 ok l1(3,4) get(1) get(3) [unfolded f2]]
  show ?thesis using c1(2) [where c = c] c2(2) [where c = c'] by (simp add: ec_put_def ec_get_def rpc_call_tuples)
qed

lemma extent_put_get_over_rpc_example:
  "\<exists>bs1 bs2. ec_put (deliver_reply bs1) 7 ''hello'' 0 () = Inr ((), ext_OK, 0) \<and> ec_get (deliver_reply bs2) 7 [] () = Inr ((), ext_OK, ''hello'')"
proof -
  let ?h = "\<lparr>h_xid = 3, h_proc = 5, h_clt_nonce = 9, h_srv_nonce = 0, h_xid_rep = 2\<rparr>"
  have ok: "0 \<le> sint ext_OK" by (simp add: ext_OK_def)
  define s1 where "s1 = demo_extents(ext_key 7 \<mapsto> \<lparr>st_buf = ''hello'',
    st_a = \<lparr>a_atime = 5, a_mtime = 5, a_ctime = 5, a_size = of_nat (length ''hello'')\<rparr>\<rparr>)"
  have m1: "(\<lambda>es (eid, buf). es_put 5 es eid buf) demo_extents (7, ''hello'') 0 = Inr (s1, ext_OK, 0)"
    by (simp add: es_put_def s1_def)
  have "content s1 (ext_key 7) = Some ''hello''" by (simp add: s1_def)
  from es.get_found [OF this, of 6 "[]"] obtain s2 where m2: "es_get 6 s1 7 [] = Inr (s2, ext_OK, ''hello'')" by (elim exE conjE)
  have d: "case (7 :: u64, ''hello'') of (a, b) \<Rightarrow> True \<and> length b < 2 ^ 31" "length ''hello'' < 2 ^ 31"
      "length (case (7, ''hello'') of (a, b) \<Rightarrow> be64 a @ string_enc b) < 2 ^ 30" "length (be32 0) < 2 ^ 30"
      "length (be64 7) < 2 ^ 30" "length (string_enc ''hello'') < 2 ^ 30"
    by (simp_all add: string_enc_def)
  obtain req1 bs1 where x1: "put_pair put_ull put_string (7, ''hello'') marshall_new = Inr req1"
      "served (h1_fn (get_pair get_ull (get_string [])) put_int 0 (\<lambda>es (eid, buf). es_put 5 es eid buf)) ?h req1 demo_extents s1 bs1"
    using served_exists [where meth = "\<lambda>es (eid, buf). es_put 5 es eid buf" and s = demo_extents and a = "(7, ''hello'')"
        and ?r0.0 = 0 and ?s1.0 = s1 and r = 0 and b = ext_OK and h = ?h,
        OF ull_string.pair_codec [of "[]"] int_codec.wire_codec_axioms d(1) TrueI m1 ok d(3,4)]
    by blast
  obtain req2 bs2 where x2: "put_ull 7 marshall_new = Inr req2" "served (h1_fn get_ull put_string [] (es_get 6)) ?h req2 s1 s2 bs2"
    using served_exists [where meth = "es_get 6" and s = s1 and a = 7 and ?r0.0 = "[]" and ?s1.0 = s2 and r = "''hello''"
        and b = ext_OK and h = ?h, OF ull_codec.wire_codec_axioms string_codec.wire_codec_axioms TrueI d(2) m2 ok d(5,6)]
    by blast
  have "length ''hello'' < 2 ^ 29" by simp
  from extent_put_get_over_rpc [OF this x1(1) ext_handlers_put x1(2) x2(1) ext_handlers_get x2(2), of 0 "()" "[]" "()"] show ?thesis by (intro exI)
qed

end
