(* ===== verification/Yfs_Dir.thy ===== *)
theory Yfs_Dir
  imports Extent_Server "HOL-Library.Code_Target_Nat"
begin

text \<open>
  The text format of a directory in \<^verbatim>\<open>src/yfs_client.cc\<close>: one line \<^verbatim>\<open>name:inum\<close> per entry, read back with
  \<^verbatim>\<open>getline\<close>, \<^verbatim>\<open>find\<close> and the extraction of a number from a string stream.
\<close>

section \<open>Definitions\<close>

subsection \<open>String streams\<close>

text \<open>Insertion of an unsigned number into a stream.\<close>

definition digit :: "nat \<Rightarrow> char" where
  "digit d = char_of (48 + d)"

fun show_nat :: "nat \<Rightarrow> string" where
  "show_nat n = (if n < 10 then [digit n] else show_nat (n div 10) @ [digit (n mod 10)])"

declare show_nat.simps [simp del]

definition show_ull :: "u64 \<Rightarrow> string" where
  "show_ull i = show_nat (unat i)"

text \<open>Extraction of an \<^verbatim>\<open>unsigned long long\<close>: leading white space, a sign, digits; None when the stream fails.\<close>

definition is_digit :: "char \<Rightarrow> bool" where
  "is_digit c \<longleftrightarrow> 48 \<le> (of_char c :: nat) \<and> (of_char c :: nat) \<le> 57"

definition is_space :: "char \<Rightarrow> bool" where
  "is_space c \<longleftrightarrow> (of_char c :: nat) = 32 \<or> 9 \<le> (of_char c :: nat) \<and> (of_char c :: nat) \<le> 13"

definition digits_val :: "string \<Rightarrow> nat" where
  "digits_val ds = foldl (\<lambda>v c. 10 * v + (of_char c - 48)) 0 ds"

definition parse_ull :: "string \<Rightarrow> u64 option" where
  "parse_ull s =
     (let s = dropWhile is_space s;
          neg = (case s of c # _ \<Rightarrow> c = CHR ''-'' | [] \<Rightarrow> False);
          s = (case s of c # t \<Rightarrow> if c = CHR ''-'' \<or> c = CHR ''+'' then t else s | [] \<Rightarrow> []);
          ds = takeWhile is_digit s;
          v = digits_val ds
      in if ds = [] \<or> v \<ge> 2 ^ 64 then None else Some (if neg then - of_nat v else of_nat v))"

text \<open>
  The lines \<^verbatim>\<open>getline\<close> delivers, each with what \<^verbatim>\<open>tellg\<close> says afterwards: the position behind the newline, or None
  (the value -1) when the line ended with the stream.
\<close>

function getlines :: "nat \<Rightarrow> string \<Rightarrow> (string \<times> nat option) list" where
  "getlines pos s =
     (if s = [] then []
      else let line = takeWhile (\<lambda>c. c \<noteq> CHR 0x0A) s; rest = dropWhile (\<lambda>c. c \<noteq> CHR 0x0A) s
           in if rest = [] then [(line, None)]
              else (line, Some (pos + length line + 1)) # getlines (pos + length line + 1) (tl rest))"
  by pat_completeness auto
termination
proof (relation "measure (\<lambda>(pos, s). length s)", goal_cases)
  case (2 pos s line rest)
  then have "length rest \<le> length s" "rest \<noteq> []" by (simp_all add: length_dropWhile_le)
  then show ?case by (cases rest) auto
qed simp

declare getlines.simps [simp del]

subsection \<open>Directories\<close>

definition n2i :: "string \<Rightarrow> u64 option" where
  "n2i n = parse_ull n"

definition filename :: "u64 \<Rightarrow> string" where
  "filename i = show_ull i"

definition ent_read :: "string \<Rightarrow> (string \<times> u64) option" where
  "ent_read dirline =
     (if CHR '':'' \<notin> set dirline then None
      else let entname = takeWhile (\<lambda>c. c \<noteq> CHR '':'') dirline;
               inum_str = tl (dropWhile (\<lambda>c. c \<noteq> CHR '':'') dirline)
           in map_option (\<lambda>i. (entname, i)) (parse_ull inum_str))"

text \<open>The search of \<^verbatim>\<open>dir_find\<close>: the inum found, the offset and the length of its line. It stops at an unreadable line.\<close>

fun find_line :: "(string \<times> nat option) list \<Rightarrow> string \<Rightarrow> (u64 \<times> nat option \<times> nat) option" where
  "find_line [] name = None"
| "find_line ((line, tell) # ls) name =
     (if line = [] then find_line ls name
      else case ent_read line of
             None \<Rightarrow> None
           | Some (curname, i) \<Rightarrow> if curname = name then Some (i, tell, length line) else find_line ls name)"

text \<open>The offset is computed in \<^verbatim>\<open>size_t\<close>.\<close>

definition line_off :: "nat option \<Rightarrow> nat \<Rightarrow> u32" where
  "line_off tell linelen = (case tell of None \<Rightarrow> -1 | Some p \<Rightarrow> of_nat p) - of_nat linelen - 1"

definition dir_find :: "string \<Rightarrow> string \<Rightarrow> (u64 \<times> u32 \<times> nat) option" where
  "dir_find dirbuf name =
     map_option (\<lambda>(i, tell, len). (i, line_off tell len, len)) (find_line (getlines 0 dirbuf) name)"

text \<open>What \<^verbatim>\<open>dir_add_entry\<close> appends and \<^verbatim>\<open>remove\<close> erases.\<close>

definition entry_line :: "string \<Rightarrow> u64 \<Rightarrow> string" where
  "entry_line name i = name @ CHR '':'' # show_ull i @ [CHR 0x0A]"

definition str_erase :: "nat \<Rightarrow> nat \<Rightarrow> string \<Rightarrow> fault + string" where
  "str_erase pos n s = (if pos > length s then Inl Std_Exception else Inr (take pos s @ drop (pos + n) s))"

text \<open>The loop of \<^verbatim>\<open>readir\<close>: the entries up to the first unreadable line.\<close>

fun read_entries :: "(string \<times> nat option) list \<Rightarrow> (string \<times> u64) list" where
  "read_entries [] = []"
| "read_entries ((line, tell) # ls) =
     (if line = [] then read_entries ls
      else case ent_read line of None \<Rightarrow> [] | Some e \<Rightarrow> e # read_entries ls)"

subsection \<open>Inode numbers\<close>

definition yfs_isfile :: "u64 \<Rightarrow> bool" where
  "yfs_isfile i = (if i AND 0x80000000 \<noteq> 0 then True else False)"

definition yfs_isdir :: "u64 \<Rightarrow> bool" where
  "yfs_isdir i \<longleftrightarrow> \<not> yfs_isfile i"

text \<open>
  \<^verbatim>\<open>new_inum\<close>: \<open>rnd k\<close> is what the \<open>k\<close>-th call of \<^verbatim>\<open>random\<close> returns, a number below \<open>2^31\<close>; the result is the inum and the
  number of the next call. None: the loop does not end.
\<close>

partial_function (option) new_inum :: "(nat \<Rightarrow> u32) \<Rightarrow> nat \<Rightarrow> u64 \<Rightarrow> bool \<Rightarrow> (u64 \<times> nat) option" where
  "new_inum rnd k parent isfile =
     (let i = (if isfile then ucast (rnd k OR 0x80000000) else ucast (rnd k AND 0x7fffffff)) :: u64
      in if i = parent \<or> i \<le> 1 then new_inum rnd (Suc k) parent isfile else Some (i, Suc k))"

declare new_inum.simps [code]

section \<open>Numbers in decimal\<close>

lemma of_char_digit: "d < 10 \<Longrightarrow> (of_char (digit d) :: nat) = 48 + d"
  by (simp add: digit_def)

lemma digit_is_digit: "d < 10 \<Longrightarrow> is_digit (digit d)"
  by (simp add: is_digit_def of_char_digit)

lemma show_nat_digits: "c \<in> set (show_nat n) \<Longrightarrow> is_digit c"
proof (induction n rule: show_nat.induct)
  case (1 n)
  have "is_digit (digit (n mod 10))" by (simp add: digit_is_digit)
  with 1 show ?case by (cases "n < 10") (auto simp: show_nat.simps [of n] digit_is_digit)
qed

lemma show_nat_Nil [simp]: "show_nat n \<noteq> []"
  by (simp add: show_nat.simps [of n])

lemma digits_val_snoc: "digits_val (ds @ [c]) = 10 * digits_val ds + (of_char c - 48)"
  by (simp add: digits_val_def)

lemma digits_val_show: "digits_val (show_nat n) = n"
proof (induction n rule: show_nat.induct)
  case (1 n)
  show ?case
  proof (cases "n < 10")
    case True
    then show ?thesis by (simp add: show_nat.simps [of n] digits_val_def of_char_digit)
  next
    case False
    then have "digits_val (show_nat n) = 10 * (n div 10) + n mod 10"
      using 1 by (simp add: show_nat.simps [of n] digits_val_snoc of_char_digit)
    then show ?thesis by simp
  qed
qed

lemma is_digit_not: "is_digit c \<Longrightarrow> \<not> is_space c \<and> c \<noteq> CHR ''-'' \<and> c \<noteq> CHR ''+'' \<and> c \<noteq> CHR '':'' \<and> c \<noteq> CHR 0x0A"
  by (auto simp: is_digit_def is_space_def)

lemma parse_ull_digits:
  assumes "ds \<noteq> []" "\<forall>c \<in> set ds. is_digit c" "digits_val ds < 2 ^ 64"
  shows "parse_ull ds = Some (of_nat (digits_val ds))"
proof -
  obtain c t where ds: "ds = c # t" "is_digit c" using assms(1,2) by (cases ds) auto
  have tw: "takeWhile is_digit t = t" using assms(2) ds by simp
  with ds is_digit_not [OF ds(2)] assms(3) show ?thesis by (simp add: parse_ull_def Let_def tw)
qed

lemma show_ull_chars: "c \<in> set (show_ull i) \<Longrightarrow> is_digit c"
  by (simp add: show_ull_def show_nat_digits)

lemma parse_show_ull [simp]: "parse_ull (show_ull i) = Some i"
proof -
  have "unat i < 2 ^ 64" using unsigned_less [where ?'a = nat, of i] by simp
  then show ?thesis
    using parse_ull_digits [of "show_nat (unat i)"] show_nat_digits by (simp add: show_ull_def digits_val_show)
qed

section \<open>Lines\<close>

lemma getlines_Nil [simp]: "getlines pos [] = []"
  by (simp add: getlines.simps)

lemma takeWhile_sep: "c \<notin> set xs \<Longrightarrow> takeWhile (\<lambda>x. x \<noteq> c) (xs @ c # ys) = xs"
  and dropWhile_sep: "c \<notin> set xs \<Longrightarrow> dropWhile (\<lambda>x. x \<noteq> c) (xs @ c # ys) = c # ys"
  by (induction xs) auto

lemma getlines_line:
  "CHR 0x0A \<notin> set line \<Longrightarrow>
   getlines pos (line @ CHR 0x0A # rest) = (line, Some (pos + length line + 1)) # getlines (pos + length line + 1) rest"
  by (subst getlines.simps) (simp add: takeWhile_sep dropWhile_sep)

lemma ent_read_entry:
  "CHR '':'' \<notin> set name \<Longrightarrow> ent_read (name @ CHR '':'' # show_ull i) = Some (name, i)"
  by (simp add: ent_read_def takeWhile_sep dropWhile_sep)

section \<open>Directories as lists of entries\<close>

text \<open>
  The abstract directory: a list of entries, with None for the blank line that \<^verbatim>\<open>remove\<close> leaves. A name is clean when
  it holds neither of the two separators.
\<close>

type_synonym dir = "(string \<times> u64) option list"

definition clean :: "string \<Rightarrow> bool" where
  "clean n \<longleftrightarrow> CHR '':'' \<notin> set n \<and> CHR 0x0A \<notin> set n"

fun render :: "dir \<Rightarrow> string" where
  "render [] = []"
| "render (None # d) = CHR 0x0A # render d"
| "render (Some (n, i) # d) = entry_line n i @ render d"

definition entries :: "dir \<Rightarrow> (string \<times> u64) list" where
  "entries d = List.map_filter (\<lambda>e. e) d"

definition clean_dir :: "dir \<Rightarrow> bool" where
  "clean_dir d \<longleftrightarrow> (\<forall>(n, i) \<in> set (entries d). clean n) \<and> distinct (map fst (entries d))"

lemma entries_simps [simp]:
  "entries [] = []" "entries (None # d) = entries d" "entries (Some e # d) = e # entries d"
  "entries (d @ d') = entries d @ entries d'"
  by (simp_all add: entries_def map_filter_simps) (simp add: List.map_filter_def)

lemma clean_dir_simps [simp]:
  "clean_dir []" "clean_dir (None # d) \<longleftrightarrow> clean_dir d"
  "clean_dir (Some (n, i) # d) \<longleftrightarrow> clean n \<and> n \<notin> fst ` set (entries d) \<and> clean_dir d"
  by (auto simp: clean_dir_def)

lemma render_append: "render (d @ d') = render d @ render d'"
  by (induction d rule: render.induct) auto

lemma getlines_entry:
  assumes "clean n"
  shows "getlines pos (entry_line n i @ rest) =
    (n @ CHR '':'' # show_ull i, Some (pos + length (entry_line n i))) # getlines (pos + length (entry_line n i)) rest"
proof -
  have "CHR 0x0A \<notin> set (n @ CHR '':'' # show_ull i)"
    using assms show_ull_chars is_digit_not by (auto simp: clean_def)
  from getlines_line [OF this, of pos rest] show ?thesis by (simp add: entry_line_def)
qed

lemma getlines_blank: "getlines pos (CHR 0x0A # rest) = ([], Some (pos + 1)) # getlines (pos + 1) rest"
  using getlines_line [of "[]" pos rest] by simp

text \<open>The search in a rendered directory is the search in the list of its entries.\<close>

fun find_entry :: "nat \<Rightarrow> dir \<Rightarrow> string \<Rightarrow> (u64 \<times> nat option \<times> nat) option" where
  "find_entry pos [] name = None"
| "find_entry pos (None # d) name = find_entry (pos + 1) d name"
| "find_entry pos (Some (n, i) # d) name =
     (if n = name then Some (i, Some (pos + length (entry_line n i)), length (entry_line n i) - 1)
      else find_entry (pos + length (entry_line n i)) d name)"

lemma find_line_render:
  "clean_dir d \<Longrightarrow> find_line (getlines pos (render d)) name = find_entry pos d name"
proof (induction pos d name rule: find_entry.induct)
  case (3 pos n i d name)
  then have "clean n" "clean_dir d" by simp_all
  with 3 ent_read_entry [of n i] show ?case
    by (auto simp: getlines_entry clean_def) (simp_all add: entry_line_def)
qed (simp_all add: getlines_blank)

lemma find_entry_None: "find_entry pos d name = None \<longleftrightarrow> name \<notin> fst ` set (entries d)"
  by (induction pos d name rule: find_entry.induct) auto

lemma find_entry_Some:
  assumes "find_entry pos d name = Some (i, tell, len)"
  shows "\<exists>d1 d2. d = d1 @ Some (name, i) # d2 \<and> name \<notin> fst ` set (entries d1) \<and> len = length (entry_line name i) - 1 \<and>
    tell = Some (pos + length (render d1) + length (entry_line name i))"
  using assms
proof (induction pos d name rule: find_entry.induct)
  case (2 pos d name)
  then obtain d1 d2 where "d = d1 @ Some (name, i) # d2" "name \<notin> fst ` set (entries d1)" "len = length (entry_line name i) - 1"
      "tell = Some (pos + 1 + length (render d1) + length (entry_line name i))" by auto
  then show ?case by (intro exI [of _ "None # d1"] exI [of _ d2]) simp
next
  case (3 pos n j d name)
  show ?case
  proof (cases "n = name")
    case True
    with 3 show ?thesis by (intro exI [where x = "[] :: dir"] exI [where x = d]) auto
  next
    case False
    with 3 obtain d1 d2 where "d = d1 @ Some (name, i) # d2" "name \<notin> fst ` set (entries d1)" "len = length (entry_line name i) - 1"
        "tell = Some (pos + length (entry_line n j) + length (render d1) + length (entry_line name i))" by auto
    with False show ?thesis by (intro exI [of _ "Some (n, j) # d1"] exI [of _ d2]) simp
  qed
qed simp

subsection \<open>Adding, removing and listing entries\<close>

lemma dir_find_render:
  "clean_dir d \<Longrightarrow> dir_find (render d) name = map_option (\<lambda>(i, tell, len). (i, line_off tell len, len)) (find_entry 0 d name)"
  by (simp add: dir_find_def find_line_render)

lemma dir_find_absent: "clean_dir d \<Longrightarrow> dir_find (render d) name = None \<longleftrightarrow> name \<notin> fst ` set (entries d)"
  by (simp add: dir_find_render find_entry_None)

lemma map_of_entries_split:
  "name \<notin> fst ` set (entries d1) \<Longrightarrow> map_of (entries (d1 @ Some (name, i) # d2)) name = Some i"
  by (simp add: map_add_def map_of_eq_None_iff [THEN iffD2] split: option.split)

lemma dir_find_present:
  assumes "clean_dir d" "dir_find (render d) name = Some (i, off, len)" "length (render d) < 2 ^ 32"
  obtains d1 d2 where "d = d1 @ Some (name, i) # d2" "name \<notin> fst ` set (entries d1)" "unat off = length (render d1)"
    "len = length (entry_line name i) - 1" "map_of (entries d) name = Some i"
proof -
  obtain tell where f: "find_entry 0 d name = Some (i, tell, len)" "off = line_off tell len"
    using assms(1,2) by (auto simp: dir_find_render)
  obtain d1 d2 where d: "d = d1 @ Some (name, i) # d2" "name \<notin> fst ` set (entries d1)" "len = length (entry_line name i) - 1"
      "tell = Some (0 + length (render d1) + length (entry_line name i))"
    using find_entry_Some [OF f(1)] by blast
  have "length (entry_line name i) = Suc len" using d(3) by (simp add: entry_line_def)
  then have "off = of_nat (length (render d1))" by (simp add: f(2) d(4) line_off_def)
  moreover have "length (render d1) < 2 ^ 32" using assms(3) d(1) by (simp add: render_append)
  ultimately have "unat off = length (render d1)" by (simp add: unat_of_nat take_bit_nat_eq_self)
  with that d(1-3) map_of_entries_split [OF d(2)] show thesis by simp
qed

lemma dir_find_lookup:
  assumes "clean_dir d" "length (render d) < 2 ^ 32"
  shows "map_option fst (dir_find (render d) name) = map_of (entries d) name"
proof (cases "dir_find (render d) name")
  case None
  then have "map_of (entries d) name = None" using dir_find_absent [OF assms(1)] by (simp add: map_of_eq_None_iff)
  with None show ?thesis by simp
next
  case (Some r)
  obtain i off len where r: "r = (i, off, len)" by (cases r)
  from assms(1) Some [unfolded r] assms(2) have "map_of (entries d) name = Some i" by (rule dir_find_present)
  with Some r show ?thesis by simp
qed

lemma erase_entry:
  assumes "len = length (entry_line name i) - 1" "off = length (render d1)"
  shows "str_erase off len (render (d1 @ Some (name, i) # d2)) = Inr (render (d1 @ None # d2))"
proof -
  have "entry_line name i = (name @ CHR '':'' # show_ull i) @ [CHR 0x0A]" "len = length (name @ CHR '':'' # show_ull i)"
    by (simp_all add: entry_line_def assms(1))
  then show ?thesis by (simp add: str_erase_def render_append assms(2))
qed

lemma read_entries_render: "clean_dir d \<Longrightarrow> read_entries (getlines pos (render d)) = entries d"
proof (induction d arbitrary: pos rule: render.induct)
  case (3 n i d)
  then have "clean n" by simp
  with 3 ent_read_entry [of n i] show ?case by (simp add: getlines_entry clean_def)
qed (simp_all add: getlines_blank)

lemma clean_dir_append_one:
  "clean_dir d \<Longrightarrow> clean n \<Longrightarrow> n \<notin> fst ` set (entries d) \<Longrightarrow> clean_dir (d @ [Some (n, i)])"
  by (auto simp: clean_dir_def)

lemma clean_dir_blank: "clean_dir (d1 @ Some e # d2) \<Longrightarrow> clean_dir (d1 @ None # d2)"
  by (auto simp: clean_dir_def)

lemma map_of_entries_blank:
  assumes "name \<notin> fst ` set (entries d1)" "name \<notin> fst ` set (entries d2)"
  shows "map_of (entries (d1 @ None # d2)) = (map_of (entries (d1 @ Some (name, i) # d2)))(name := None)"
proof -
  have "map_of (entries d1) name = None" "map_of (entries d2) name = None" using assms by (simp_all add: map_of_eq_None_iff)
  then show ?thesis by (auto simp: fun_eq_iff map_add_def split: option.split)
qed

section \<open>Properties of the format\<close>



text \<open>
  A name with a colon makes the rest of the directory unreachable: its line is read back as another name with an
  unreadable number, at which every search stops.
\<close>

lemma colon_hides_entries:
  "dir_find (render [Some (''a'', 5)] @ entry_line ''x:y'' 6 @ entry_line ''b'' 7) ''a'' \<noteq> None \<and>
   dir_find (render [Some (''a'', 5)] @ entry_line ''x:y'' 6 @ entry_line ''b'' 7) ''x:y'' = None \<and>
   dir_find (render [Some (''a'', 5)] @ entry_line ''x:y'' 6 @ entry_line ''b'' 7) ''b'' = None"
  by code_simp

subsection \<open>Fresh inode numbers\<close>

lemma new_inum_step:
  "new_inum rnd k parent isfile =
     (let i = (if isfile then ucast (rnd k OR 0x80000000) else ucast (rnd k AND 0x7fffffff)) :: u64
      in if i = parent \<or> i \<le> 1 then new_inum rnd (Suc k) parent isfile else Some (i, Suc k))"
  by (rule new_inum.simps)

lemma bit31_file: "yfs_isfile (ucast (r OR 0x80000000 :: u32))"
proof -
  have m: "(0x80000000 :: u32) = 2 ^ 31" "(0x80000000 :: u64) = 2 ^ 31" by simp_all
  have "bit (ucast (r OR 0x80000000 :: u32) AND 0x80000000 :: u64) 31" unfolding m by (simp add: bit_simps)
  then show ?thesis by (auto simp: yfs_isfile_def)
qed

lemma bit31_dir: "\<not> yfs_isfile (ucast (r AND 0x7fffffff :: u32))"
proof -
  have m: "(0x7fffffff :: u32) = mask 31" by (simp add: mask_eq_exp_minus_1)
  have "(0x80000000 :: int) = 2 ^ 31" by simp
  then have b: "n = 31" if "bit (0x80000000 :: int) n" for n
    using that bit_exp_iff [of 31 n, where ?'a = int] by metis
  have "(ucast (r AND 0x7fffffff :: u32) AND 0x80000000 :: u64) = 0"
    unfolding m by (rule bit_word_eqI) (auto simp: bit_simps dest: b)
  then show ?thesis by (simp add: yfs_isfile_def)
qed

definition drawn :: "bool \<Rightarrow> u32 \<Rightarrow> u64" where
  "drawn isfile r = (if isfile then ucast (r OR 0x80000000) else ucast (r AND 0x7fffffff))"

lemma new_inum_found:
  assumes "drawn isfile (rnd (k + n)) \<noteq> parent" "1 < drawn isfile (rnd (k + n))"
  shows "\<exists>m i. new_inum rnd k parent isfile = Some (i, Suc (k + m)) \<and> m \<le> n \<and> i = drawn isfile (rnd (k + m)) \<and> i \<noteq> parent \<and> 1 < i"
  using assms
proof (induction n arbitrary: k)
  case 0
  then show ?case by (subst new_inum_step) (auto simp: drawn_def Let_def not_le)
next
  case (Suc n)
  show ?case
  proof (cases "drawn isfile (rnd k) = parent \<or> drawn isfile (rnd k) \<le> 1")
    case True
    then have s: "new_inum rnd k parent isfile = new_inum rnd (Suc k) parent isfile"
      by (subst new_inum_step) (auto simp: drawn_def Let_def)
    obtain m i where "new_inum rnd (Suc k) parent isfile = Some (i, Suc (Suc k + m))" "m \<le> n"
        "i = drawn isfile (rnd (Suc k + m))" "i \<noteq> parent" "1 < i"
      using Suc.IH [of "Suc k"] Suc.prems by auto
    with s show ?thesis by (intro exI [of _ "Suc m"] exI [of _ i]) simp
  next
    case False
    then have "new_inum rnd k parent isfile = Some (drawn isfile (rnd k), Suc k)"
      by (subst new_inum_step) (auto simp: drawn_def Let_def)
    with False show ?thesis by (intro exI [where x = "0 :: nat"]) auto
  qed
qed

lemma new_inum_result:
  "new_inum rnd k parent isfile = Some y \<Longrightarrow> fst y \<noteq> parent \<and> 1 < fst y \<and> (\<exists>r. fst y = drawn isfile r)"
proof (erule new_inum.raw_induct [where P = "\<lambda>rnd k parent isfile y. fst y \<noteq> parent \<and> 1 < fst y \<and> (\<exists>r. fst y = drawn isfile r)", rotated])
  fix f :: "(nat \<Rightarrow> u32) \<Rightarrow> nat \<Rightarrow> u64 \<Rightarrow> bool \<Rightarrow> (u64 \<times> nat) option" and rnd k parent isfile y
  assume IH: "\<And>rnd k parent isfile y. f rnd k parent isfile = Some y \<Longrightarrow> fst y \<noteq> parent \<and> 1 < fst y \<and> (\<exists>r. fst y = drawn isfile r)"
    and st: "(let i = if isfile then ucast (rnd k OR 0x80000000) else ucast (rnd k AND 0x7fffffff)
       in if i = parent \<or> i \<le> 1 then f rnd (Suc k) parent isfile else Some (i, Suc k)) = Some y"
  then have "f rnd (Suc k) parent isfile = Some y \<or> (y = (drawn isfile (rnd k), Suc k) \<and> fst y \<noteq> parent \<and> 1 < fst y)"
    by (simp add: Let_def drawn_def not_le split: if_splits) auto
  then show "fst y \<noteq> parent \<and> 1 < fst y \<and> (\<exists>r. fst y = drawn isfile r)"
    using IH [of rnd "Suc k" parent isfile y] by auto
qed

lemma ucast_u32_u64: "ucast (ucast (x :: u32) :: u64) = x"
  by (rule bit_word_eqI) (simp add: bit_simps)

text \<open>
  C32. \<^verbatim>\<open>new_inum\<close> ends as soon as \<^verbatim>\<open>random\<close> returns one suitable number, and its result is an inum of the kind asked for
  (bit 31 tells a file from a directory), different from the parent and above 1, which fits in 32 bits.
\<close>

theorem new_inum_fresh:
  assumes "drawn isfile (rnd (k + n)) \<noteq> parent" "1 < drawn isfile (rnd (k + n))"
  shows "\<exists>i k'. new_inum rnd k parent isfile = Some (i, k') \<and> k' \<le> Suc (k + n) \<and>
    (if isfile then yfs_isfile i else yfs_isdir i) \<and> i \<noteq> parent \<and> 1 < i \<and> ucast (ext_key i) = i"
proof -
  obtain m i where m: "new_inum rnd k parent isfile = Some (i, Suc (k + m))" "m \<le> n" "i = drawn isfile (rnd (k + m))" "i \<noteq> parent" "1 < i"
    using new_inum_found [of isfile rnd k n parent, OF assms] by blast
  moreover have "if isfile then yfs_isfile i else yfs_isdir i"
    using bit31_file bit31_dir by (simp add: m(3) drawn_def yfs_isdir_def)
  moreover have "ucast (ext_key i) = i" by (simp add: m(3) drawn_def ext_key_def ucast_u32_u64)
  ultimately show ?thesis by (intro exI [of _ i] exI [of _ "Suc (k + m)"]) simp
qed

theorem new_inum_fresh_witness:
  "\<exists>i k'. new_inum (\<lambda>k. if k = 0 then 0 else 7) 0 1 False = Some (i, k') \<and> yfs_isdir i \<and> i \<noteq> 1"
  using new_inum_fresh [of False "\<lambda>k. if k = 0 then 0 else 7" 0 1 1] by (auto simp: drawn_def)

end
