(* ===== verification/Rpc_Address.thy ===== *)
theory Rpc_Address
  imports Yfs_Dir
begin

text \<open>
  Addresses: \<^verbatim>\<open>make_sockaddr\<close> of \<^verbatim>\<open>src/rpc/rpc.cc\<close>, through which every client finds its server, and the name that the
  constructor of \<^verbatim>\<open>src/lock_client_cache.cc\<close> gives a lock client, from which the lock server finds it again.
  \<^verbatim>\<open>inet_addr\<close> and \<^verbatim>\<open>gethostbyname\<close> are parameters.
\<close>

unbundle bit_operations_syntax

section \<open>Definitions\<close>

record sockaddr_in =
  sin_addr :: u32
  sin_port :: u16

definition INADDR_NONE :: u32 where "INADDR_NONE = -1"

definition htons :: "u16 \<Rightarrow> u16" where
  "htons x = push_bit 8 x OR drop_bit 8 x"

text \<open>\<^verbatim>\<open>atoi\<close>; for a number that is no \<^verbatim>\<open>int\<close> the C standard leaves the result open.\<close>

definition atoi :: "string \<Rightarrow> int" where
  "atoi s =
     (let s = dropWhile is_space s;
          neg = (case s of c # _ \<Rightarrow> c = CHR ''-'' | [] \<Rightarrow> False);
          s = (case s of c # t \<Rightarrow> if c = CHR ''-'' \<or> c = CHR ''+'' then t else s | [] \<Rightarrow> []);
          v = int (digits_val (takeWhile is_digit s))
      in if neg then - v else v)"

text \<open>The version with a separate host and port; None when the host is not found and the program exits.\<close>

definition make_sockaddr_at :: "(string \<Rightarrow> u32) \<Rightarrow> (string \<Rightarrow> u32 option) \<Rightarrow> string \<Rightarrow> string \<Rightarrow> sockaddr_in option" where
  "make_sockaddr_at inet_addr gethostbyname host port =
     (let a = inet_addr host; p = htons (word_of_int (atoi port))
      in if a \<noteq> INADDR_NONE then Some \<lparr>sin_addr = a, sin_port = p\<rparr>
         else map_option (\<lambda>ip. \<lparr>sin_addr = ip, sin_port = p\<rparr>) (gethostbyname host))"

text \<open>The host is copied into an array of 200 bytes, with a zero byte behind it.\<close>

definition make_sockaddr ::
  "(string \<Rightarrow> u32) \<Rightarrow> (string \<Rightarrow> u32 option) \<Rightarrow> string \<Rightarrow> fault + sockaddr_in option" where
  "make_sockaddr inet_addr gethostbyname hostandport =
     (let n = length (takeWhile (\<lambda>c. c \<noteq> CHR '':'') hostandport)
      in if n = length hostandport then Inr (make_sockaddr_at inet_addr gethostbyname ''127.0.0.1'' hostandport)
         else if n < 200 then Inr (make_sockaddr_at inet_addr gethostbyname (take n hostandport) (drop (n + 1) hostandport))
         else Inl Wild_Access)"

text \<open>The port and the name that a lock client chooses; \<open>r\<close> is what \<^verbatim>\<open>rand\<close> returns.\<close>

definition rlock_port :: "u32 \<Rightarrow> u32" where
  "rlock_port r = (r mod 32000) OR push_bit 10 1"

definition lock_client_id :: "u32 \<Rightarrow> string" where
  "lock_client_id r = ''127.0.0.1'' @ '':'' @ show_nat (unat (rlock_port r))"

section \<open>Lemmas\<close>

lemma show_nat_Cons: "\<exists>c cs. show_nat n = c # cs \<and> is_digit c"
  using show_nat_Nil [of n] show_nat_digits [of _ n] by (cases "show_nat n") auto

lemma atoi_show: "atoi (show_nat n) = int n"
proof -
  obtain c cs where c: "show_nat n = c # cs" "is_digit c" using show_nat_Cons by blast
  have d: "takeWhile is_digit cs = cs" using show_nat_digits [of _ n] c(1) by (simp add: takeWhile_eq_all_conv)
  have eq: "takeWhile is_digit (c # cs) = c # cs" using c(2) d by (simp only: takeWhile.simps if_True)
  have "dropWhile is_space (show_nat n) = show_nat n" using c is_digit_not [OF c(2)] by simp
  then show ?thesis using c is_digit_not [OF c(2)] digits_val_show [of n] by (simp add: atoi_def Let_def eq del: takeWhile.simps)
qed

lemma make_sockaddr_host:
  assumes "CHR '':'' \<notin> set host"
  shows "make_sockaddr inet_addr gethostbyname (host @ '':'' @ port) =
    (if length host < 200 then Inr (make_sockaddr_at inet_addr gethostbyname host port) else Inl Wild_Access)"
proof -
  have "takeWhile (\<lambda>c. c \<noteq> CHR '':'') (host @ '':'' @ port) = host"
    using assms by (subst takeWhile_append2) auto
  then show ?thesis by (simp add: make_sockaddr_def)
qed

lemma make_sockaddr_local:
  assumes "CHR '':'' \<notin> set port"
  shows "make_sockaddr inet_addr gethostbyname port = Inr (make_sockaddr_at inet_addr gethostbyname ''127.0.0.1'' port)"
proof -
  have "takeWhile (\<lambda>c. c \<noteq> CHR '':'') port = port" using assms by (auto simp: takeWhile_eq_all_conv)
  then show ?thesis unfolding make_sockaddr_def by (simp only: Let_def refl if_True)
qed

lemma rlock_port_range: "1024 \<le> unat (rlock_port r) \<and> unat (rlock_port r) < 2 ^ 15"
proof -
  have "uint (r mod 32000) < 2 ^ 15" by (rule le_less_trans [of _ 32000]) (simp_all add: uint_mod)
  then have u: "uint (rlock_port r) < 2 ^ 15"
    using OR_upper [of "uint (r mod 32000)" 15 1024] by (simp add: rlock_port_def unsigned_or_eq)
  have "1024 \<le> uint (rlock_port r)"
    using or_greater_eq [of "uint (r mod 32000)" 1024] by (simp add: rlock_port_def unsigned_or_eq or.commute)
  with u show ?thesis by (simp add: unat_eq_nat_uint nat_less_iff le_nat_iff del: nat_uint_eq)
qed


section \<open>Properties\<close>



end
