(* ===== verification/Lock_Server.thy ===== *)
theory Lock_Server
  imports Rpc_Stubs
begin

text \<open>
  The lock protocol (\<^verbatim>\<open>src/lock_protocol.h\<close>), the plain lock server (\<^verbatim>\<open>src/lock_server.cc\<close>) and the plain lock client
  (\<^verbatim>\<open>src/lock_client.cc\<close>). The server's \<^verbatim>\<open>acquire\<close> runs on many threads at once: it is cut where it takes or gives up
  its mutex, tests the state of the lock, or waits. Its \<^verbatim>\<open>release\<close> takes no mutex and can run between any two cuts.
\<close>

section \<open>Definitions\<close>

subsection \<open>The protocol\<close>

type_synonym lockid = u64

definition lk_OK :: u32 where "lk_OK = 0"
definition lk_RETRY :: u32 where "lk_RETRY = 1"
definition lk_RPCERR :: u32 where "lk_RPCERR = 2"
definition lk_NOENT :: u32 where "lk_NOENT = 3"
definition lk_IOERR :: u32 where "lk_IOERR = 4"

definition lk_proc_acquire :: u32 where "lk_proc_acquire = 0x7001"
definition lk_proc_release :: u32 where "lk_proc_release = 0x7002"
definition lk_proc_stat :: u32 where "lk_proc_stat = 0x7003"

definition rlk_OK :: u32 where "rlk_OK = 0"
definition rlk_RPCERR :: u32 where "rlk_RPCERR = 1"

definition rlk_proc_revoke :: u32 where "rlk_proc_revoke = 0x8001"
definition rlk_proc_retry :: u32 where "rlk_proc_retry = 0x8002"

lemmas lk_status_defs = lk_OK_def lk_RETRY_def lk_RPCERR_def lk_NOENT_def lk_IOERR_def rlk_OK_def rlk_RPCERR_def

subsection \<open>The server\<close>

text \<open>A thread of the server is outside of \<^verbatim>\<open>acquire\<close> or at one of its cuts. The mutex is held by the threads at
  \<open>Testing\<close> and \<open>Going_To_Wait\<close>; \<open>Waking\<close> is a thread that a signal, or a spurious wake-up, took out of the wait and
  that has to lock the mutex again.\<close>

datatype lockstate = LS_FREE | LS_LOCKED

datatype ls_pc = Outside | Testing lockid | Going_To_Wait lockid | Waiting lockid | Waking lockid

record lock_server =
  nacquire :: u32
  lock_server_mutex :: "nat option"
  lockstate_table :: "lockid \<rightharpoonup> lockstate"
  ls_threads :: "nat \<Rightarrow> ls_pc"

definition lock_server_new :: lock_server where
  "lock_server_new = \<lparr>nacquire = 0, lock_server_mutex = None, lockstate_table = Map.empty, ls_threads = (\<lambda>_. Outside)\<rparr>"

definition ls_stat :: "lock_server \<Rightarrow> u32 \<Rightarrow> lockid \<Rightarrow> u32 \<Rightarrow> u32 \<times> u32" where
  "ls_stat s clt lid r = (lk_OK, nacquire s)"

text \<open>Up to the loop: the mutex is locked and a new lock is entered as free.\<close>

definition ls_acquire_enter :: "nat \<Rightarrow> lockid \<Rightarrow> lock_server \<Rightarrow> lock_server" where
  "ls_acquire_enter t lid s =
     s\<lparr>lock_server_mutex := Some t,
       lockstate_table := (if lockstate_table s lid = None then (lockstate_table s)(lid \<mapsto> LS_FREE) else lockstate_table s),
       ls_threads := (ls_threads s)(t := Testing lid)\<rparr>"

text \<open>The test of the loop and, when the lock is free, the rest of \<^verbatim>\<open>acquire\<close> with its result. The index operator reads
  an absent lock as \<open>FREE\<close>.\<close>

definition ls_acquire_test :: "nat \<Rightarrow> lockid \<Rightarrow> lock_server \<Rightarrow> lock_server \<times> u32 option" where
  "ls_acquire_test t lid s =
     (if lockstate_table s lid = Some LS_LOCKED then (s\<lparr>ls_threads := (ls_threads s)(t := Going_To_Wait lid)\<rparr>, None)
      else (s\<lparr>lockstate_table := (lockstate_table s)(lid \<mapsto> LS_LOCKED), lock_server_mutex := None,
              ls_threads := (ls_threads s)(t := Outside)\<rparr>, Some lk_OK))"

text \<open>\<^verbatim>\<open>pthread_cond_wait\<close>: from here on the thread can be signalled, and the mutex is free.\<close>

definition ls_acquire_wait :: "nat \<Rightarrow> lockid \<Rightarrow> lock_server \<Rightarrow> lock_server" where
  "ls_acquire_wait t lid s = s\<lparr>lock_server_mutex := None, ls_threads := (ls_threads s)(t := Waiting lid)\<rparr>"

definition ls_wake :: "nat \<Rightarrow> lockid \<Rightarrow> lock_server \<Rightarrow> lock_server" where
  "ls_wake t lid s = s\<lparr>ls_threads := (ls_threads s)(t := Waking lid)\<rparr>"

definition ls_relock :: "nat \<Rightarrow> lockid \<Rightarrow> lock_server \<Rightarrow> lock_server" where
  "ls_relock t lid s = s\<lparr>lock_server_mutex := Some t, ls_threads := (ls_threads s)(t := Testing lid)\<rparr>"

text \<open>\<^verbatim>\<open>release\<close>: \<open>w\<close> is the waiting thread that the signal wakes, if there is one.\<close>

definition ls_release :: "nat option \<Rightarrow> lockid \<Rightarrow> lock_server \<Rightarrow> lock_server \<times> u32" where
  "ls_release w lid s =
     (if lockstate_table s lid = None then (s, lk_OK)
      else let s = s\<lparr>lockstate_table := (lockstate_table s)(lid \<mapsto> LS_FREE)\<rparr>
           in (case w of None \<Rightarrow> s | Some t \<Rightarrow> ls_wake t lid s, lk_OK))"

subsection \<open>The client\<close>

text \<open>The stubs send the client's nonce (\<^verbatim>\<open>cl->id()\<close>) and the lock; \<open>c0\<close> below is the value of the reply variable, which
  the code leaves uninitialised.\<close>

definition lkc_call :: "'c call1 \<Rightarrow> u32 \<Rightarrow> u32 \<Rightarrow> lockid \<Rightarrow> u32 \<Rightarrow> 'c \<Rightarrow> fault + 'c \<times> u32 \<times> u32" where
  "lkc_call call1 proc clt lid r = rpc_call2 call1 (\<lambda>_. get_int) put_uint put_ull proc clt lid r"

definition lkc_stat :: "'c call1 \<Rightarrow> u32 \<Rightarrow> lockid \<Rightarrow> u32 \<Rightarrow> 'c \<Rightarrow> fault + 'c \<times> u32" where
  "lkc_stat call1 clt lid r0 c =
     rbind (lkc_call call1 lk_proc_stat clt lid r0 c) (\<lambda>(c, ret, r). rbind (verify (ret = lk_OK)) (\<lambda>_. Inr (c, r)))"

text \<open>The loop of \<^verbatim>\<open>acquire\<close> calls until the answer is OK; None: it does not end.\<close>

partial_function (option) lkc_acquire :: "'c call1 \<Rightarrow> u32 \<Rightarrow> lockid \<Rightarrow> u32 \<Rightarrow> 'c \<Rightarrow> (fault + 'c \<times> u32) option" where
  "lkc_acquire call1 clt lid r0 c =
     (case lkc_call call1 lk_proc_acquire clt lid r0 c of
        Inl e \<Rightarrow> Some (Inl e)
      | Inr (c', ret, r) \<Rightarrow> if ret = lk_OK then Some (Inr (c', ret)) else lkc_acquire call1 clt lid r c')"

definition lkc_release :: "'c call1 \<Rightarrow> u32 \<Rightarrow> lockid \<Rightarrow> u32 \<Rightarrow> 'c \<Rightarrow> fault + 'c \<times> u32" where
  "lkc_release call1 clt lid r0 c =
     rbind (lkc_call call1 lk_proc_release clt lid r0 c) (\<lambda>(c, ret, r). rbind (verify (ret = lk_OK)) (\<lambda>_. Inr (c, ret)))"

section \<open>Histories of the server\<close>

text \<open>
  The threads of the server run one at a time from cut to cut; \<open>holders\<close> remembers which thread's client was
  told OK and has not asked for the release. A signal reaches a thread that waits, when one does.
\<close>

datatype ls_event =
    LS_Enter nat lockid | LS_Test nat | LS_Wait nat | LS_Wake nat | LS_Relock nat | LS_Release nat lockid "nat option"

fun ls_exec :: "ls_event \<Rightarrow> lock_server \<times> (lockid \<Rightarrow> nat set) \<Rightarrow> (lock_server \<times> (lockid \<Rightarrow> nat set)) option" where
  "ls_exec (LS_Enter t lid) (s, hs) =
     (if ls_threads s t = Outside \<and> lock_server_mutex s = None then Some (ls_acquire_enter t lid s, hs) else None)"
| "ls_exec (LS_Test t) (s, hs) =
     (case ls_threads s t of
        Testing lid \<Rightarrow> (case ls_acquire_test t lid s of
            (s', None) \<Rightarrow> Some (s', hs)
          | (s', Some _) \<Rightarrow> Some (s', hs(lid := insert t (hs lid))))
      | _ \<Rightarrow> None)"
| "ls_exec (LS_Wait t) (s, hs) =
     (case ls_threads s t of Going_To_Wait lid \<Rightarrow> Some (ls_acquire_wait t lid s, hs) | _ \<Rightarrow> None)"
| "ls_exec (LS_Wake t) (s, hs) =
     (case ls_threads s t of Waiting lid \<Rightarrow> Some (ls_wake t lid s, hs) | _ \<Rightarrow> None)"
| "ls_exec (LS_Relock t) (s, hs) =
     (case ls_threads s t of
        Waking lid \<Rightarrow> if lock_server_mutex s = None then Some (ls_relock t lid s, hs) else None | _ \<Rightarrow> None)"
| "ls_exec (LS_Release t lid w) (s, hs) =
     (if t \<in> hs lid \<and> (case w of None \<Rightarrow> \<forall>t'. ls_threads s t' \<noteq> Waiting lid | Some t' \<Rightarrow> ls_threads s t' = Waiting lid)
      then Some (fst (ls_release w lid s), hs(lid := hs lid - {t})) else None)"

fun ls_run :: "ls_event list \<Rightarrow> lock_server \<times> (lockid \<Rightarrow> nat set) \<Rightarrow> (lock_server \<times> (lockid \<Rightarrow> nat set)) option" where
  "ls_run [] x = Some x"
| "ls_run (e # es) x = Option.bind (ls_exec e x) (ls_run es)"

section \<open>Mutual exclusion\<close>

definition ls_inv :: "lock_server \<times> (lockid \<Rightarrow> nat set) \<Rightarrow> bool" where
  "ls_inv = (\<lambda>(s, hs). \<forall>lid. hs lid = {} \<or> ((\<exists>t. hs lid = {t}) \<and> lockstate_table s lid = Some LS_LOCKED))"

lemma ls_inv_exec: "ls_inv x \<Longrightarrow> ls_exec e x = Some x' \<Longrightarrow> ls_inv x'"
proof (cases x)
  fix s hs
  assume inv: "ls_inv x" and ex: "ls_exec e x = Some x'" and x: "x = (s, hs)"
  have i: "hs lid = {} \<or> ((\<exists>t. hs lid = {t}) \<and> lockstate_table s lid = Some LS_LOCKED)" for lid
    using inv by (simp add: x ls_inv_def)
  show ?thesis
  proof (cases e)
    case (LS_Release t lid w)
    then have "t \<in> hs lid" "x' = (fst (ls_release w lid s), hs(lid := hs lid - {t}))" using ex by (auto simp: x split: if_splits)
    moreover have "lockstate_table (fst (ls_release w lid s)) l = lockstate_table s l" if "l \<noteq> lid" for l
      using that by (auto simp: ls_release_def ls_wake_def Let_def split: option.split)
    moreover have "hs lid = {t}" using i [of lid] \<open>t \<in> hs lid\<close> by auto
    ultimately show ?thesis using i by (auto simp: ls_inv_def)
  next
    case (LS_Enter t lid)
    with ex i show ?thesis by (force simp: x ls_inv_def ls_acquire_enter_def split: if_splits)
  next
    case (LS_Test t)
    with ex obtain lid where "ls_threads s t = Testing lid" by (auto simp: x split: ls_pc.splits)
    with LS_Test ex i show ?thesis by (force simp: x ls_inv_def ls_acquire_test_def split: if_splits)
  next
    case (LS_Wait t)
    with ex i show ?thesis by (force simp: x ls_inv_def ls_acquire_wait_def split: ls_pc.splits)
  next
    case (LS_Wake t)
    with ex i show ?thesis by (force simp: x ls_inv_def ls_wake_def split: ls_pc.splits)
  next
    case (LS_Relock t)
    with ex i show ?thesis by (force simp: x ls_inv_def ls_relock_def split: ls_pc.splits if_splits)
  qed
qed

lemma ls_inv_run: "ls_inv x \<Longrightarrow> ls_run es x = Some x' \<Longrightarrow> ls_inv x'"
proof (induction es arbitrary: x)
  case (Cons e es)
  then show ?case by (cases "ls_exec e x") (auto dest: ls_inv_exec)
qed simp

text \<open>
  C31. The plain lock server excludes: in every interleaving of its threads, with clients that release only what
  they hold, no lock has two holders, and a lock that has one is marked as locked.
\<close>

theorem lock_server_exclusive:
  assumes "ls_run es (lock_server_new, \<lambda>_. {}) = Some (s, hs)"
  shows "finite (hs lid) \<and> card (hs lid) \<le> 1 \<and> (hs lid \<noteq> {} \<longrightarrow> lockstate_table s lid = Some LS_LOCKED)"
proof -
  have "ls_inv (lock_server_new, \<lambda>_. {})" by (simp add: ls_inv_def)
  with assms have "ls_inv (s, hs)" by (auto intro: ls_inv_run)
  then have "hs lid = {} \<or> ((\<exists>t. hs lid = {t}) \<and> lockstate_table s lid = Some LS_LOCKED)" by (simp add: ls_inv_def)
  then show ?thesis by auto
qed

lemmas ls_op_defs = lock_server_new_def ls_acquire_enter_def ls_acquire_test_def ls_acquire_wait_def ls_wake_def ls_relock_def
  ls_release_def

definition lost_signal :: "ls_event list" where
  "lost_signal = [LS_Enter 1 7, LS_Test 1, LS_Enter 2 7, LS_Test 2, LS_Release 1 7 None, LS_Wait 2]"

theorem lock_server_exclusive_witness:
  "\<exists>s hs. ls_run (take 4 lost_signal) (lock_server_new, \<lambda>_. {}) = Some (s, hs) \<and> card (hs 7) \<le> 1"
proof -
  obtain s hs where r: "ls_run (take 4 lost_signal) (lock_server_new, \<lambda>_. {}) = Some (s, hs)"
    by (simp add: lost_signal_def ls_op_defs)
  with lock_server_exclusive [OF r, of 7] show ?thesis by blast
qed

text \<open>
  \<^verbatim>\<open>release\<close> without the mutex loses a wake-up: when it runs between the test of a second thread and its wait,
  the lock is free, the mutex is free, no thread is awake in \<^verbatim>\<open>acquire\<close>, and the second thread waits on.
\<close>

lemma lock_server_lost_wakeup:
  "\<exists>s hs. ls_run lost_signal (lock_server_new, \<lambda>_. {}) = Some (s, hs) \<and> lockstate_table s 7 = Some LS_FREE \<and>
     lock_server_mutex s = None \<and> ls_threads s = (\<lambda>_. Outside)(2 := Waiting 7)"
  by (simp add: lost_signal_def ls_op_defs fun_eq_iff) (intro exI [of _ "\<lambda>_. {}"] allI refl)

end
