(* ===== verification/Yfs_Client.thy ===== *)
theory Yfs_Client
  imports Yfs_Dir Lock_Server
begin

text \<open>
  The operations of \<^verbatim>\<open>src/yfs_client.cc\<close> on files and directories. They run against an extent client and a lock client,
  which are arguments (\<open>clients\<close>), as \<^verbatim>\<open>ec\<close> and \<^verbatim>\<open>lc\<close> are pointers of the class; what the operations do is shown for any
  clients that keep the contract of the locale \<open>yfs_env\<close>. An operation that waits for a lock for ever, or draws inode
  numbers for ever, has the result None.
\<close>

section \<open>Definitions\<close>

definition y_OK :: u32 where "y_OK = 0"
definition y_RPCERR :: u32 where "y_RPCERR = 1"
definition y_NOENT :: u32 where "y_NOENT = 2"
definition y_IOERR :: u32 where "y_IOERR = 3"
definition y_EXIST :: u32 where "y_EXIST = 4"

lemmas y_status_defs = y_OK_def y_RPCERR_def y_NOENT_def y_IOERR_def y_EXIST_def ext_OK_def ext_RPCERR_def ext_NOENT_def ext_IOERR_def

record fileinfo =
  fi_size :: u64
  fi_atime :: u32
  fi_mtime :: u32
  fi_ctime :: u32

record dirinfo =
  di_atime :: u32
  di_mtime :: u32
  di_ctime :: u32

definition stat2yfs :: "u32 \<Rightarrow> u32 \<Rightarrow> u32 \<Rightarrow> u32" where
  "stat2yfs yfs ext loc =
     (if loc \<noteq> lk_OK then (if loc = lk_RETRY then y_IOERR else loc - 1)
      else if ext \<noteq> ext_OK then ext else yfs)"

subsection \<open>Actions\<close>

type_synonym ('w, 'a) act = "'w \<Rightarrow> (fault + 'w \<times> 'a) option"

definition abind :: "('w, 'a) act \<Rightarrow> ('a \<Rightarrow> ('w, 'b) act) \<Rightarrow> ('w, 'b) act" where
  "abind m f w = (case m w of None \<Rightarrow> None | Some (Inl e) \<Rightarrow> Some (Inl e) | Some (Inr (w', a)) \<Rightarrow> f a w')"

definition aret :: "'a \<Rightarrow> ('w, 'a) act" where
  "aret a w = Some (Inr (w, a))"

definition afrom :: "fault + 'a \<Rightarrow> ('w, 'a) act" where
  "afrom r w = (case r of Inl e \<Rightarrow> Some (Inl e) | Inr a \<Rightarrow> Some (Inr (w, a)))"

text \<open>The clients, on a state \<open>'w\<close> of whatever is behind them.\<close>

record 'w clients =
  c_acquire :: "lockid \<Rightarrow> 'w \<Rightarrow> (fault + 'w \<times> u32) option"
  c_release :: "lockid \<Rightarrow> 'w \<Rightarrow> (fault + 'w \<times> u32) option"
  c_get :: "u64 \<Rightarrow> string \<Rightarrow> 'w \<Rightarrow> fault + 'w \<times> u32 \<times> string"
  c_put :: "u64 \<Rightarrow> string \<Rightarrow> 'w \<Rightarrow> fault + 'w \<times> u32"
  c_remove :: "u64 \<Rightarrow> 'w \<Rightarrow> fault + 'w \<times> u32"
  c_getattr :: "u64 \<Rightarrow> attr \<Rightarrow> 'w \<Rightarrow> fault + 'w \<times> u32 \<times> attr"
  c_getbuf :: "u64 \<Rightarrow> u32 \<Rightarrow> u32 \<Rightarrow> string \<Rightarrow> 'w \<Rightarrow> fault + 'w \<times> u32 \<times> string"
  c_putbuf :: "u64 \<Rightarrow> u32 \<Rightarrow> string \<Rightarrow> 'w \<Rightarrow> fault + 'w \<times> u32"

text \<open>The state of the process: what is behind the clients, and the numbers \<^verbatim>\<open>random\<close> is going to return.\<close>

record 'w yfs =
  yw :: 'w
  yrnd :: "nat \<Rightarrow> u32"
  ypos :: nat

definition lcall :: "('w \<Rightarrow> (fault + 'w \<times> 'a) option) \<Rightarrow> ('w yfs, 'a) act" where
  "lcall f y = (case f (yw y) of None \<Rightarrow> None | Some (Inl e) \<Rightarrow> Some (Inl e) | Some (Inr (w, a)) \<Rightarrow> Some (Inr (y\<lparr>yw := w\<rparr>, a)))"

definition ecall :: "('w \<Rightarrow> fault + 'w \<times> 'a) \<Rightarrow> ('w yfs, 'a) act" where
  "ecall f = lcall (\<lambda>w. Some (f w))"

definition draw_inum :: "u64 \<Rightarrow> bool \<Rightarrow> ('w yfs, u64) act" where
  "draw_inum parent isfile y =
     (case new_inum (yrnd y) (ypos y) parent isfile of None \<Rightarrow> None | Some (i, k) \<Rightarrow> Some (Inr (y\<lparr>ypos := k\<rparr>, i)))"

subsection \<open>The operations\<close>

text \<open>\<open>a0\<close> is the uninitialised \<^verbatim>\<open>attr a\<close>; a reference parameter is passed with its old value and returned.\<close>

definition yfs_getfile :: "'w clients \<Rightarrow> attr \<Rightarrow> u64 \<Rightarrow> fileinfo \<Rightarrow> ('w yfs, u32 \<times> fileinfo) act" where
  "yfs_getfile cl a0 inum fin =
     abind (lcall (c_acquire cl inum)) (\<lambda>l.
       if l = lk_OK then
         abind (ecall (c_getattr cl inum a0)) (\<lambda>(e, a).
           if e \<noteq> ext_OK then abind (lcall (c_release cl inum)) (\<lambda>_. aret (y_IOERR, fin))
           else let fin = \<lparr>fi_size = ucast (a_size a), fi_atime = a_atime a, fi_mtime = a_mtime a, fi_ctime = a_ctime a\<rparr>
                in abind (lcall (c_release cl inum)) (\<lambda>_. aret (y_OK, fin)))
       else aret (y_IOERR, fin))"

definition yfs_getdir :: "'w clients \<Rightarrow> attr \<Rightarrow> u64 \<Rightarrow> dirinfo \<Rightarrow> ('w yfs, u32 \<times> dirinfo) act" where
  "yfs_getdir cl a0 inum din =
     abind (lcall (c_acquire cl inum)) (\<lambda>l.
       if l = lk_OK then
         abind (ecall (c_getattr cl inum a0)) (\<lambda>(e, a).
           if e \<noteq> ext_OK then abind (lcall (c_release cl inum)) (\<lambda>_. aret (y_IOERR, din))
           else let din = \<lparr>di_atime = a_atime a, di_mtime = a_mtime a, di_ctime = a_ctime a\<rparr>
                in abind (lcall (c_release cl inum)) (\<lambda>_. aret (y_OK, din)))
       else aret (y_IOERR, din))"

definition dir_add_entry :: "'w clients \<Rightarrow> u64 \<Rightarrow> string \<Rightarrow> u64 \<Rightarrow> bool \<Rightarrow> ('w yfs, u32 \<times> u64) act" where
  "dir_add_entry cl parent name entry_inum isfile =
     abind (lcall (c_acquire cl parent)) (\<lambda>l.
       if l = lk_OK then
         abind (ecall (c_get cl parent [])) (\<lambda>(e, buf).
         abind (if e = ext_OK then
                  (case dir_find buf name of
                     None \<Rightarrow>
                       abind (draw_inum parent isfile) (\<lambda>i.
                       abind (ecall (c_put cl i [])) (\<lambda>_.
                       abind (ecall (c_put cl parent (buf @ entry_line name i))) (\<lambda>_. aret (y_OK, i))))
                   | Some (i, _, _) \<Rightarrow> aret (y_EXIST, i))
                else aret (y_OK, entry_inum)) (\<lambda>(r, i).
         abind (lcall (c_release cl parent)) (\<lambda>_. aret (stat2yfs r e l, i))))
       else aret (stat2yfs y_OK ext_IOERR l, entry_inum))"

definition yfs_create :: "'w clients \<Rightarrow> u64 \<Rightarrow> string \<Rightarrow> u64 \<Rightarrow> ('w yfs, u32 \<times> u64) act" where
  "yfs_create cl parent name entry_inum = dir_add_entry cl parent name entry_inum True"

definition yfs_mkadir :: "'w clients \<Rightarrow> u64 \<Rightarrow> string \<Rightarrow> u64 \<Rightarrow> ('w yfs, u32 \<times> u64) act" where
  "yfs_mkadir cl parent name entry_inum = dir_add_entry cl parent name entry_inum False"

definition yfs_remove :: "'w clients \<Rightarrow> u64 \<Rightarrow> string \<Rightarrow> ('w yfs, u32) act" where
  "yfs_remove cl parent name =
     abind (lcall (c_acquire cl parent)) (\<lambda>l.
       if l = lk_OK then
         abind (ecall (c_get cl parent [])) (\<lambda>(e, buf).
         abind (case (if e = ext_OK then dir_find buf name else None) of
                  None \<Rightarrow> aret (y_IOERR, e, l)
                | Some (findinum, bufloff, linelen) \<Rightarrow>
                    abind (lcall (c_acquire cl findinum)) (\<lambda>l.
                      if l = lk_OK then
                        abind (ecall (c_remove cl findinum)) (\<lambda>e.
                        abind (if e = ext_OK then
                                 abind (afrom (str_erase (unat bufloff) linelen buf)) (\<lambda>buf.
                                 abind (ecall (c_put cl parent buf)) (\<lambda>_. aret y_OK))
                               else aret y_NOENT) (\<lambda>r.
                        abind (lcall (c_release cl findinum)) (\<lambda>_. aret (r, e, l))))
                      else aret (y_IOERR, e, l))) (\<lambda>(r, e, l).
         abind (lcall (c_release cl parent)) (\<lambda>_. aret (stat2yfs r e l))))
       else aret (stat2yfs y_IOERR ext_IOERR l))"

text \<open>\<^verbatim>\<open>lookup\<close> returns the inum when it found one; what it leaves in \<^verbatim>\<open>findinum\<close> otherwise is not used.\<close>

definition yfs_lookup :: "'w clients \<Rightarrow> u64 \<Rightarrow> string \<Rightarrow> ('w yfs, u32 \<times> u64 option) act" where
  "yfs_lookup cl parent name =
     abind (lcall (c_acquire cl parent)) (\<lambda>l.
       if l = lk_OK then
         abind (ecall (c_get cl parent [])) (\<lambda>(e, buf).
           let f = (if e = ext_OK then map_option fst (dir_find buf name) else None)
           in abind (lcall (c_release cl parent)) (\<lambda>_. aret (stat2yfs (if f = None then y_NOENT else y_OK) e l, f)))
       else aret (stat2yfs y_NOENT ext_IOERR l, None))"

definition yfs_readir :: "'w clients \<Rightarrow> u64 \<Rightarrow> (string \<times> u64) list \<Rightarrow> ('w yfs, u32 \<times> (string \<times> u64) list) act" where
  "yfs_readir cl parent dirents =
     abind (ecall (c_get cl parent [])) (\<lambda>(e, buf).
       if e = ext_OK then aret (stat2yfs y_OK e lk_OK, dirents @ read_entries (getlines 0 buf))
       else aret (stat2yfs y_NOENT e lk_OK, dirents))"

definition yfs_resize :: "nat \<Rightarrow> 'w clients \<Rightarrow> u64 \<Rightarrow> u32 \<Rightarrow> ('w yfs, u32) act" where
  "yfs_resize mx cl target new_size =
     abind (lcall (c_acquire cl target)) (\<lambda>l.
       if l = lk_OK then
         abind (ecall (c_get cl target [])) (\<lambda>(e, buf).
         abind (if e = ext_OK then
                  abind (afrom (str_resize mx (unat new_size) buf)) (\<lambda>buf. abind (ecall (c_put cl target buf)) (\<lambda>_. aret y_OK))
                else aret y_NOENT) (\<lambda>r.
         abind (lcall (c_release cl target)) (\<lambda>_. aret (stat2yfs r e l))))
       else aret (stat2yfs y_NOENT ext_IOERR l))"

text \<open>The offset is an \<^verbatim>\<open>off_t\<close> and passed on as a \<^verbatim>\<open>size_t\<close>; \<^verbatim>\<open>memcpy\<close> writes into a buffer of \<open>size\<close> bytes.\<close>

definition yfs_read :: "'w clients \<Rightarrow> u64 \<Rightarrow> u32 \<Rightarrow> u64 \<Rightarrow> ('w yfs, u32 \<times> string option) act" where
  "yfs_read cl target sz offset =
     abind (ecall (c_getbuf cl target sz (ucast offset) [])) (\<lambda>(e, tmp).
       if e = ext_OK then (if length tmp > unat sz then afrom (Inl Wild_Access) else aret (y_OK, Some tmp))
       else aret (e, None))"

definition yfs_write :: "'w clients \<Rightarrow> u64 \<Rightarrow> string \<Rightarrow> u64 \<Rightarrow> u32 \<Rightarrow> ('w yfs, u32 \<times> u32) act" where
  "yfs_write cl target buf offset wrtb =
     abind (lcall (c_acquire cl target)) (\<lambda>l.
       if l = lk_OK then
         abind (ecall (c_putbuf cl target (ucast offset) buf)) (\<lambda>e.
         let (r, wrtb) = (if e = ext_OK then (y_OK, of_nat (length buf)) else (y_NOENT, wrtb))
         in abind (lcall (c_release cl target)) (\<lambda>_. aret (stat2yfs r e l, wrtb)))
       else aret (stat2yfs y_NOENT ext_IOERR l, wrtb))"

lemma abind_simps [simp]:
  "m w = None \<Longrightarrow> abind m f w = None" "m w = Some (Inl e) \<Longrightarrow> abind m f w = Some (Inl e)"
  "m w = Some (Inr (w', a)) \<Longrightarrow> abind m f w = f a w'" "abind (aret a) f = f a"
  by (simp_all add: abind_def aret_def fun_eq_iff)

lemma lcall_simps [simp]: "f (yw y) = Some (Inr (w, a)) \<Longrightarrow> lcall f y = Some (Inr (y\<lparr>yw := w\<rparr>, a))"
  by (simp add: lcall_def)

lemma ecall_simps [simp]: "f (yw y) = Inr (w, a) \<Longrightarrow> ecall f y = Some (Inr (y\<lparr>yw := w\<rparr>, a))"
  by (simp add: ecall_def)

section \<open>The discipline of locks\<close>

text \<open>
  The same clients, with a record of what was called: a lock asked for, with the answer, a lock given back, and an extent
  used.
\<close>

datatype yev = Acq lockid u32 | Rel lockid | Ext u64

definition log_lock :: "('a \<Rightarrow> yev) \<Rightarrow> ('w \<Rightarrow> (fault + 'w \<times> 'a) option) \<Rightarrow> 'w \<times> yev list \<Rightarrow> (fault + ('w \<times> yev list) \<times> 'a) option" where
  "log_lock ev f = (\<lambda>(w, es). case f w of None \<Rightarrow> None | Some (Inl e) \<Rightarrow> Some (Inl e) | Some (Inr (w', a)) \<Rightarrow> Some (Inr ((w', es @ [ev a]), a)))"

definition log_ext :: "u64 \<Rightarrow> ('w \<Rightarrow> fault + 'w \<times> 'a) \<Rightarrow> 'w \<times> yev list \<Rightarrow> fault + ('w \<times> yev list) \<times> 'a" where
  "log_ext eid f = (\<lambda>(w, es). rbind (f w) (\<lambda>(w', a). Inr ((w', es @ [Ext eid]), a)))"

definition logged :: "'w clients \<Rightarrow> ('w \<times> yev list) clients" where
  "logged cl = \<lparr>c_acquire = (\<lambda>lid. log_lock (Acq lid) (c_acquire cl lid)), c_release = (\<lambda>lid. log_lock (\<lambda>_. Rel lid) (c_release cl lid)),
     c_get = (\<lambda>eid b. log_ext eid (c_get cl eid b)), c_put = (\<lambda>eid b. log_ext eid (c_put cl eid b)),
     c_remove = (\<lambda>eid. log_ext eid (c_remove cl eid)), c_getattr = (\<lambda>eid a. log_ext eid (c_getattr cl eid a)),
     c_getbuf = (\<lambda>eid n off b. log_ext eid (c_getbuf cl eid n off b)), c_putbuf = (\<lambda>eid off b. log_ext eid (c_putbuf cl eid off b))\<rparr>"

text \<open>The locks held after some calls; None when a lock is given back that is not held, or an extent that is not exempt
  is used without its lock.\<close>

fun lock_disciplined :: "(u64 \<Rightarrow> bool) \<Rightarrow> lockid list \<Rightarrow> yev list \<Rightarrow> lockid list option" where
  "lock_disciplined exempt held [] = Some held"
| "lock_disciplined exempt held (Acq lid st # es) = lock_disciplined exempt (if st = lk_OK then lid # held else held) es"
| "lock_disciplined exempt held (Rel lid # es) = (if lid \<in> set held then lock_disciplined exempt (remove1 lid held) es else None)"
| "lock_disciplined exempt held (Ext eid # es) = (if eid \<in> set held \<or> exempt eid then lock_disciplined exempt held es else None)"

datatype yfs_op =
    Getfile u64 | Getdir u64 | Create u64 string | Mkadir u64 string | Remove u64 string | Lookup u64 string
  | Readir u64 | Resize u64 u32 | Read u64 u32 u64 | Write u64 string u64

definition aignore :: "('w, 'a) act \<Rightarrow> ('w, unit) act" where
  "aignore m = abind m (\<lambda>_. aret ())"

definition no_attr :: attr where
  "no_attr = \<lparr>a_atime = 0, a_mtime = 0, a_ctime = 0, a_size = 0\<rparr>"

fun run_op :: "nat \<Rightarrow> 'w clients \<Rightarrow> yfs_op \<Rightarrow> ('w yfs, unit) act" where
  "run_op mx cl (Getfile i) = aignore (yfs_getfile cl no_attr i \<lparr>fi_size = 0, fi_atime = 0, fi_mtime = 0, fi_ctime = 0\<rparr>)"
| "run_op mx cl (Getdir i) = aignore (yfs_getdir cl no_attr i \<lparr>di_atime = 0, di_mtime = 0, di_ctime = 0\<rparr>)"
| "run_op mx cl (Create p n) = aignore (yfs_create cl p n 0)"
| "run_op mx cl (Mkadir p n) = aignore (yfs_mkadir cl p n 0)"
| "run_op mx cl (Remove p n) = aignore (yfs_remove cl p n)"
| "run_op mx cl (Lookup p n) = aignore (yfs_lookup cl p n)"
| "run_op mx cl (Readir p) = aignore (yfs_readir cl p [])"
| "run_op mx cl (Resize t n) = aignore (yfs_resize mx cl t n)"
| "run_op mx cl (Read t n off) = aignore (yfs_read cl t n off)"
| "run_op mx cl (Write t b off) = aignore (yfs_write cl t b off 0)"

fun exempt_of :: "yfs_op \<Rightarrow> u64 \<Rightarrow> bool" where
  "exempt_of (Create p n) e = (e \<noteq> p)"
| "exempt_of (Mkadir p n) e = (e \<noteq> p)"
| "exempt_of (Readir p) e = True"
| "exempt_of (Read t n off) e = True"
| "exempt_of _ e = False"

text \<open>Calls add to the record; \<open>P\<close> relates a result to what was added.\<close>

definition logs :: "(('w \<times> yev list) yfs, 'a) act \<Rightarrow> ('a \<Rightarrow> yev list \<Rightarrow> bool) \<Rightarrow> bool" where
  "logs m P \<longleftrightarrow> (\<forall>y y' r. m y = Some (Inr (y', r)) \<longrightarrow> (\<exists>es. snd (yw y') = snd (yw y) @ es \<and> P r es))"

lemma logs_bind:
  assumes "logs m P" "\<And>a es. P a es \<Longrightarrow> logs (f a) (\<lambda>b es'. Q b (es @ es'))"
  shows "logs (abind m f) Q"
  unfolding logs_def
proof (intro allI impI)
  fix y y' r assume "abind m f y = Some (Inr (y', r))"
  then obtain z a where z: "m y = Some (Inr (z, a))" "f a z = Some (Inr (y', r))"
    by (auto simp: abind_def split: option.splits sum.splits prod.splits)
  from z(1) assms(1) obtain es where es: "snd (yw z) = snd (yw y) @ es" "P a es" unfolding logs_def by blast
  from z(2) assms(2) [OF es(2)] obtain es' where "snd (yw y') = snd (yw z) @ es'" "Q r (es @ es')" unfolding logs_def by blast
  with es(1) show "\<exists>es. snd (yw y') = snd (yw y) @ es \<and> Q r es" by auto
qed

lemma logs_lock:
  assumes "\<And>st. logs (f st) (\<lambda>b es. Q b (ev st # es))"
  shows "logs (abind (lcall (log_lock ev g)) f) Q"
proof (rule logs_bind)
  show "logs (lcall (log_lock ev g)) (\<lambda>st es. es = [ev st])"
    unfolding logs_def lcall_def log_lock_def by (auto split: option.splits sum.splits prod.splits)
qed (use assms in simp)

lemma logs_ext:
  assumes "\<And>r. logs (f r) (\<lambda>b es. Q b (Ext eid # es))"
  shows "logs (abind (ecall (log_ext eid g)) f) Q"
proof (rule logs_bind)
  show "logs (ecall (log_ext eid g)) (\<lambda>r es. es = [Ext eid])"
    unfolding logs_def ecall_def lcall_def log_ext_def by (auto simp: rbind_eq_Inr split: option.splits sum.splits prod.splits)
qed (use assms in simp)

lemma abind_assoc: "abind (abind m f) g = abind m (\<lambda>a. abind (f a) g)"
  by (auto simp: abind_def fun_eq_iff split: option.split sum.split)

named_theorems logs_intros \<open>what the calls record\<close>

lemma logs_ret [logs_intros]: "P a [] \<Longrightarrow> logs (aret a) P"
  by (simp add: logs_def aret_def)

lemma logs_ret_bind [logs_intros]: "logs (f a) Q \<Longrightarrow> logs (abind (aret a) f) Q"
  by simp

lemma logs_from [logs_intros]: "(\<And>a. r = Inr a \<Longrightarrow> logs (f a) Q) \<Longrightarrow> logs (abind (afrom r) f) Q"
  by (cases r) (auto simp: logs_def afrom_def abind_def)

lemma logs_fault [logs_intros]: "logs (afrom (Inl e)) P"
  by (simp add: logs_def afrom_def)

lemma logs_draw [logs_intros]: "(\<And>i. logs (f i) Q) \<Longrightarrow> logs (abind (draw_inum parent isfile) f) Q"
  by (rule logs_bind [where P = "\<lambda>_ es. es = []"]) (auto simp: logs_def draw_inum_def split: option.splits)

lemma logs_assoc [logs_intros]: "logs (abind m (\<lambda>a. abind (f a) g)) Q \<Longrightarrow> logs (abind (abind m f) g) Q"
  by (simp add: abind_assoc)

lemma logs_if [logs_intros]:
  "(b \<Longrightarrow> logs m Q) \<Longrightarrow> (\<not> b \<Longrightarrow> logs m' Q) \<Longrightarrow> logs (if b then m else m') Q"
  "(b \<Longrightarrow> logs (abind m f) R) \<Longrightarrow> (\<not> b \<Longrightarrow> logs (abind m' f) R) \<Longrightarrow> logs (abind (if b then m else m') f) R"
  by simp_all

lemma logs_case [logs_intros]:
  "(x = None \<Longrightarrow> logs (abind m f) Q) \<Longrightarrow> (\<And>i a b. x = Some (i, a, b) \<Longrightarrow> logs (abind (g i a b) f) Q) \<Longrightarrow>
     logs (abind (case x of None \<Rightarrow> m | Some (i, a, b) \<Rightarrow> g i a b) f) Q"
  "(\<And>a b. logs (h a b) R) \<Longrightarrow> logs (case z of (a, b) \<Rightarrow> h a b) R"
  "(\<And>a b. logs (abind (h' a b) f') R') \<Longrightarrow> logs (abind (case z of (a, b) \<Rightarrow> h' a b) f') R'"
  "(\<And>a b c. logs (k a b c) S) \<Longrightarrow> logs (case u of (a, b, c) \<Rightarrow> k a b c) S"
  by (auto split: option.split prod.split)

lemma logs_calls [logs_intros]:
  "(\<And>st. logs (f st) (\<lambda>b es. Q b (Acq lid st # es))) \<Longrightarrow> logs (abind (lcall (c_acquire (logged cl) lid)) f) Q"
  "(\<And>st. logs (f st) (\<lambda>b es. Q b (Rel lid # es))) \<Longrightarrow> logs (abind (lcall (c_release (logged cl) lid)) f) Q"
  by (simp_all add: logged_def logs_lock)

lemma logs_ext_calls [logs_intros]:
  "(\<And>r. logs (f1 r) (\<lambda>b es. Q b (Ext eid # es))) \<Longrightarrow> logs (abind (ecall (c_get (logged cl) eid b0)) f1) Q"
  "(\<And>r. logs (f2 r) (\<lambda>b es. Q b (Ext eid # es))) \<Longrightarrow> logs (abind (ecall (c_put (logged cl) eid b0)) f2) Q"
  "(\<And>r. logs (f3 r) (\<lambda>b es. Q b (Ext eid # es))) \<Longrightarrow> logs (abind (ecall (c_remove (logged cl) eid)) f3) Q"
  "(\<And>r. logs (f4 r) (\<lambda>b es. Q b (Ext eid # es))) \<Longrightarrow> logs (abind (ecall (c_getattr (logged cl) eid a)) f4) Q"
  "(\<And>r. logs (f5 r) (\<lambda>b es. Q b (Ext eid # es))) \<Longrightarrow> logs (abind (ecall (c_getbuf (logged cl) eid n off b0)) f5) Q"
  "(\<And>r. logs (f6 r) (\<lambda>b es. Q b (Ext eid # es))) \<Longrightarrow> logs (abind (ecall (c_putbuf (logged cl) eid off b0)) f6) Q"
  by (simp_all add: logged_def logs_ext)

lemma op_logs: "logs (run_op mx (logged cl) op) (\<lambda>_ es. lock_disciplined (exempt_of op) [] es = Some [])"
proof (cases op)
  case (Getfile i)
  show ?thesis unfolding Getfile run_op.simps aignore_def yfs_getfile_def Let_def by (intro logs_intros) simp_all
next
  case (Getdir i)
  show ?thesis unfolding Getdir run_op.simps aignore_def yfs_getdir_def Let_def by (intro logs_intros) simp_all
next
  case (Create p n)
  show ?thesis unfolding Create run_op.simps aignore_def yfs_create_def dir_add_entry_def by (intro logs_intros) simp_all
next
  case (Mkadir p n)
  show ?thesis unfolding Mkadir run_op.simps aignore_def yfs_mkadir_def dir_add_entry_def by (intro logs_intros) simp_all
next
  case (Remove p n)
  show ?thesis unfolding Remove run_op.simps aignore_def yfs_remove_def by (intro logs_intros) simp_all
next
  case (Lookup p n)
  show ?thesis unfolding Lookup run_op.simps aignore_def yfs_lookup_def Let_def by (intro logs_intros) simp_all
next
  case (Readir p)
  show ?thesis unfolding Readir run_op.simps aignore_def yfs_readir_def by (intro logs_intros) simp_all
next
  case (Resize t n)
  show ?thesis unfolding Resize run_op.simps aignore_def yfs_resize_def by (intro logs_intros) simp_all
next
  case (Read t n off)
  show ?thesis unfolding Read run_op.simps aignore_def yfs_read_def by (intro logs_intros) simp_all
next
  case (Write t b off)
  show ?thesis unfolding Write run_op.simps aignore_def yfs_write_def Let_def by (intro logs_intros) simp_all
qed


text \<open>Clients that hold one directory and grant every lock.\<close>

definition demo_clients :: "string clients" where
  "demo_clients = \<lparr>c_acquire = (\<lambda>_ w. Some (Inr (w, lk_OK))), c_release = (\<lambda>_ w. Some (Inr (w, lk_OK))), c_get = (\<lambda>_ _ w. Inr (w, ext_OK, w)),
     c_put = (\<lambda>_ b w. Inr (b, ext_OK)), c_remove = (\<lambda>_ w. Inr (w, ext_OK)), c_getattr = (\<lambda>_ a w. Inr (w, ext_OK, a)),
     c_getbuf = (\<lambda>_ _ _ _ w. Inr (w, ext_OK, w)), c_putbuf = (\<lambda>_ _ b w. Inr (b, ext_OK))\<rparr>"


section \<open>What the operations do\<close>

text \<open>
  The contract of the clients for a process that runs alone: locks that are not held are granted, extents are stored by
  key, and no extent that is read or written reaches the limit of what a call can carry. \<open>held\<close> are the locks the
  process has.
\<close>

definition ext_limit :: nat where "ext_limit = 2 ^ 29"

locale yfs_env =
  fixes cl :: "'w clients" and inv :: "'w \<Rightarrow> bool" and content :: "'w \<Rightarrow> u32 \<Rightarrow> string option" and held :: "'w \<Rightarrow> lockid set"
  assumes acquire_law: "inv w \<Longrightarrow> lid \<notin> held w \<Longrightarrow>
      \<exists>w'. c_acquire cl lid w = Some (Inr (w', lk_OK)) \<and> inv w' \<and> content w' = content w \<and> held w' = insert lid (held w)"
    and release_law: "inv w \<Longrightarrow> lid \<in> held w \<Longrightarrow>
      \<exists>w'. c_release cl lid w = Some (Inr (w', lk_OK)) \<and> inv w' \<and> content w' = content w \<and> held w' = held w - {lid}"
    and get_law: "inv w \<Longrightarrow> content w (ext_key eid) = Some c \<Longrightarrow> length c < ext_limit \<Longrightarrow>
      \<exists>w'. c_get cl eid b w = Inr (w', ext_OK, c) \<and> inv w' \<and> content w' = content w \<and> held w' = held w"
    and get_none_law: "inv w \<Longrightarrow> content w (ext_key eid) = None \<Longrightarrow>
      \<exists>w'. c_get cl eid b w = Inr (w', ext_NOENT, []) \<and> inv w' \<and> content w' = content w \<and> held w' = held w"
    and put_law: "inv w \<Longrightarrow> length b < ext_limit \<Longrightarrow>
      \<exists>w'. c_put cl eid b w = Inr (w', ext_OK) \<and> inv w' \<and> content w' = (content w)(ext_key eid \<mapsto> b) \<and> held w' = held w"
    and remove_law: "inv w \<Longrightarrow> content w (ext_key eid) \<noteq> None \<Longrightarrow>
      \<exists>w'. c_remove cl eid w = Inr (w', ext_OK) \<and> inv w' \<and> content w' = (content w)(ext_key eid := None) \<and> held w' = held w"
    and getattr_law: "inv w \<Longrightarrow> content w (ext_key eid) \<noteq> None \<Longrightarrow>
      \<exists>w' a'. c_getattr cl eid a w = Inr (w', ext_OK, a') \<and> inv w' \<and> content w' = content w \<and> held w' = held w"
begin

definition dir_at :: "'w \<Rightarrow> u64 \<Rightarrow> dir \<Rightarrow> bool" where
  "dir_at w p d \<longleftrightarrow> content w (ext_key p) = Some (render d) \<and> clean_dir d \<and> length (render d) < ext_limit"

lemma dir_atD:
  assumes "dir_at w p d"
  shows "content w (ext_key p) = Some (render d)" "clean_dir d" "length (render d) < ext_limit" "length (render d) < 2 ^ 32"
  using assms by (simp_all add: dir_at_def ext_limit_def)

text \<open>The state of the process changes to contents \<open>c\<close> with the same locks, and nothing else but the random numbers used.\<close>

definition moves :: "'w yfs \<Rightarrow> (u32 \<Rightarrow> string option) \<Rightarrow> nat \<Rightarrow> 'w yfs \<Rightarrow> bool" where
  "moves y c k y' \<longleftrightarrow> inv (yw y') \<and> content (yw y') = c \<and> held (yw y') = held (yw y) \<and> yrnd y' = yrnd y \<and> ypos y' = k"

lemma lock_get:
  assumes "inv w" "p \<notin> held w" "content w (ext_key p) = Some c" "length c < ext_limit"
  obtains w1 w2 where "c_acquire cl p w = Some (Inr (w1, lk_OK))" "c_get cl p [] w1 = Inr (w2, ext_OK, c)"
    "inv w2" "content w2 = content w" "held w2 = insert p (held w)"
proof -
  obtain w1 where w1: "c_acquire cl p w = Some (Inr (w1, lk_OK))" "inv w1" "content w1 = content w" "held w1 = insert p (held w)"
    using acquire_law [OF assms(1,2)] by blast
  obtain w2 where "c_get cl p [] w1 = Inr (w2, ext_OK, c)" "inv w2" "content w2 = content w1" "held w2 = held w1"
    using get_law [OF w1(2), of p c "[]"] w1(3) assms(3,4) by auto
  with w1 that show thesis by simp
qed

lemma lookup_spec:
  assumes "inv (yw y)" "p \<notin> held (yw y)" "dir_at (yw y) p d"
  shows "\<exists>y'. yfs_lookup cl p name y =
      Some (Inr (y', case map_of (entries d) name of None \<Rightarrow> (y_NOENT, None) | Some i \<Rightarrow> (y_OK, Some i))) \<and>
    moves y (content (yw y)) (ypos y) y'"
proof -
  note d = dir_atD [OF assms(3)]
  obtain w1 w2 where w: "c_acquire cl p (yw y) = Some (Inr (w1, lk_OK))" "c_get cl p [] w1 = Inr (w2, ext_OK, render d)"
      "inv w2" "content w2 = content (yw y)" "held w2 = insert p (held (yw y))"
    using lock_get [OF assms(1,2) d(1,3)] by blast
  obtain w3 where w3: "c_release cl p w2 = Some (Inr (w3, lk_OK))" "inv w3" "content w3 = content w2" "held w3 = held w2 - {p}"
    using release_law [OF w(3), of p] w(5) by auto
  have "held w3 = held (yw y)" using w3(4) w(5) assms(2) by auto
  then show ?thesis
    using w w3 dir_find_lookup [OF d(2,4), of name]
    by (auto simp: yfs_lookup_def moves_def Let_def aret_def stat2yfs_def split: option.splits)
qed

lemma create_spec:
  assumes "inv (yw y)" "p \<notin> held (yw y)" "dir_at (yw y) p d" "name \<notin> fst ` set (entries d)"
    and "new_inum (yrnd y) (ypos y) p isfile = Some (i, k)" "length (render d @ entry_line name i) < ext_limit"
  shows "\<exists>y'. dir_add_entry cl p name i0 isfile y = Some (Inr (y', y_OK, i)) \<and>
    moves y ((content (yw y))(ext_key i \<mapsto> [], ext_key p \<mapsto> render (d @ [Some (name, i)]))) k y'"
proof -
  note d = dir_atD [OF assms(3)]
  obtain w1 w2 where w: "c_acquire cl p (yw y) = Some (Inr (w1, lk_OK))" "c_get cl p [] w1 = Inr (w2, ext_OK, render d)"
      "inv w2" "content w2 = content (yw y)" "held w2 = insert p (held (yw y))"
    using lock_get [OF assms(1,2) d(1,3)] by blast
  have f: "dir_find (render d) name = None" using dir_find_absent [OF d(2)] assms(4) by simp
  obtain w3 where w3: "c_put cl i [] w2 = Inr (w3, ext_OK)" "inv w3" "content w3 = (content w2)(ext_key i \<mapsto> [])" "held w3 = held w2"
    using put_law [OF w(3), of "[]" i] by (auto simp: ext_limit_def)
  obtain w4 where w4: "c_put cl p (render d @ entry_line name i) w3 = Inr (w4, ext_OK)" "inv w4"
      "content w4 = (content w3)(ext_key p \<mapsto> render d @ entry_line name i)" "held w4 = held w3"
    using put_law [OF w3(2) assms(6), of p] by blast
  obtain w5 where w5: "c_release cl p w4 = Some (Inr (w5, lk_OK))" "inv w5" "content w5 = content w4" "held w5 = held w4 - {p}"
    using release_law [OF w4(2), of p] w4(4) w3(4) w(5) by auto
  have "held w5 = held (yw y)" using w5(4) w4(4) w3(4) w(5) assms(2) by auto
  moreover have "content w5 = (content (yw y))(ext_key i \<mapsto> [], ext_key p \<mapsto> render (d @ [Some (name, i)]))"
    by (simp add: w5(3) w4(3) w3(3) w(4) render_append)
  ultimately show ?thesis
    using w w3 w4 w5 f assms(5)
    by (auto simp: dir_add_entry_def moves_def Let_def aret_def stat2yfs_def draw_inum_def)
qed

lemma create_exists_spec:
  assumes "inv (yw y)" "p \<notin> held (yw y)" "dir_at (yw y) p d" "map_of (entries d) name = Some i"
  shows "\<exists>y'. dir_add_entry cl p name i0 isfile y = Some (Inr (y', y_EXIST, i)) \<and> moves y (content (yw y)) (ypos y) y'"
proof -
  note d = dir_atD [OF assms(3)]
  obtain w1 w2 where w: "c_acquire cl p (yw y) = Some (Inr (w1, lk_OK))" "c_get cl p [] w1 = Inr (w2, ext_OK, render d)"
      "inv w2" "content w2 = content (yw y)" "held w2 = insert p (held (yw y))"
    using lock_get [OF assms(1,2) d(1,3)] by blast
  obtain off len where f: "dir_find (render d) name = Some (i, off, len)"
    using dir_find_lookup [OF d(2,4), of name] assms(4) by auto
  obtain w5 where w5: "c_release cl p w2 = Some (Inr (w5, lk_OK))" "inv w5" "content w5 = content w2" "held w5 = held w2 - {p}"
    using release_law [OF w(3), of p] w(5) by auto
  have "held w5 = held (yw y)" using w5(4) w(5) assms(2) by auto
  then show ?thesis
    using w w5 f by (auto simp: dir_add_entry_def moves_def Let_def aret_def stat2yfs_def)
qed

lemma remove_spec:
  assumes "inv (yw y)" "p \<notin> held (yw y)" "dir_at (yw y) p d" "map_of (entries d) name = Some i"
    and "i \<notin> held (yw y)" "i \<noteq> p" "ext_key i \<noteq> ext_key p" "content (yw y) (ext_key i) \<noteq> None"
  shows "\<exists>y' d'. yfs_remove cl p name y = Some (Inr (y', y_OK)) \<and> clean_dir d' \<and> length (render d') \<le> length (render d) \<and>
    map_of (entries d') = (map_of (entries d))(name := None) \<and>
    moves y ((content (yw y))(ext_key i := None, ext_key p \<mapsto> render d')) (ypos y) y'"
proof -
  note d = dir_atD [OF assms(3)]
  obtain w1 w2 where w: "c_acquire cl p (yw y) = Some (Inr (w1, lk_OK))" "c_get cl p [] w1 = Inr (w2, ext_OK, render d)"
      "inv w2" "content w2 = content (yw y)" "held w2 = insert p (held (yw y))"
    using lock_get [OF assms(1,2) d(1,3)] by blast
  obtain off len where f: "dir_find (render d) name = Some (i, off, len)"
    using dir_find_lookup [OF d(2,4), of name] assms(4) by auto
  obtain d1 d2 where s: "d = d1 @ Some (name, i) # d2" "name \<notin> fst ` set (entries d1)" "unat off = length (render d1)"
      "len = length (entry_line name i) - 1"
    using dir_find_present [OF d(2) f d(4)] by blast
  let ?d = "d1 @ None # d2"
  have c: "clean_dir ?d" using d(2) unfolding s(1) by (rule clean_dir_blank)
  have er: "str_erase (unat off) len (render d) = Inr (render ?d)" unfolding s(1) by (rule erase_entry [OF s(4,3)])
  have le: "length (render ?d) \<le> length (render d)" by (simp add: s(1) render_append entry_line_def)
  have "name \<notin> fst ` set (entries d2)" using d(2) by (auto simp: s(1) clean_dir_def)
  with s(2) have m: "map_of (entries ?d) = (map_of (entries d))(name := None)"
    unfolding s(1) by (rule map_of_entries_blank)
  obtain w3 where w3: "c_acquire cl i w2 = Some (Inr (w3, lk_OK))" "inv w3" "content w3 = content w2" "held w3 = insert i (held w2)"
    using acquire_law [OF w(3), of i] assms(5,6) w(5) by auto
  obtain w4 where w4: "c_remove cl i w3 = Inr (w4, ext_OK)" "inv w4" "content w4 = (content w3)(ext_key i := None)" "held w4 = held w3"
    using remove_law [OF w3(2), of i] assms(8) w3(3) w(4) by auto
  obtain w5 where w5: "c_put cl p (render ?d) w4 = Inr (w5, ext_OK)" "inv w5" "content w5 = (content w4)(ext_key p \<mapsto> render ?d)"
      "held w5 = held w4"
    using put_law [OF w4(2), of "render ?d" p] le d(3) by auto
  obtain w6 where w6: "c_release cl i w5 = Some (Inr (w6, lk_OK))" "inv w6" "content w6 = content w5" "held w6 = held w5 - {i}"
    using release_law [OF w5(2), of i] w5(4) w4(4) w3(4) by auto
  obtain w7 where w7: "c_release cl p w6 = Some (Inr (w7, lk_OK))" "inv w7" "content w7 = content w6" "held w7 = held w6 - {p}"
    using release_law [OF w6(2), of p] w6(4) w5(4) w4(4) w3(4) w(5) assms(6) by auto
  have "held w7 = held (yw y)" using w7(4) w6(4) w5(4) w4(4) w3(4) w(5) assms(2,5) by auto
  moreover have "content w7 = (content (yw y))(ext_key i := None, ext_key p \<mapsto> render ?d)"
    by (simp add: w7(3) w6(3) w5(3) w4(3) w3(3) w(4))
  ultimately have "yfs_remove cl p name y = Some (Inr (y\<lparr>yw := w7\<rparr>, y_OK)) \<and>
      moves y ((content (yw y))(ext_key i := None, ext_key p \<mapsto> render ?d)) (ypos y) (y\<lparr>yw := w7\<rparr>)"
    using w w3 w4 w5 w6 w7 f er by (simp add: yfs_remove_def moves_def aret_def afrom_def stat2yfs_def)
  with c le m show ?thesis by blast
qed

lemma remove_absent_spec:
  assumes "inv (yw y)" "p \<notin> held (yw y)" "dir_at (yw y) p d" "name \<notin> fst ` set (entries d)"
  shows "\<exists>y'. yfs_remove cl p name y = Some (Inr (y', y_IOERR)) \<and> moves y (content (yw y)) (ypos y) y'"
proof -
  note d = dir_atD [OF assms(3)]
  obtain w1 w2 where w: "c_acquire cl p (yw y) = Some (Inr (w1, lk_OK))" "c_get cl p [] w1 = Inr (w2, ext_OK, render d)"
      "inv w2" "content w2 = content (yw y)" "held w2 = insert p (held (yw y))"
    using lock_get [OF assms(1,2) d(1,3)] by blast
  have f: "dir_find (render d) name = None" using dir_find_absent [OF d(2)] assms(4) by simp
  obtain w5 where w5: "c_release cl p w2 = Some (Inr (w5, lk_OK))" "inv w5" "content w5 = content w2" "held w5 = held w2 - {p}"
    using release_law [OF w(3), of p] w(5) by auto
  have "held w5 = held (yw y)" using w5(4) w(5) assms(2) by auto
  then show ?thesis using w w5 f by (auto simp: yfs_remove_def moves_def aret_def stat2yfs_def)
qed

lemma readir_spec:
  assumes "inv (yw y)" "dir_at (yw y) p d"
  shows "\<exists>y'. yfs_readir cl p es y = Some (Inr (y', y_OK, es @ entries d)) \<and> moves y (content (yw y)) (ypos y) y'"
proof -
  note d = dir_atD [OF assms(2)]
  obtain w' where "c_get cl p [] (yw y) = Inr (w', ext_OK, render d)" "inv w'" "content w' = content (yw y)" "held w' = held (yw y)"
    using get_law [OF assms(1) d(1,3), of "[]"] by blast
  then show ?thesis
    using read_entries_render [OF d(2), of 0] by (auto simp: yfs_readir_def moves_def aret_def stat2yfs_def)
qed

lemma lock_getattr:
  assumes "inv w" "i \<notin> held w" "content w (ext_key i) \<noteq> None"
  obtains w1 w2 w3 a' where "c_acquire cl i w = Some (Inr (w1, lk_OK))" "c_getattr cl i a w1 = Inr (w2, ext_OK, a')"
    "c_release cl i w2 = Some (Inr (w3, lk_OK))" "inv w3" "content w3 = content w" "held w3 = held w"
proof -
  obtain w1 where w1: "c_acquire cl i w = Some (Inr (w1, lk_OK))" "inv w1" "content w1 = content w" "held w1 = insert i (held w)"
    using acquire_law [OF assms(1,2)] by blast
  obtain w2 a' where w2: "c_getattr cl i a w1 = Inr (w2, ext_OK, a')" "inv w2" "content w2 = content w1" "held w2 = held w1"
    using getattr_law [OF w1(2), of i a] w1(3) assms(3) by auto
  obtain w3 where w3: "c_release cl i w2 = Some (Inr (w3, lk_OK))" "inv w3" "content w3 = content w2" "held w3 = held w2 - {i}"
    using release_law [OF w2(2), of i] w2(4) w1(4) by auto
  have "held w3 = held w" using w3(4) w2(4) w1(4) assms(2) by auto
  with w1 w2 w3 that show thesis by simp
qed

lemma getfile_spec:
  assumes "inv (yw y)" "i \<notin> held (yw y)" "content (yw y) (ext_key i) \<noteq> None"
  shows "\<exists>y' info. yfs_getfile cl a i f y = Some (Inr (y', y_OK, info)) \<and> moves y (content (yw y)) (ypos y) y'"
proof -
  obtain w1 w2 w3 a' where "c_acquire cl i (yw y) = Some (Inr (w1, lk_OK))" "c_getattr cl i a w1 = Inr (w2, ext_OK, a')"
      "c_release cl i w2 = Some (Inr (w3, lk_OK))" "inv w3" "content w3 = content (yw y)" "held w3 = held (yw y)"
    by (rule lock_getattr [OF assms])
  then show ?thesis by (simp add: yfs_getfile_def moves_def aret_def)
qed

lemma getdir_spec:
  assumes "inv (yw y)" "i \<notin> held (yw y)" "content (yw y) (ext_key i) \<noteq> None"
  shows "\<exists>y' info. yfs_getdir cl a i f y = Some (Inr (y', y_OK, info)) \<and> moves y (content (yw y)) (ypos y) y'"
proof -
  obtain w1 w2 w3 a' where "c_acquire cl i (yw y) = Some (Inr (w1, lk_OK))" "c_getattr cl i a w1 = Inr (w2, ext_OK, a')"
      "c_release cl i w2 = Some (Inr (w3, lk_OK))" "inv w3" "content w3 = content (yw y)" "held w3 = held (yw y)"
    by (rule lock_getattr [OF assms])
  then show ?thesis by (simp add: yfs_getdir_def moves_def aret_def)
qed

end

text \<open>Reading and writing parts of a file needs two more laws; \<open>mx\<close> is the limit of strings in the extent server.\<close>

locale yfs_file_env = yfs_env +
  fixes mx :: nat
  assumes getbuf_law: "inv w \<Longrightarrow> content w (ext_key eid) = Some c \<Longrightarrow> unat off < length c \<Longrightarrow> unat n < ext_limit \<Longrightarrow>
      \<exists>w'. c_getbuf cl eid n off b w = Inr (w', ext_OK, take (unat n) (drop (unat off) c)) \<and> inv w' \<and> content w' = content w \<and> held w' = held w"
    and putbuf_law: "inv w \<Longrightarrow> content w (ext_key eid) = Some c \<Longrightarrow> length b < ext_limit \<Longrightarrow> unat off + length b < 2 ^ 32 \<Longrightarrow>
      unat off + length b \<le> mx \<Longrightarrow> length c \<le> mx \<Longrightarrow>
      \<exists>w'. c_putbuf cl eid off b w = Inr (w', ext_OK) \<and> inv w' \<and> content w' = (content w)(ext_key eid \<mapsto> pwrite (unat off) b c) \<and> held w' = held w"
begin

lemma write_spec:
  assumes "inv (yw y)" "t \<notin> held (yw y)" "content (yw y) (ext_key t) = Some c" "length b < ext_limit"
    "unat offset + length b < 2 ^ 32" "unat offset + length b \<le> mx" "length c \<le> mx"
  shows "\<exists>y'. yfs_write cl t b offset n0 y = Some (Inr (y', y_OK, of_nat (length b))) \<and>
    moves y ((content (yw y))(ext_key t \<mapsto> pwrite (unat offset) b c)) (ypos y) y'"
proof -
  obtain w1 where w1: "c_acquire cl t (yw y) = Some (Inr (w1, lk_OK))" "inv w1" "content w1 = content (yw y)" "held w1 = insert t (held (yw y))"
    using acquire_law [OF assms(1,2)] by blast
  have u: "unat (ucast offset :: u32) = unat offset" using assms(5) by (simp add: unsigned_ucast_eq take_bit_nat_eq_self)
  obtain w2 where w2: "c_putbuf cl t (ucast offset) b w1 = Inr (w2, ext_OK)" "inv w2"
      "content w2 = (content w1)(ext_key t \<mapsto> pwrite (unat offset) b c)" "held w2 = held w1"
    using putbuf_law [OF w1(2), of t c b "ucast offset"] assms w1(3) by (auto simp: u)
  obtain w3 where w3: "c_release cl t w2 = Some (Inr (w3, lk_OK))" "inv w3" "content w3 = content w2" "held w3 = held w2 - {t}"
    using release_law [OF w2(2), of t] w2(4) w1(4) by auto
  have "held w3 = held (yw y)" using w3(4) w2(4) w1(4) assms(2) by auto
  then show ?thesis using w1 w2 w3 by (simp add: yfs_write_def moves_def aret_def stat2yfs_def)
qed

lemma read_spec:
  assumes "inv (yw y)" "content (yw y) (ext_key t) = Some c" "unat offset < length c" "unat offset < 2 ^ 32" "unat n < ext_limit"
  shows "\<exists>y'. yfs_read cl t n offset y = Some (Inr (y', y_OK, Some (take (unat n) (drop (unat offset) c)))) \<and> moves y (content (yw y)) (ypos y) y'"
proof -
  have u: "unat (ucast offset :: u32) = unat offset" using assms(4) by (simp add: unsigned_ucast_eq take_bit_nat_eq_self)
  obtain w' where "c_getbuf cl t n (ucast offset) [] (yw y) = Inr (w', ext_OK, take (unat n) (drop (unat offset) c))" "inv w'"
      "content w' = content (yw y)" "held w' = held (yw y)"
    using getbuf_law [OF assms(1,2), of "ucast offset" n "[]"] assms(3,5) by (auto simp: u)
  then show ?thesis by (simp add: yfs_read_def moves_def aret_def)
qed

end

end
