(* ===== verification/Lock_Server_Cache.thy ===== *)
theory Lock_Server_Cache
  imports Lock_Server "HOL-Library.Multiset"
begin

text \<open>
  The caching lock server of \<^verbatim>\<open>src/lock_server_cache.cc\<close> and its registration in \<^verbatim>\<open>src/lock_smain.cc\<close>. Every function runs
  under the one mutex of the server, so an operation is a function on the state; \<^verbatim>\<open>retryer\<close> and \<^verbatim>\<open>revoker\<close> are threads
  of which one pass of the outer loop is a function, and \<^verbatim>\<open>retryer_rpc\<close> and \<^verbatim>\<open>revoker_rpc\<close>, which run on the pool of theory
  \<open>Thr_Pool\<close> and give up the mutex for the remote call, are cut into the part before and the part after the call.
\<close>

section \<open>Definitions\<close>

record slock =
  sl_id :: lockid
  owner_cl :: string
  waiting_cls :: "string list"

datatype sjob = Retryer_Rpc lockid | Revoker_Rpc lockid

text \<open>
  A \<^verbatim>\<open>struct lock *\<close> is the key of the lock: entries of the map are never removed. \<open>sc_jobs\<close> are the jobs that the pool has
  accepted and not begun, \<open>sc_calls\<close> those with a call under way and the client they call. A thread that is asleep
  waits on its condition variable.
\<close>

record lock_server_cache =
  sc_nacquire :: u32
  lock_table :: "lockid \<rightharpoonup> slock"
  retryer_queue :: "lockid list"
  revoker_queue :: "lockid list"
  retryer_asleep :: bool
  revoker_asleep :: bool
  sc_jobs :: "sjob list"
  sc_calls :: "(sjob \<times> string) list"

text \<open>The constructor leaves \<^verbatim>\<open>nacquire\<close> uninitialised: it is the argument.\<close>

definition lsc_new :: "u32 \<Rightarrow> lock_server_cache" where
  "lsc_new n = \<lparr>sc_nacquire = n, lock_table = Map.empty, retryer_queue = [], revoker_queue = [],
     retryer_asleep = False, revoker_asleep = False, sc_jobs = [], sc_calls = []\<rparr>"

text \<open>The index operator of the map: a missing entry reads as an empty one.\<close>

definition lock_at :: "lock_server_cache \<Rightarrow> lockid \<Rightarrow> slock" where
  "lock_at s lid = (case lock_table s lid of None \<Rightarrow> \<lparr>sl_id = 0, owner_cl = [], waiting_cls = []\<rparr> | Some l \<Rightarrow> l)"

definition set_lock :: "lockid \<Rightarrow> slock \<Rightarrow> lock_server_cache \<Rightarrow> lock_server_cache" where
  "set_lock lid l s = s\<lparr>lock_table := (lock_table s)(lid \<mapsto> l)\<rparr>"

definition push_revoke :: "lockid \<Rightarrow> lock_server_cache \<Rightarrow> lock_server_cache" where
  "push_revoke lid s = s\<lparr>revoker_queue := revoker_queue s @ [lid], revoker_asleep := False\<rparr>"

definition push_retry :: "lockid \<Rightarrow> lock_server_cache \<Rightarrow> lock_server_cache" where
  "push_retry lid s = s\<lparr>retryer_queue := retryer_queue s @ [lid], retryer_asleep := False\<rparr>"

definition lsc_acquire :: "lock_server_cache \<Rightarrow> lockid \<Rightarrow> string \<Rightarrow> u32 \<Rightarrow> fault + lock_server_cache \<times> u32 \<times> u32" where
  "lsc_acquire s lid cid r =
     (let l = (case lock_table s lid of None \<Rightarrow> (lock_at s lid)\<lparr>sl_id := lid, owner_cl := []\<rparr> | Some l \<Rightarrow> l);
          queue_len = length (waiting_cls l)
      in if owner_cl l = [] then Inr (set_lock lid (l\<lparr>owner_cl := cid\<rparr>) s, lk_OK, r)
         else let s = (if queue_len = 0 then push_revoke lid s else s)
              in Inr (set_lock lid (l\<lparr>waiting_cls := waiting_cls l @ [cid]\<rparr>) s, lk_RETRY, r))"

definition lsc_release :: "lock_server_cache \<Rightarrow> lockid \<Rightarrow> string \<Rightarrow> u32 \<Rightarrow> fault + lock_server_cache \<times> u32 \<times> u32" where
  "lsc_release s lid cid r =
     (case lock_table s lid of
        None \<Rightarrow> Inr (s, lk_IOERR, r)
      | Some l \<Rightarrow>
          if owner_cl l = cid then Inr (push_retry lid (set_lock lid (l\<lparr>owner_cl := []\<rparr>) s), lk_OK, r)
          else Inr (s, lk_IOERR, r))"

definition lsc_stat :: "lock_server_cache \<Rightarrow> lockid \<Rightarrow> u32 \<Rightarrow> fault + lock_server_cache \<times> u32 \<times> u32" where
  "lsc_stat s lid r = Inr (s, lk_OK, sc_nacquire s)"

text \<open>One pass of the threads; \<open>room\<close> is what \<^verbatim>\<open>addObjJob\<close> returns, false when the queue of the pool is full.\<close>

definition retryer_pass :: "bool \<Rightarrow> lock_server_cache \<Rightarrow> lock_server_cache" where
  "retryer_pass room s =
     (case retryer_queue s of
        [] \<Rightarrow> s\<lparr>retryer_asleep := True\<rparr>
      | lid # q \<Rightarrow>
          let l = lock_at s lid; s = set_lock lid l (s\<lparr>retryer_queue := q\<rparr>)
          in if waiting_cls l \<noteq> [] then
               let s = set_lock lid (l\<lparr>owner_cl := hd (waiting_cls l)\<rparr>) s
               in if room then s\<lparr>sc_jobs := sc_jobs s @ [Retryer_Rpc lid]\<rparr> else s
             else s)"

definition revoker_pass :: "bool \<Rightarrow> lock_server_cache \<Rightarrow> lock_server_cache" where
  "revoker_pass room s =
     (case revoker_queue s of
        [] \<Rightarrow> s\<lparr>revoker_asleep := True\<rparr>
      | lid # q \<Rightarrow>
          let l = lock_at s lid; s = set_lock lid l (s\<lparr>revoker_queue := q\<rparr>)
          in if waiting_cls l \<noteq> [] \<and> room then s\<lparr>sc_jobs := sc_jobs s @ [Revoker_Rpc lid]\<rparr> else s)"

text \<open>A worker takes the oldest job and calls the client that owns the lock at that time.\<close>

definition job_lock :: "sjob \<Rightarrow> lockid" where
  "job_lock j = (case j of Retryer_Rpc lid \<Rightarrow> lid | Revoker_Rpc lid \<Rightarrow> lid)"

definition rpc_begin :: "lock_server_cache \<Rightarrow> lock_server_cache" where
  "rpc_begin s =
     (case sc_jobs s of
        [] \<Rightarrow> s
      | j # js \<Rightarrow> s\<lparr>sc_jobs := js, sc_calls := sc_calls s @ [(j, owner_cl (lock_at s (job_lock j)))]\<rparr>)"

text \<open>The result of the call: \<^verbatim>\<open>RPCERR\<close> when \<^verbatim>\<open>safebind\<close> gave no client.\<close>

definition rpc_result :: "u32 option \<Rightarrow> u32" where
  "rpc_result cl = (case cl of None \<Rightarrow> rlk_RPCERR | Some ret \<Rightarrow> ret)"

text \<open>After the call. Neither failure path signals the thread whose queue it fills; \<^verbatim>\<open>pop\<close> of an empty queue is undefined.\<close>

definition retryer_rpc_end :: "u32 \<Rightarrow> lockid \<Rightarrow> lock_server_cache \<Rightarrow> fault + lock_server_cache" where
  "retryer_rpc_end ret target s =
     (let l = lock_at s target
      in if ret \<noteq> rlk_OK then
           Inr (set_lock target (l\<lparr>owner_cl := []\<rparr>) (s\<lparr>retryer_queue := retryer_queue s @ [sl_id l]\<rparr>))
         else case waiting_cls l of
                [] \<Rightarrow> Inl Wild_Access
              | c # cs \<Rightarrow>
                  let s = set_lock target (l\<lparr>waiting_cls := cs\<rparr>) s
                  in Inr (if cs \<noteq> [] then push_revoke (sl_id l) s else s))"

definition revoker_rpc_end :: "u32 \<Rightarrow> lockid \<Rightarrow> lock_server_cache \<Rightarrow> fault + lock_server_cache" where
  "revoker_rpc_end ret target s =
     Inr (if ret \<noteq> rlk_OK then s\<lparr>revoker_queue := revoker_queue s @ [sl_id (lock_at s target)]\<rparr> else s)"

text \<open>The handler table of \<^verbatim>\<open>lock_smain.cc\<close>.\<close>

definition lock_handlers :: "u32 \<Rightarrow> u32 \<rightharpoonup> lock_server_cache handler" where
  "lock_handlers r0 = [
     lk_proc_stat \<mapsto> h1_fn get_ull put_int r0 lsc_stat,
     lk_proc_acquire \<mapsto> h2_fn get_ull (get_string []) put_int r0 lsc_acquire,
     lk_proc_release \<mapsto> h2_fn get_ull (get_string []) put_int r0 lsc_release]"

section \<open>Histories\<close>

text \<open>
  The events of the server: requests of clients, passes of the two threads, spurious wake-ups of them, the begin of
  a job, and the end of the \<open>k\<close>-th call under way with its result.
\<close>

datatype sc_event =
    Sc_Acquire lockid string | Sc_Release lockid string | Sc_Retryer bool | Sc_Revoker bool | Sc_Spurious | Sc_Begin | Sc_End nat "u32 option"

definition drop_nth :: "nat \<Rightarrow> 'a list \<Rightarrow> 'a list" where
  "drop_nth k xs = take k xs @ drop (Suc k) xs"

definition sc_end :: "nat \<Rightarrow> u32 option \<Rightarrow> lock_server_cache \<Rightarrow> fault + lock_server_cache" where
  "sc_end k cl s =
     (if k < length (sc_calls s) then
        (case fst (sc_calls s ! k) of Retryer_Rpc lid \<Rightarrow> retryer_rpc_end (rpc_result cl) lid | Revoker_Rpc lid \<Rightarrow> revoker_rpc_end (rpc_result cl) lid)
          (s\<lparr>sc_calls := drop_nth k (sc_calls s)\<rparr>)
      else Inr s)"

fun sc_exec :: "sc_event \<Rightarrow> lock_server_cache \<Rightarrow> fault + lock_server_cache" where
  "sc_exec (Sc_Acquire lid c) s = rbind (lsc_acquire s lid c 0) (\<lambda>(s, _, _). Inr s)"
| "sc_exec (Sc_Release lid c) s = rbind (lsc_release s lid c 0) (\<lambda>(s, _, _). Inr s)"
| "sc_exec (Sc_Retryer room) s = Inr (if retryer_asleep s then s else retryer_pass room s)"
| "sc_exec (Sc_Revoker room) s = Inr (if revoker_asleep s then s else revoker_pass room s)"
| "sc_exec Sc_Spurious s = Inr (s\<lparr>retryer_asleep := False, revoker_asleep := False\<rparr>)"
| "sc_exec Sc_Begin s = Inr (rpc_begin s)"
| "sc_exec (Sc_End k cl) s = sc_end k cl s"

fun sc_run :: "sc_event list \<Rightarrow> lock_server_cache \<Rightarrow> fault + lock_server_cache" where
  "sc_run [] s = Inr s"
| "sc_run (e # es) s = rbind (sc_exec e s) (sc_run es)"

section \<open>A fair lock\<close>

text \<open>
  What the server promises for one lock: its holder, the empty name for none, and the queue of the clients that
  wait. A client that asks gets a lock that is free when nobody waits, and else is queued; only its holder
  releases it; a free lock is granted to the first in the queue, who leaves the queue when it has heard of the
  grant, or loses the lock again when it cannot be reached.
\<close>

datatype lk_label = Ask string | Give_Back string | Internal

inductive fair_step :: "lk_label \<Rightarrow> string \<times> string list \<Rightarrow> string \<times> string list \<Rightarrow> bool" where
  grant_now: "c \<noteq> [] \<Longrightarrow> fair_step (Ask c) ([], []) (c, [])"
| enqueue: "h \<noteq> [] \<Longrightarrow> fair_step (Ask c) (h, q) (h, q @ [c])"
| give_back: "c \<noteq> [] \<Longrightarrow> fair_step (Give_Back c) (c, q) ([], q)"
| not_holder: "h \<noteq> c \<Longrightarrow> fair_step (Give_Back c) (h, q) (h, q)"
| grant_next: "c \<noteq> [] \<Longrightarrow> fair_step Internal ([], c # q) (c, c # q)"
| confirm: "fair_step Internal (c, c # q) (c, q)"
| withdraw: "fair_step Internal (c, c # q) ([], c # q)"
| idle: "fair_step Internal x x"

inductive fair_run :: "lk_label list \<Rightarrow> string \<times> string list \<Rightarrow> string \<times> string list \<Rightarrow> bool" where
  fair_refl: "fair_run [] x x"
| fair_next: "fair_step l x y \<Longrightarrow> fair_run ls y z \<Longrightarrow> fair_run (l # ls) x z"

definition sc_abs :: "lock_server_cache \<Rightarrow> lockid \<Rightarrow> string \<times> string list" where
  "sc_abs s lid = (owner_cl (lock_at s lid), waiting_cls (lock_at s lid))"

definition sc_label :: "lockid \<Rightarrow> sc_event \<Rightarrow> lk_label" where
  "sc_label lid e = (case e of
      Sc_Acquire l c \<Rightarrow> if l = lid then Ask c else Internal
    | Sc_Release l c \<Rightarrow> if l = lid then Give_Back c else Internal
    | _ \<Rightarrow> Internal)"

text \<open>
  The histories in which it keeps the promise: clients have names, a lock is not asked for between its release and the
  pass of the retryer that follows, and not released before the server knows that the retry call for it has ended.
\<close>

fun retries :: "sjob list \<Rightarrow> lockid multiset" where
  "retries [] = {#}"
| "retries (Retryer_Rpc lid # js) = add_mset lid (retries js)"
| "retries (Revoker_Rpc lid # js) = retries js"

definition pend :: "lock_server_cache \<Rightarrow> lockid multiset" where
  "pend s = retries (sc_jobs s) + retries (map fst (sc_calls s))"

definition orderly :: "sc_event \<Rightarrow> lock_server_cache \<Rightarrow> bool" where
  "orderly e s = (case e of
      Sc_Acquire lid c \<Rightarrow> c \<noteq> [] \<and> lid \<notin> set (retryer_queue s)
    | Sc_Release lid c \<Rightarrow> c \<noteq> [] \<and> lid \<notin># pend s
    | _ \<Rightarrow> True)"

fun orderly_run :: "sc_event list \<Rightarrow> lock_server_cache \<Rightarrow> bool" where
  "orderly_run [] s = True"
| "orderly_run (e # es) s = (orderly e s \<and> (case sc_exec e s of Inl _ \<Rightarrow> True | Inr s' \<Rightarrow> orderly_run es s'))"

section \<open>Invariant\<close>

definition lock_inv :: "lock_server_cache \<Rightarrow> lockid \<Rightarrow> bool" where
  "lock_inv s lid \<longleftrightarrow>
     (lock_table s lid \<noteq> None \<longrightarrow> sl_id (lock_at s lid) = lid) \<and>
     [] \<notin> set (waiting_cls (lock_at s lid)) \<and>
     (lid \<in> set (retryer_queue s) \<longrightarrow> owner_cl (lock_at s lid) = [] \<and> lid \<notin># pend s \<and> lock_table s lid \<noteq> None) \<and>
     (lid \<in># pend s \<longrightarrow> waiting_cls (lock_at s lid) \<noteq> [] \<and> owner_cl (lock_at s lid) = hd (waiting_cls (lock_at s lid)) \<and>
        lock_table s lid \<noteq> None) \<and>
     count (pend s) lid \<le> 1 \<and>
     (owner_cl (lock_at s lid) = [] \<longrightarrow> lid \<in> set (retryer_queue s) \<or> waiting_cls (lock_at s lid) = [])"

definition known :: "lock_server_cache \<Rightarrow> bool" where
  "known s \<longleftrightarrow> (\<forall>lid \<in> set (revoker_queue s). lock_table s lid \<noteq> None) \<and>
     (\<forall>j \<in> set (sc_jobs s) \<union> fst ` set (sc_calls s). lock_table s (job_lock j) \<noteq> None)"

definition sc_inv :: "lock_server_cache \<Rightarrow> bool" where
  "sc_inv s \<longleftrightarrow> distinct (retryer_queue s) \<and> known s \<and> (\<forall>lid. lock_inv s lid)"

lemma sc_inv_new: "sc_inv (lsc_new n)"
  by (simp add: sc_inv_def lsc_new_def lock_inv_def known_def pend_def lock_at_def)

named_theorems sc_simps \<open>effect of the elementary state changes\<close>

lemma set_lock_sel [simp, sc_simps]:
  "lock_table (set_lock lid l s) = (lock_table s)(lid \<mapsto> l)" "retryer_queue (set_lock lid l s) = retryer_queue s"
  "revoker_queue (set_lock lid l s) = revoker_queue s" "sc_jobs (set_lock lid l s) = sc_jobs s" "sc_calls (set_lock lid l s) = sc_calls s"
  "pend (set_lock lid l s) = pend s" "retryer_asleep (set_lock lid l s) = retryer_asleep s" "revoker_asleep (set_lock lid l s) = revoker_asleep s"
  by (simp_all add: set_lock_def pend_def)

lemma lock_at_set [simp, sc_simps]: "lock_at (set_lock lid l s) k = (if k = lid then l else lock_at s k)"
  by (simp add: lock_at_def)

lemma push_sel [simp, sc_simps]:
  "lock_table (push_revoke lid s) = lock_table s" "retryer_queue (push_revoke lid s) = retryer_queue s"
  "revoker_queue (push_revoke lid s) = revoker_queue s @ [lid]" "sc_jobs (push_revoke lid s) = sc_jobs s"
  "sc_calls (push_revoke lid s) = sc_calls s" "pend (push_revoke lid s) = pend s" "lock_at (push_revoke lid s) = lock_at s"
  "lock_table (push_retry lid s) = lock_table s" "retryer_queue (push_retry lid s) = retryer_queue s @ [lid]"
  "revoker_queue (push_retry lid s) = revoker_queue s" "sc_jobs (push_retry lid s) = sc_jobs s"
  "sc_calls (push_retry lid s) = sc_calls s" "pend (push_retry lid s) = pend s" "lock_at (push_retry lid s) = lock_at s"
  by (simp_all add: push_revoke_def push_retry_def pend_def lock_at_def fun_eq_iff)

lemma upd_sel [simp, sc_simps]:
  "lock_at (s\<lparr>retryer_queue := q\<rparr>) = lock_at s" "pend (s\<lparr>retryer_queue := q\<rparr>) = pend s"
  "lock_at (s\<lparr>revoker_queue := q\<rparr>) = lock_at s" "pend (s\<lparr>revoker_queue := q\<rparr>) = pend s"
  "lock_at (s\<lparr>retryer_asleep := b\<rparr>) = lock_at s" "pend (s\<lparr>retryer_asleep := b\<rparr>) = pend s"
  "lock_at (s\<lparr>revoker_asleep := b\<rparr>) = lock_at s" "pend (s\<lparr>revoker_asleep := b\<rparr>) = pend s"
  "lock_at (s\<lparr>sc_jobs := js\<rparr>) = lock_at s" "lock_at (s\<lparr>sc_calls := cs\<rparr>) = lock_at s"
  by (simp_all add: lock_at_def pend_def fun_eq_iff)

lemma retries_append [simp]: "retries (xs @ ys) = retries xs + retries ys"
  by (induction xs rule: retries.induct) simp_all

lemma retries_drop_nth: "k < length xs \<Longrightarrow> retries xs = retries (drop_nth k xs) + retries [xs ! k]"
proof (induction xs arbitrary: k)
  case (Cons x xs)
  show ?case
  proof (cases k)
    case 0
    then show ?thesis by (cases x) (simp_all add: drop_nth_def)
  next
    case (Suc j)
    then have "retries xs = retries (drop_nth j xs) + retries [xs ! j]" using Cons by simp
    then show ?thesis using Suc by (cases x) (simp_all add: drop_nth_def)
  qed
qed simp

lemma drop_nth_map: "map f (drop_nth k xs) = drop_nth k (map f xs)"
  by (simp add: drop_nth_def take_map drop_map)

lemma set_drop_nth: "set (drop_nth k xs) \<subseteq> set xs"
  by (auto simp: drop_nth_def dest: in_set_takeD in_set_dropD)

lemma lock_inv_same:
  assumes "lock_inv s k" "lock_table s' k = lock_table s k" "k \<in> set (retryer_queue s') \<longleftrightarrow> k \<in> set (retryer_queue s)" "count (pend s') k = count (pend s) k"
  shows "lock_inv s' k"
proof -
  have "lock_at s' k = lock_at s k" "k \<in># pend s' \<longleftrightarrow> k \<in># pend s" using assms by (simp_all add: lock_at_def flip: count_greater_zero_iff)
  then show ?thesis using assms by (simp add: lock_inv_def)
qed

definition good_step :: "sc_event \<Rightarrow> lock_server_cache \<Rightarrow> bool" where
  "good_step e s \<longleftrightarrow> (\<exists>s'. sc_exec e s = Inr s' \<and> sc_inv s' \<and> (\<forall>k. fair_step (sc_label k e) (sc_abs s k) (sc_abs s' k)))"

lemma good_stepI:
  assumes "sc_exec e s = Inr s'" "distinct (retryer_queue s')" "known s'"
    and "\<And>k. k \<noteq> lid \<Longrightarrow> lock_inv s' k" "lock_inv s' lid"
    and "fair_step (sc_label lid e) (sc_abs s lid) (sc_abs s' lid)"
    and "\<And>k. k \<noteq> lid \<Longrightarrow> sc_label k e = Internal \<and> sc_abs s' k = sc_abs s k"
  shows "good_step e s"
proof -
  have "lock_inv s' k" for k using assms(4,5) by (cases "k = lid") simp_all
  moreover have "fair_step (sc_label k e) (sc_abs s k) (sc_abs s' k)" for k
    using assms(6,7) by (cases "k = lid") (simp_all add: fair_step.idle)
  ultimately show ?thesis unfolding good_step_def sc_inv_def using assms(1-3) by blast
qed

lemma acquire_good:
  assumes inv: "sc_inv s" and ord: "orderly (Sc_Acquire lid c) s"
  shows "good_step (Sc_Acquire lid c) s"
proof -
  define l where "l = (case lock_table s lid of None \<Rightarrow> (lock_at s lid)\<lparr>sl_id := lid, owner_cl := []\<rparr> | Some l \<Rightarrow> l)"
  have I: "lock_inv s k" and K: "known s" and D: "distinct (retryer_queue s)" for k using inv by (simp_all add: sc_inv_def)
  have c: "c \<noteq> []" "lid \<notin> set (retryer_queue s)" using ord by (simp_all add: orderly_def)
  have l: "owner_cl l = owner_cl (lock_at s lid)" "waiting_cls l = waiting_cls (lock_at s lid)" "sl_id l = lid"
    using I [of lid] by (auto simp: l_def lock_at_def lock_inv_def split: option.splits)
  show ?thesis
  proof (cases "owner_cl l = []")
    case True
    then have w: "waiting_cls l = []" "lid \<notin># pend s" using I [of lid] c l unfolding lock_inv_def by force+
    let ?s = "set_lock lid (l\<lparr>owner_cl := c\<rparr>) s"
    have "sc_exec (Sc_Acquire lid c) s = Inr ?s" using True by (simp add: lsc_acquire_def Let_def flip: l_def)
    moreover have "known ?s" using K by (auto simp: known_def)
    moreover have "lock_inv ?s k" if "k \<noteq> lid" for k by (rule lock_inv_same [OF I]) (use that in auto)
    moreover have "lock_inv ?s lid" using c w l by (simp add: lock_inv_def not_in_iff)
    ultimately show ?thesis
      using D c(1) True w l by (intro good_stepI [of _ _ ?s lid]) (auto simp: sc_label_def sc_abs_def intro: fair_step.grant_now)
  next
    case False
    let ?s = "set_lock lid (l\<lparr>waiting_cls := waiting_cls l @ [c]\<rparr>) (if length (waiting_cls l) = 0 then push_revoke lid s else s)"
    have "sc_exec (Sc_Acquire lid c) s = Inr ?s" using False by (simp add: lsc_acquire_def Let_def flip: l_def)
    moreover have "known ?s" using K by (auto simp: known_def)
    moreover have "lock_inv ?s k" if "k \<noteq> lid" for k by (rule lock_inv_same [OF I]) (use that in auto)
    moreover have "lock_inv ?s lid" using c False l I [of lid] by (auto simp: lock_inv_def)
    ultimately show ?thesis
      using D False l by (intro good_stepI [of _ _ ?s lid]) (auto simp: sc_label_def sc_abs_def intro: fair_step.enqueue)
  qed
qed

lemma release_good:
  assumes inv: "sc_inv s" and ord: "orderly (Sc_Release lid c) s"
  shows "good_step (Sc_Release lid c) s"
proof -
  have I: "lock_inv s k" and K: "known s" and D: "distinct (retryer_queue s)" for k using inv by (simp_all add: sc_inv_def)
  have c: "c \<noteq> []" "lid \<notin># pend s" using ord by (simp_all add: orderly_def)
  show ?thesis
  proof (cases "lock_table s lid \<noteq> None \<and> owner_cl (lock_at s lid) = c")
    case True
    then obtain l where l: "lock_table s lid = Some l" "lock_at s lid = l" "owner_cl l = c" by (auto simp: lock_at_def)
    have q: "lid \<notin> set (retryer_queue s)" using I [of lid] c(1) l by (auto simp: lock_inv_def)
    let ?s = "push_retry lid (set_lock lid (l\<lparr>owner_cl := []\<rparr>) s)"
    have "sc_exec (Sc_Release lid c) s = Inr ?s" using l by (simp add: lsc_release_def)
    moreover have "known ?s" using K by (auto simp: known_def)
    moreover have "lock_inv ?s k" if "k \<noteq> lid" for k by (rule lock_inv_same [OF I]) (use that in auto)
    moreover have "lock_inv ?s lid" using c l I [of lid] by (auto simp: lock_inv_def)
    ultimately show ?thesis
      using D q c(1) l by (intro good_stepI [of _ _ ?s lid]) (auto simp: sc_label_def sc_abs_def intro: fair_step.give_back)
  next
    case False
    then have "owner_cl (lock_at s lid) \<noteq> c" using c(1) by (auto simp: lock_at_def)
    moreover have "sc_exec (Sc_Release lid c) s = Inr s" using False by (auto simp: lsc_release_def lock_at_def split: option.split)
    ultimately show ?thesis
      using K D I by (intro good_stepI [of _ _ s lid]) (auto simp: sc_label_def sc_abs_def intro: fair_step.not_holder)
  qed
qed

lemma known_lock_at: "lock_table s k \<noteq> None \<Longrightarrow> lock_table s k = Some (lock_at s k)"
  by (auto simp: lock_at_def)

lemma retryer_good:
  assumes inv: "sc_inv s"
  shows "good_step (Sc_Retryer room) s"
proof (cases "retryer_asleep s \<or> retryer_queue s = []")
  case True
  then have "sc_exec (Sc_Retryer room) s = Inr (s\<lparr>retryer_asleep := True\<rparr>)"
    by (cases s) (auto simp: retryer_pass_def)
  then show ?thesis using inv
    by (intro good_stepI [of _ _ "s\<lparr>retryer_asleep := True\<rparr>" 0])
      (auto simp: sc_inv_def known_def lock_inv_def sc_label_def sc_abs_def fair_step.idle)
next
  case False
  then obtain lid q where q: "retryer_queue s = lid # q" "\<not> retryer_asleep s" by (cases "retryer_queue s") auto
  have I: "lock_inv s k" and K: "known s" and D: "distinct (retryer_queue s)" for k using inv by (simp_all add: sc_inv_def)
  define l where "l = lock_at s lid"
  have l: "lock_table s lid = Some l" "owner_cl l = []" "lid \<notin># pend s" "[] \<notin> set (waiting_cls l)" "sl_id l = lid"
    using I [of lid] q(1) known_lock_at [of s lid] by (auto simp: lock_inv_def l_def)
  show ?thesis
  proof (cases "waiting_cls l = []")
    case True
    let ?s = "set_lock lid l (s\<lparr>retryer_queue := q\<rparr>)"
    have "sc_exec (Sc_Retryer room) s = Inr ?s" using True q by (simp add: retryer_pass_def Let_def flip: l_def)
    moreover have "known ?s" using K by (auto simp: known_def)
    moreover have "lock_inv ?s k" if "k \<noteq> lid" for k by (rule lock_inv_same [OF I]) (use that q in auto)
    moreover have "lock_inv ?s lid" using True l by (simp add: lock_inv_def not_in_iff)
    ultimately show ?thesis
      using D q(1) by (intro good_stepI [of _ _ ?s lid]) (auto simp: sc_label_def sc_abs_def l_def fair_step.idle)
  next
    case False
    then obtain c cs where w: "waiting_cls l = c # cs" by (cases "waiting_cls l") auto
    let ?t = "set_lock lid (l\<lparr>owner_cl := c\<rparr>) (set_lock lid l (s\<lparr>retryer_queue := q\<rparr>))"
    let ?s = "if room then ?t\<lparr>sc_jobs := sc_jobs s @ [Retryer_Rpc lid]\<rparr> else ?t"
    have e: "sc_exec (Sc_Retryer room) s = Inr ?s" using w q by (simp add: retryer_pass_def Let_def flip: l_def)
    have p: "pend ?s = (if room then add_mset lid (pend s) else pend s)" by (simp add: pend_def)
    have "known ?s" using K by (auto simp: known_def job_lock_def)
    moreover have "lock_inv ?s k" if "k \<noteq> lid" for k by (rule lock_inv_same [OF I]) (use that q p in auto)
    moreover have "lock_inv ?s lid" using w l D q(1) p by (auto simp: lock_inv_def not_in_iff)
    ultimately show ?thesis
      using D q(1) e l w by (intro good_stepI [of _ _ ?s lid]) (auto simp: sc_label_def sc_abs_def l_def intro: fair_step.grant_next)
  qed
qed

lemma quiet_good:
  assumes "sc_inv s" "sc_exec e s = Inr s'" "retryer_queue s' = retryer_queue s" "known s'" "pend s' = pend s"
    and "\<And>k. lock_at s' k = lock_at s k" "\<And>k. lock_table s' k = None \<longleftrightarrow> lock_table s k = None" "\<And>k. sc_label k e = Internal"
  shows "good_step e s"
  using assms by (intro good_stepI [of _ _ s' 0]) (auto simp: sc_inv_def lock_inv_def sc_abs_def fair_step.idle)

lemma revoker_good:
  assumes inv: "sc_inv s"
  shows "good_step (Sc_Revoker room) s"
proof -
  have K: "known s" using inv by (simp add: sc_inv_def)
  show ?thesis
  proof (cases "revoker_asleep s \<or> revoker_queue s = []")
    case True
    then have "sc_exec (Sc_Revoker room) s = Inr (s\<lparr>revoker_asleep := True\<rparr>)"
      by (cases s) (auto simp: revoker_pass_def)
    then show ?thesis using inv K by (intro quiet_good [of s _ "s\<lparr>revoker_asleep := True\<rparr>"]) (auto simp: known_def sc_label_def)
  next
    case False
    then obtain lid q where q: "revoker_queue s = lid # q" "\<not> revoker_asleep s" by (cases "revoker_queue s") auto
    let ?l = "lock_at s lid"
    let ?t = "set_lock lid ?l (s\<lparr>revoker_queue := q\<rparr>)"
    let ?s = "if waiting_cls ?l \<noteq> [] \<and> room then ?t\<lparr>sc_jobs := sc_jobs s @ [Revoker_Rpc lid]\<rparr> else ?t"
    have e: "sc_exec (Sc_Revoker room) s = Inr ?s" using q by (simp add: revoker_pass_def Let_def)
    have "lock_table s lid \<noteq> None" using K q by (simp add: known_def)
    moreover have "pend ?s = pend s" by (simp add: pend_def)
    moreover have "known ?s" using K q by (auto simp: known_def job_lock_def)
    ultimately show ?thesis using inv e by (intro quiet_good [of s _ ?s]) (auto simp: sc_label_def)
  qed
qed

lemma begin_good:
  assumes inv: "sc_inv s"
  shows "good_step Sc_Begin s"
proof -
  have K: "known s" using inv by (simp add: sc_inv_def)
  have r: "retries (j # js) = retries [j] + retries js" for j js by (cases j) simp_all
  show ?thesis
  proof (cases "sc_jobs s")
    case Nil
    then show ?thesis using inv K by (intro quiet_good [of s _ s]) (auto simp: rpc_begin_def sc_label_def)
  next
    case (Cons j js)
    define s' where "s' = s\<lparr>sc_jobs := js, sc_calls := sc_calls s @ [(j, owner_cl (lock_at s (job_lock j)))]\<rparr>"
    have "pend s' = pend s" by (simp add: pend_def s'_def Cons r [of j js])
    moreover have "known s'" using K by (auto simp: known_def s'_def Cons)
    moreover have "sc_exec Sc_Begin s = Inr s'" by (simp add: rpc_begin_def Cons s'_def)
    ultimately show ?thesis using inv by (intro quiet_good [of s _ s']) (auto simp: sc_label_def s'_def)
  qed
qed

lemma end_good:
  assumes inv: "sc_inv s"
  shows "good_step (Sc_End k cl) s"
proof (cases "k < length (sc_calls s)")
  case False
  then show ?thesis using inv by (intro quiet_good [of s _ s]) (auto simp: sc_end_def sc_label_def sc_inv_def)
next
  case k: True
  let ?t = "s\<lparr>sc_calls := drop_nth k (sc_calls s)\<rparr>"
  have I: "lock_inv s k" and K: "known s" and D: "distinct (retryer_queue s)" for k using inv by (simp_all add: sc_inv_def)
  have p: "pend s = pend ?t + retries [fst (sc_calls s ! k)]"
    using retries_drop_nth [of k "map fst (sc_calls s)"] k by (simp add: pend_def drop_nth_map)
  have "lock_table s (job_lock j) \<noteq> None" if "j \<in> fst ` set (drop_nth k (sc_calls s))" for j
    using K subsetD [OF image_mono [OF set_drop_nth] that] unfolding known_def by blast
  then have Kt: "known ?t" using K by (simp add: known_def ball_Un)
  have "fst (sc_calls s ! k) \<in> fst ` set (sc_calls s)" using k by simp
  then have dom: "lock_table s (job_lock (fst (sc_calls s ! k))) \<noteq> None" using K by (simp add: known_def)
  show ?thesis
  proof (cases "fst (sc_calls s ! k)")
    case (Revoker_Rpc lid)
    define s' where "s' = (if rpc_result cl \<noteq> rlk_OK then ?t\<lparr>revoker_queue := revoker_queue s @ [sl_id (lock_at s lid)]\<rparr> else ?t)"
    have "sc_exec (Sc_End k cl) s = Inr s'" using k Revoker_Rpc by (simp add: sc_end_def revoker_rpc_end_def s'_def)
    moreover have "sl_id (lock_at s lid) = lid" "lock_table s lid \<noteq> None" using dom I [of lid] by (simp_all add: Revoker_Rpc job_lock_def lock_inv_def)
    moreover from this have "known s'" using Kt by (auto simp: s'_def known_def)
    ultimately show ?thesis using inv p by (intro quiet_good [of s _ s']) (auto simp: s'_def sc_label_def Revoker_Rpc)
  next
    case (Retryer_Rpc lid)
    define l where "l = lock_at s lid"
    have "lid \<in># pend s" using p by (simp add: Retryer_Rpc)
    then obtain c cs where l: "waiting_cls l = c # cs" "owner_cl l = c" "lock_table s lid = Some l" "sl_id l = lid" "c \<noteq> []"
        "lid \<notin> set (retryer_queue s)" "[] \<notin> set cs"
      using I [of lid] known_lock_at [of s lid] by (cases "waiting_cls l") (auto simp: lock_inv_def l_def)
    have pt: "count (pend ?t) lid = 0" "\<And>x. x \<noteq> lid \<Longrightarrow> count (pend ?t) x = count (pend s) x"
      using p I [of lid] by (auto simp: lock_inv_def Retryer_Rpc)
    show ?thesis
    proof (cases "rpc_result cl = rlk_OK")
      case False
      let ?s = "set_lock lid (l\<lparr>owner_cl := []\<rparr>) (?t\<lparr>retryer_queue := retryer_queue s @ [lid]\<rparr>)"
      have "sc_exec (Sc_End k cl) s = Inr ?s" using k False l(4) by (simp add: sc_end_def Retryer_Rpc retryer_rpc_end_def Let_def flip: l_def)
      moreover have "known ?s" using Kt by (auto simp: known_def)
      moreover have "lock_inv ?s x" if "x \<noteq> lid" for x by (rule lock_inv_same [OF I]) (use that pt in auto)
      moreover have "lock_inv ?s lid" using l pt by (simp add: lock_inv_def not_in_iff)
      ultimately show ?thesis
        using D l by (intro good_stepI [of _ _ ?s lid]) (auto simp: sc_label_def sc_abs_def l_def [symmetric] intro: fair_step.withdraw)
    next
      case True
      let ?u = "set_lock lid (l\<lparr>waiting_cls := cs\<rparr>) ?t"
      let ?s = "if cs \<noteq> [] then push_revoke lid ?u else ?u"
      have "sc_exec (Sc_End k cl) s = Inr ?s"
        using k True l(1,4) by (simp add: sc_end_def Retryer_Rpc retryer_rpc_end_def Let_def flip: l_def)
      moreover have "known ?s" using Kt by (auto simp: known_def)
      moreover have "lock_inv ?s x" if "x \<noteq> lid" for x by (rule lock_inv_same [OF I]) (use that pt in auto)
      moreover have "lid \<notin># pend ?t" using pt(1) by (simp add: not_in_iff)
      then have "lock_inv ?s lid" using l pt(1) by (auto simp: lock_inv_def)
      ultimately show ?thesis
        using D l by (intro good_stepI [of _ _ ?s lid]) (auto simp: sc_label_def sc_abs_def l_def [symmetric] intro: fair_step.confirm)
    qed
  qed
qed

lemma step_good:
  assumes "sc_inv s" "orderly e s"
  shows "good_step e s"
proof (cases e)
  case Sc_Spurious
  then show ?thesis using assms by (intro quiet_good [of s _ "s\<lparr>retryer_asleep := False, revoker_asleep := False\<rparr>"]) (auto simp: sc_inv_def known_def sc_label_def)
qed (use assms in \<open>auto intro: acquire_good release_good retryer_good revoker_good begin_good end_good\<close>)

section \<open>No waiter is forgotten\<close>

text \<open>
  \<open>told\<close>: the present owner has answered a revoke call. A lock is worked on when a retry is queued or under way, a
  revoke is queued or on its way to the owner, or the owner has been told to release it.
\<close>

definition told_after :: "lockid \<Rightarrow> sc_event \<Rightarrow> lock_server_cache \<Rightarrow> lock_server_cache \<Rightarrow> bool \<Rightarrow> bool" where
  "told_after lid e s s' told \<longleftrightarrow> owner_cl (lock_at s' lid) = owner_cl (lock_at s lid) \<and>
     (told \<or> (case e of
        Sc_End k cl \<Rightarrow> k < length (sc_calls s) \<and> sc_calls s ! k = (Revoker_Rpc lid, owner_cl (lock_at s lid)) \<and> rpc_result cl = rlk_OK
      | _ \<Rightarrow> False))"

fun told_run :: "lockid \<Rightarrow> sc_event list \<Rightarrow> lock_server_cache \<Rightarrow> bool \<Rightarrow> bool" where
  "told_run lid [] s told = told"
| "told_run lid (e # es) s told =
     (case sc_exec e s of Inl _ \<Rightarrow> told | Inr s' \<Rightarrow> told_run lid es s' (told_after lid e s s' told))"

definition worked_on :: "lock_server_cache \<Rightarrow> lockid \<Rightarrow> bool \<Rightarrow> bool" where
  "worked_on s lid told \<longleftrightarrow> lid \<in> set (retryer_queue s) \<or> lid \<in># pend s \<or> lid \<in> set (revoker_queue s) \<or>
     Revoker_Rpc lid \<in> set (sc_jobs s) \<or> (Revoker_Rpc lid, owner_cl (lock_at s lid)) \<in> set (sc_calls s) \<or> told"

definition no_waiter_lost :: "lock_server_cache \<Rightarrow> lockid \<Rightarrow> bool \<Rightarrow> bool" where
  "no_waiter_lost s lid told \<longleftrightarrow> waiting_cls (lock_at s lid) = [] \<or> worked_on s lid told"

definition pool_has_room :: "sc_event \<Rightarrow> bool" where
  "pool_has_room e = (case e of Sc_Retryer room \<Rightarrow> room | Sc_Revoker room \<Rightarrow> room | _ \<Rightarrow> True)"

lemma retries_iff: "lid \<in># retries js \<longleftrightarrow> Retryer_Rpc lid \<in> set js"
  by (induction js rule: retries.induct) auto

lemma pend_iff: "lid \<in># pend s \<longleftrightarrow> Retryer_Rpc lid \<in> set (sc_jobs s) \<or> Retryer_Rpc lid \<in> fst ` set (sc_calls s)"
  by (auto simp: pend_def retries_iff)

lemma in_drop_nth:
  assumes "x \<in> set xs" "k < length xs"
  shows "x \<in> set (drop_nth k xs) \<or> x = xs ! k"
proof -
  have "set xs = set (take k xs @ xs ! k # drop (Suc k) xs)" using assms(2) by (rule arg_cong [OF id_take_nth_drop])
  with assms(1) show ?thesis by (auto simp: drop_nth_def)
qed

lemma no_waiter_lost_keep:
  assumes "no_waiter_lost s lid told" "lock_at s' lid = lock_at s lid" "lid \<in># pend s \<Longrightarrow> lid \<in># pend s'"
    and "set (retryer_queue s) \<subseteq> set (retryer_queue s')" "set (revoker_queue s) \<subseteq> set (revoker_queue s')"
    and "Revoker_Rpc lid \<in> set (sc_jobs s) \<Longrightarrow> Revoker_Rpc lid \<in> set (sc_jobs s') \<or> (Revoker_Rpc lid, owner_cl (lock_at s lid)) \<in> set (sc_calls s')"
    and "(Revoker_Rpc lid, owner_cl (lock_at s lid)) \<in> set (sc_calls s) \<Longrightarrow> (Revoker_Rpc lid, owner_cl (lock_at s lid)) \<in> set (sc_calls s') \<or>
       lid \<in> set (revoker_queue s') \<or> told_after lid e s s' told"
  shows "no_waiter_lost s' lid (told_after lid e s s' told)"
  using assms by (auto simp: no_waiter_lost_def worked_on_def told_after_def)

lemma acquire_no_waiter_lost:
  assumes inv: "sc_inv s" and ord: "orderly (Sc_Acquire k c) s" and w: "no_waiter_lost s lid told" and ex: "sc_exec (Sc_Acquire k c) s = Inr s'"
  shows "no_waiter_lost s' lid (told_after lid (Sc_Acquire k c) s s' told)"
proof (cases "lid = k")
  case False
  have "lock_at s' lid = lock_at s lid" "pend s' = pend s" "retryer_queue s' = retryer_queue s" "set (revoker_queue s) \<subseteq> set (revoker_queue s')"
      "sc_jobs s' = sc_jobs s" "sc_calls s' = sc_calls s"
    using ex False by (auto simp: lsc_acquire_def Let_def split: if_splits)
  with w show ?thesis by (intro no_waiter_lost_keep) auto
next
  case True
  define l where "l = (case lock_table s k of None \<Rightarrow> (lock_at s k)\<lparr>sl_id := k, owner_cl := []\<rparr> | Some l \<Rightarrow> l)"
  have l: "owner_cl l = owner_cl (lock_at s k)" "waiting_cls l = waiting_cls (lock_at s k)"
    by (auto simp: l_def lock_at_def split: option.splits)
  show ?thesis
  proof (cases "owner_cl l = []")
    case o: True
    then have "waiting_cls l = []" using inv ord l by (auto simp: sc_inv_def lock_inv_def orderly_def)
    with ex True o show ?thesis by (simp add: lsc_acquire_def Let_def no_waiter_lost_def flip: l_def) auto
  next
    case False
    then have "s' = set_lock k (l\<lparr>waiting_cls := waiting_cls l @ [c]\<rparr>) (if length (waiting_cls l) = 0 then push_revoke k s else s)"
      using ex by (simp add: lsc_acquire_def Let_def split: if_splits flip: l_def)
    then have s': "owner_cl (lock_at s' lid) = owner_cl (lock_at s lid)" "pend s' = pend s" "retryer_queue s' = retryer_queue s"
        "sc_jobs s' = sc_jobs s" "sc_calls s' = sc_calls s" "set (revoker_queue s) \<subseteq> set (revoker_queue s')"
        "waiting_cls l = [] \<Longrightarrow> lid \<in> set (revoker_queue s')"
      using True l by auto
    show ?thesis
    proof (cases "waiting_cls l = []")
      case True
      then show ?thesis using s'(7) by (simp add: no_waiter_lost_def worked_on_def)
    next
      case False
      then have "worked_on s lid told" using w l True by (simp add: no_waiter_lost_def)
      then show ?thesis using s' by (auto simp: no_waiter_lost_def worked_on_def told_after_def)
    qed
  qed
qed

lemma end_no_waiter_lost:
  assumes inv: "sc_inv s" and w: "no_waiter_lost s lid told" and ex: "sc_exec (Sc_End k cl) s = Inr s'"
  shows "no_waiter_lost s' lid (told_after lid (Sc_End k cl) s s' told)"
proof (cases "k < length (sc_calls s)")
  case False
  with ex have "s' = s" by (simp add: sc_end_def)
  with w show ?thesis by (intro no_waiter_lost_keep) auto
next
  case k: True
  let ?t = "s\<lparr>sc_calls := drop_nth k (sc_calls s)\<rparr>"
  have D: "x \<in> set (drop_nth k (sc_calls s)) \<or> x = sc_calls s ! k" if "x \<in> set (sc_calls s)" for x using that k by (rule in_drop_nth)
  have P: "x \<in># pend ?t \<or> fst (sc_calls s ! k) = Retryer_Rpc x" if "x \<in># pend s" for x
    using that D by (fastforce simp: pend_iff)
  have I: "lock_inv s x" for x using inv by (simp add: sc_inv_def)
  have dom: "lock_table s (job_lock (fst (sc_calls s ! k))) \<noteq> None" using inv k by (auto simp: sc_inv_def known_def)
  show ?thesis
  proof (cases "fst (sc_calls s ! k)")
    case (Revoker_Rpc j)
    have j: "sl_id (lock_at s j) = j" using dom I [of j] by (simp add: Revoker_Rpc job_lock_def lock_inv_def)
    define s1 where "s1 = (if rpc_result cl \<noteq> rlk_OK then ?t\<lparr>revoker_queue := revoker_queue s @ [j]\<rparr> else ?t)"
    have s': "s' = s1" using ex k j by (auto simp: sc_end_def revoker_rpc_end_def Revoker_Rpc s1_def split: if_splits)
    have pe: "pend s1 = pend ?t" "lock_at s1 = lock_at s" by (simp_all add: s1_def)
    show ?thesis unfolding s'
    proof (rule no_waiter_lost_keep [OF w])
      show "lid \<in># pend s \<Longrightarrow> lid \<in># pend s1" using P [of lid] by (simp add: pe Revoker_Rpc)
      assume "(Revoker_Rpc lid, owner_cl (lock_at s lid)) \<in> set (sc_calls s)"
      with D have "(Revoker_Rpc lid, owner_cl (lock_at s lid)) \<in> set (drop_nth k (sc_calls s)) \<or> sc_calls s ! k = (Revoker_Rpc lid, owner_cl (lock_at s lid))"
        by metis
      then show "(Revoker_Rpc lid, owner_cl (lock_at s lid)) \<in> set (sc_calls s1) \<or> lid \<in> set (revoker_queue s1) \<or> told_after lid (Sc_End k cl) s s1 told"
        using k Revoker_Rpc by (auto simp: s1_def told_after_def)
    qed (auto simp: s1_def)
  next
    case (Retryer_Rpc j)
    define l where "l = lock_at s j"
    have "sl_id l = j" using dom I [of j] by (simp add: Retryer_Rpc job_lock_def lock_inv_def l_def)
    then have ex': "(if rpc_result cl \<noteq> rlk_OK then Inr (set_lock j (l\<lparr>owner_cl := []\<rparr>) (?t\<lparr>retryer_queue := retryer_queue s @ [j]\<rparr>))
        else case waiting_cls l of [] \<Rightarrow> Inl Wild_Access | c # cs \<Rightarrow>
          Inr (if cs \<noteq> [] then push_revoke j (set_lock j (l\<lparr>waiting_cls := cs\<rparr>) ?t) else set_lock j (l\<lparr>waiting_cls := cs\<rparr>) ?t)) = Inr s'"
      using ex k by (simp add: sc_end_def retryer_rpc_end_def Retryer_Rpc Let_def cong: if_cong list.case_cong flip: l_def)
    show ?thesis
    proof (cases "lid = j")
      case True
      with ex' show ?thesis
        by (cases "waiting_cls l") (auto simp: no_waiter_lost_def worked_on_def split: if_splits)
    next
      case False
      have e: "lock_at s' lid = lock_at s lid" "set (retryer_queue s) \<subseteq> set (retryer_queue s')" "set (revoker_queue s) \<subseteq> set (revoker_queue s')"
          "pend s' = pend ?t" "sc_jobs s' = sc_jobs s" "sc_calls s' = drop_nth k (sc_calls s)"
        using ex' False by (auto split: if_splits list.splits)
      show ?thesis
      proof (rule no_waiter_lost_keep [OF w e(1)])
        show "lid \<in># pend s \<Longrightarrow> lid \<in># pend s'" using P [of lid] False by (simp add: e Retryer_Rpc)
        have "(Revoker_Rpc lid, owner_cl (lock_at s lid)) \<noteq> sc_calls s ! k" using Retryer_Rpc by (metis fst_conv sjob.distinct(1))
        moreover assume "(Revoker_Rpc lid, owner_cl (lock_at s lid)) \<in> set (sc_calls s)"
        ultimately show "(Revoker_Rpc lid, owner_cl (lock_at s lid)) \<in> set (sc_calls s') \<or>
            lid \<in> set (revoker_queue s') \<or> told_after lid (Sc_End k cl) s s' told" using D by (auto simp: e)
      qed (use e in auto)
    qed
  qed
qed

lemma retryer_no_waiter_lost:
  assumes w: "no_waiter_lost s lid told" and ex: "sc_exec (Sc_Retryer True) s = Inr s'"
  shows "no_waiter_lost s' lid (told_after lid (Sc_Retryer True) s s' told)"
proof (cases "retryer_asleep s \<or> retryer_queue s = []")
  case True
  with ex have "s' = s \<or> s' = s\<lparr>retryer_asleep := True\<rparr>" by (auto simp: retryer_pass_def split: if_splits)
  with w show ?thesis by (intro no_waiter_lost_keep) auto
next
  case False
  then obtain j q where q: "retryer_queue s = j # q" by (cases "retryer_queue s") auto
  define s1 where "s1 = set_lock j (lock_at s j) (s\<lparr>retryer_queue := q\<rparr>)"
  have s': "s' = (if waiting_cls (lock_at s j) \<noteq> [] then
      (set_lock j ((lock_at s j)\<lparr>owner_cl := hd (waiting_cls (lock_at s j))\<rparr>) s1)\<lparr>sc_jobs := sc_jobs s @ [Retryer_Rpc j]\<rparr> else s1)"
    using ex False q by (auto simp: retryer_pass_def Let_def s1_def split: if_splits)
  show ?thesis
  proof (cases "lid = j")
    case True
    with s' show ?thesis by (cases "waiting_cls (lock_at s j) = []") (simp_all add: no_waiter_lost_def worked_on_def pend_iff s1_def)
  next
    case False
    have "lock_at s' lid = lock_at s lid" "lid \<in># pend s \<longrightarrow> lid \<in># pend s'" "revoker_queue s' = revoker_queue s" "sc_calls s' = sc_calls s"
        "set (sc_jobs s) \<subseteq> set (sc_jobs s')" "lid \<in> set (retryer_queue s) \<longleftrightarrow> lid \<in> set (retryer_queue s')"
      using False q unfolding s' s1_def by (auto simp: pend_iff)
    with w show ?thesis unfolding no_waiter_lost_def worked_on_def told_after_def by auto
  qed
qed

lemma revoker_no_waiter_lost:
  assumes w: "no_waiter_lost s lid told" and ex: "sc_exec (Sc_Revoker True) s = Inr s'"
  shows "no_waiter_lost s' lid (told_after lid (Sc_Revoker True) s s' told)"
proof (cases "revoker_asleep s \<or> revoker_queue s = []")
  case True
  with ex have "s' = s \<or> s' = s\<lparr>revoker_asleep := True\<rparr>" by (auto simp: revoker_pass_def split: if_splits)
  with w show ?thesis by (intro no_waiter_lost_keep) auto
next
  case False
  then obtain j q where q: "revoker_queue s = j # q" by (cases "revoker_queue s") auto
  define s1 where "s1 = set_lock j (lock_at s j) (s\<lparr>revoker_queue := q\<rparr>)"
  have s': "s' = (if waiting_cls (lock_at s j) \<noteq> [] then s1\<lparr>sc_jobs := sc_jobs s @ [Revoker_Rpc j]\<rparr> else s1)"
    using ex False q by (auto simp: revoker_pass_def Let_def s1_def split: if_splits)
  have "lock_at s' lid = lock_at s lid" "lid \<in># pend s \<longrightarrow> lid \<in># pend s'" "retryer_queue s' = retryer_queue s" "sc_calls s' = sc_calls s"
      "set (sc_jobs s) \<subseteq> set (sc_jobs s')"
      "lid \<in> set (revoker_queue s) \<longrightarrow> lid \<in> set (revoker_queue s') \<or> Revoker_Rpc lid \<in> set (sc_jobs s') \<or> waiting_cls (lock_at s lid) = []"
    using q unfolding s' s1_def by (auto simp: pend_iff)
  with w show ?thesis unfolding no_waiter_lost_def worked_on_def told_after_def by auto
qed

lemma no_waiter_lost_step:
  assumes inv: "sc_inv s" and ord: "orderly e s" "pool_has_room e" and w: "no_waiter_lost s lid told" and ex: "sc_exec e s = Inr s'"
  shows "no_waiter_lost s' lid (told_after lid e s s' told)"
proof (cases e)
  case (Sc_Release k c)
  then have "s' = s \<or> (\<exists>l. lock_table s k = Some l \<and> s' = push_retry k (set_lock k (l\<lparr>owner_cl := []\<rparr>) s))"
    using ex by (auto simp: lsc_release_def split: option.splits if_splits)
  then show ?thesis
  proof (elim disjE exE conjE)
    assume "s' = s"
    with w show ?thesis by (intro no_waiter_lost_keep) auto
  next
    fix l assume s': "lock_table s k = Some l" "s' = push_retry k (set_lock k (l\<lparr>owner_cl := []\<rparr>) s)"
    show ?thesis
    proof (cases "lid = k")
      case True
      then show ?thesis by (simp add: s'(2) no_waiter_lost_def worked_on_def)
    next
      case False
      then show ?thesis by (intro no_waiter_lost_keep [OF w]) (auto simp: s'(2))
    qed
  qed
next
  case Sc_Begin
  show ?thesis
  proof (cases "sc_jobs s")
    case Nil
    then show ?thesis using Sc_Begin ex w by (intro no_waiter_lost_keep) (auto simp: rpc_begin_def)
  next
    case (Cons j js)
    then have s': "s' = s\<lparr>sc_jobs := js, sc_calls := sc_calls s @ [(j, owner_cl (lock_at s (job_lock j)))]\<rparr>"
      using Sc_Begin ex by (simp add: rpc_begin_def)
    show ?thesis unfolding s'
      by (rule no_waiter_lost_keep [OF w]) (auto simp: Cons job_lock_def pend_iff)
  qed
next
  case Sc_Spurious
  then show ?thesis using ex w by (intro no_waiter_lost_keep) auto
qed (use assms in \<open>auto simp: pool_has_room_def intro: acquire_no_waiter_lost end_no_waiter_lost retryer_no_waiter_lost revoker_no_waiter_lost
    simp del: sc_exec.simps\<close>)

lemma run_good:
  assumes "sc_inv s" "orderly_run es s"
  shows "\<exists>s'. sc_run es s = Inr s' \<and> sc_inv s' \<and> (\<forall>lid. fair_run (map (sc_label lid) es) (sc_abs s lid) (sc_abs s' lid))"
  using assms
proof (induction es arbitrary: s)
  case Nil
  then show ?case by (simp add: fair_refl)
next
  case (Cons e es)
  then have "good_step e s" by (intro step_good) simp_all
  then obtain t where t: "sc_exec e s = Inr t" "sc_inv t" "\<forall>k. fair_step (sc_label k e) (sc_abs s k) (sc_abs t k)"
    unfolding good_step_def by blast
  moreover have "orderly_run es t" using Cons.prems t(1) by simp
  ultimately obtain s' where "sc_run es t = Inr s'" "sc_inv s'" "\<forall>lid. fair_run (map (sc_label lid) es) (sc_abs t lid) (sc_abs s' lid)"
    using Cons.IH by blast
  with t show ?case by (auto intro: fair_next)
qed

lemma no_waiter_lost_run:
  assumes "sc_inv s" "orderly_run es s" "list_all pool_has_room es" "no_waiter_lost s lid told" "sc_run es s = Inr s'"
  shows "no_waiter_lost s' lid (told_run lid es s told)"
  using assms
proof (induction es arbitrary: s told)
  case (Cons e es)
  then obtain t where t: "sc_exec e s = Inr t" "sc_run es t = Inr s'" by (auto simp: rbind_eq_Inr)
  have "good_step e s" using Cons.prems by (intro step_good) simp_all
  then have "sc_inv t" using t(1) by (auto simp: good_step_def)
  moreover have "no_waiter_lost t lid (told_after lid e s t told)"
    using Cons.prems t(1) by (intro no_waiter_lost_step) simp_all
  ultimately show ?case using Cons.IH [of t] Cons.prems t by simp
qed simp

text \<open>Without failed calls no thread sleeps on a queue with work.\<close>

definition call_succeeds :: "sc_event \<Rightarrow> bool" where
  "call_succeeds e = (case e of Sc_End k cl \<Rightarrow> rpc_result cl = rlk_OK | _ \<Rightarrow> True)"

definition awake :: "lock_server_cache \<Rightarrow> bool" where
  "awake s \<longleftrightarrow> (retryer_asleep s \<longrightarrow> retryer_queue s = []) \<and> (revoker_asleep s \<longrightarrow> revoker_queue s = [])"

lemma awake_upd [simp]:
  "awake (set_lock lid l s) = awake s" "awake (s\<lparr>sc_jobs := js\<rparr>) = awake s" "awake (s\<lparr>sc_calls := cs\<rparr>) = awake s"
  "awake s \<Longrightarrow> awake (push_retry lid s)" "awake s \<Longrightarrow> awake (push_revoke lid s)"
  by (simp_all add: awake_def set_lock_def push_retry_def push_revoke_def)

lemma awake_step: "awake s \<Longrightarrow> call_succeeds e \<Longrightarrow> sc_exec e s = Inr s' \<Longrightarrow> awake s'"
proof (cases e)
  case (Sc_End k cl)
  assume a: "awake s" "call_succeeds e" "sc_exec e s = Inr s'"
  show ?thesis
  proof (cases "k < length (sc_calls s)")
    case True
    with a Sc_End show ?thesis
      by (cases "fst (sc_calls s ! k)")
        (auto simp: sc_end_def call_succeeds_def retryer_rpc_end_def revoker_rpc_end_def Let_def split: list.splits if_splits)
  qed (use a Sc_End in \<open>simp add: sc_end_def\<close>)
next
  case (Sc_Retryer room)
  assume "awake s" "sc_exec e s = Inr s'"
  with Sc_Retryer show ?thesis
    by (cases "retryer_queue s") (auto simp: retryer_pass_def Let_def set_lock_def awake_def split: if_splits)
next
  case (Sc_Revoker room)
  assume "awake s" "sc_exec e s = Inr s'"
  with Sc_Revoker show ?thesis
    by (cases "revoker_queue s") (auto simp: revoker_pass_def Let_def set_lock_def awake_def split: if_splits)
next
  case (Sc_Acquire lid c)
  assume "awake s" "sc_exec e s = Inr s'"
  with Sc_Acquire show ?thesis by (auto simp: lsc_acquire_def Let_def split: if_splits)
next
  case (Sc_Release lid c)
  assume "awake s" "sc_exec e s = Inr s'"
  with Sc_Release show ?thesis by (auto simp: lsc_release_def split: if_splits option.splits)
next
  case Sc_Begin
  assume "awake s" "sc_exec e s = Inr s'"
  with Sc_Begin show ?thesis by (auto simp: rpc_begin_def awake_def split: list.splits)
next
  case Sc_Spurious
  assume "sc_exec e s = Inr s'"
  with Sc_Spurious show ?thesis by (auto simp: awake_def)
qed

lemma awake_run: "awake s \<Longrightarrow> list_all call_succeeds es \<Longrightarrow> sc_run es s = Inr s' \<Longrightarrow> awake s'"
  by (induction es arbitrary: s) (auto simp: rbind_eq_Inr dest: awake_step)

section \<open>Properties\<close>


definition handover :: "sc_event list" where
  "handover = [Sc_Acquire 7 ''a'', Sc_Acquire 7 ''b'', Sc_Acquire 7 ''c'', Sc_Revoker True, Sc_Begin, Sc_End 0 (Some 0), Sc_Release 7 ''a'',
     Sc_Retryer True, Sc_Begin, Sc_End 0 (Some 0)]"

lemmas lsc_op_defs = lsc_new_def lsc_acquire_def lsc_release_def lock_at_def set_lock_def push_revoke_def push_retry_def
  retryer_pass_def revoker_pass_def rpc_begin_def job_lock_def sc_end_def rpc_result_def retryer_rpc_end_def revoker_rpc_end_def
  drop_nth_def

lemma handover_orderly: "orderly_run handover (lsc_new n)"
  by (simp add: handover_def lsc_op_defs orderly_def pend_def lk_status_defs)




text \<open>
  Outside of orderly histories exclusion is lost: a client that asks between a release and the retryer's pass is told
  OK, the retryer then makes the first waiting client the owner and calls it, and the release of the client that was
  told OK is refused.
\<close>

lemma retryer_overrides_owner:
  "\<exists>s s' t. sc_run [Sc_Acquire 7 ''a'', Sc_Acquire 7 ''b'', Sc_Release 7 ''a''] (lsc_new 0) = Inr s \<and>
     lsc_acquire s 7 ''c'' 0 = Inr (s', lk_OK, 0) \<and> owner_cl (lock_at s' 7) = ''c'' \<and>
     sc_run [Sc_Retryer True, Sc_Begin] s' = Inr t \<and> owner_cl (lock_at t 7) = ''b'' \<and> (Retryer_Rpc 7, ''b'') \<in> set (sc_calls t) \<and>
     lsc_release t 7 ''c'' 0 = Inr (t, lk_IOERR, 0)"
  by (simp add: lsc_op_defs lk_status_defs)

text \<open>
  A retry call that fails is queued again without a signal: when the retryer sleeps by then, the lock is free, a
  client waits for it, the entry sits in the queue, and no job or call is left that would wake the retryer.
\<close>

lemma failed_retry_not_signalled:
  "\<exists>s. sc_run [Sc_Acquire 7 ''a'', Sc_Acquire 7 ''b'', Sc_Revoker True, Sc_Begin, Sc_End 0 (Some 0), Sc_Release 7 ''a'',
       Sc_Retryer True, Sc_Retryer True, Sc_Begin, Sc_Revoker True, Sc_End 0 None] (lsc_new 0) = Inr s \<and>
     sc_abs s 7 = ([], [''b'']) \<and> retryer_queue s = [7] \<and> retryer_asleep s \<and> revoker_asleep s \<and> sc_jobs s = [] \<and> sc_calls s = []"
  by (simp add: lsc_op_defs sc_abs_def lk_status_defs)

end
