(* ===== verification/Lock_Client_Cache.thy ===== *)
theory Lock_Client_Cache
  imports Lock_Server
begin

text \<open>
  The caching lock client of \<^verbatim>\<open>src/lock_client_cache.cc\<close>. Its threads run under one mutex, which they give up while they
  wait on a condition variable or for a remote call; every function is cut there. A thread that waits can go on at
  any time (signals, spurious wake-ups and the timeout of the releaser are not told apart), so the statements on safety
  hold for every schedule; the signals that are sent are kept in \<open>lc_signals\<close>.
\<close>

section \<open>Definitions\<close>

datatype cstate = C_NONE | C_FREE | C_LOCKED | C_ACQUIRING | C_RELEASING

text \<open>A \<^verbatim>\<open>pthread_t\<close> is a number; 0 is no thread.\<close>

record cache_lock =
  cl_id :: lockid
  cl_state :: cstate
  cl_owner :: nat
  ifrevoke :: bool
  iftimout :: bool
  ifrlsreq :: bool
  wait_threads :: int

datatype cc_cond = Queue_Cond lockid | Revoke_Cond lockid | Tmout_Cond lockid | Releaser_Cond

datatype cc_pc =
    Out
  | In_Queue lockid          \<comment> \<open>waits on \<^verbatim>\<open>queue_cond\<close> in \<^verbatim>\<open>acquire\<close>\<close>
  | In_Call lockid           \<comment> \<open>in the acquire call\<close>
  | In_Revoke lockid         \<comment> \<open>waits on \<^verbatim>\<open>revoke_cond\<close> in \<^verbatim>\<open>revoke_handler\<close>\<close>
  | In_Rls_Wait lockid       \<comment> \<open>waits on \<^verbatim>\<open>tmout_cond\<close> in \<^verbatim>\<open>releaser_rpc\<close>\<close>
  | In_Rls_Call lockid       \<comment> \<open>in the release call\<close>

record lock_client_cache =
  cachelock_table :: "lockid \<rightharpoonup> cache_lock"
  releaser_queue :: "lockid list"
  lc_jobs :: "lockid list"          \<comment> \<open>\<^verbatim>\<open>releaser_rpc\<close> jobs the pool has accepted and not begun\<close>
  lc_threads :: "nat \<Rightarrow> cc_pc"
  lc_signals :: "cc_cond list"

definition lcc_new :: lock_client_cache where
  "lcc_new = \<lparr>cachelock_table = Map.empty, releaser_queue = [], lc_jobs = [], lc_threads = (\<lambda>_. Out), lc_signals = []\<rparr>"

definition timeout_value :: nat where "timeout_value = 120"

definition set_clock :: "lockid \<Rightarrow> cache_lock \<Rightarrow> lock_client_cache \<Rightarrow> lock_client_cache" where
  "set_clock lid l s = s\<lparr>cachelock_table := (cachelock_table s)(lid \<mapsto> l)\<rparr>"

definition goto :: "nat \<Rightarrow> cc_pc \<Rightarrow> lock_client_cache \<Rightarrow> lock_client_cache" where
  "goto t p s = s\<lparr>lc_threads := (lc_threads s)(t := p)\<rparr>"

definition signal :: "cc_cond \<Rightarrow> lock_client_cache \<Rightarrow> lock_client_cache" where
  "signal c s = s\<lparr>lc_signals := lc_signals s @ [c]\<rparr>"

subsection \<open>acquire\<close>

definition clock_new :: "lockid \<Rightarrow> cache_lock" where
  "clock_new lid = \<lparr>cl_id = lid, cl_state = C_NONE, cl_owner = 0, ifrevoke = False, iftimout = False, ifrlsreq = False, wait_threads = 0\<rparr>"

text \<open>The end of \<^verbatim>\<open>acquire\<close> with OK, the case \<^verbatim>\<open>NONE\<close> up to the remote call, and the loop at \<^verbatim>\<open>RETRY_WAIT\<close>; the result is the
  status when the function has returned.\<close>

definition acquire_done :: "nat \<Rightarrow> lockid \<Rightarrow> cache_lock \<Rightarrow> lock_client_cache \<Rightarrow> lock_client_cache \<times> u32 option" where
  "acquire_done t lid l s =
     (goto t Out (set_clock lid (l\<lparr>cl_state := C_LOCKED, cl_owner := t, wait_threads := wait_threads l - 1\<rparr>) s), Some lk_OK)"

definition acquire_none :: "nat \<Rightarrow> lockid \<Rightarrow> cache_lock \<Rightarrow> lock_client_cache \<Rightarrow> lock_client_cache \<times> u32 option" where
  "acquire_none t lid l s = (goto t (In_Call lid) (set_clock lid (l\<lparr>cl_state := C_ACQUIRING\<rparr>) s), None)"

definition acquire_retry_wait :: "nat \<Rightarrow> lockid \<Rightarrow> cache_lock \<Rightarrow> lock_client_cache \<Rightarrow> lock_client_cache \<times> u32 option" where
  "acquire_retry_wait t lid l s =
     (if cl_state l \<noteq> C_FREE \<and> cl_state l \<noteq> C_NONE then (goto t (In_Queue lid) (set_clock lid l s), None)
      else if cl_state l \<noteq> C_NONE then acquire_done t lid l s
      else acquire_none t lid l s)"

definition cc_acquire :: "nat \<Rightarrow> lockid \<Rightarrow> lock_client_cache \<Rightarrow> lock_client_cache \<times> u32 option" where
  "cc_acquire t lid s =
     (let l = (case cachelock_table s lid of None \<Rightarrow> clock_new lid | Some l \<Rightarrow> l);
          l = l\<lparr>wait_threads := wait_threads l + 1\<rparr>
      in case cl_state l of
           C_LOCKED \<Rightarrow> if cl_owner l = t then acquire_done t lid l s else acquire_retry_wait t lid l s
         | C_ACQUIRING \<Rightarrow> acquire_retry_wait t lid l s
         | C_RELEASING \<Rightarrow> acquire_retry_wait t lid l s
         | C_NONE \<Rightarrow> acquire_none t lid l s
         | C_FREE \<Rightarrow> acquire_done t lid l s)"

definition cc_acquire_wake :: "nat \<Rightarrow> lockid \<Rightarrow> lock_client_cache \<Rightarrow> lock_client_cache \<times> u32 option" where
  "cc_acquire_wake t lid s =
     (case cachelock_table s lid of None \<Rightarrow> (s, None) | Some l \<Rightarrow> acquire_retry_wait t lid l s)"

text \<open>The remote call returns \<open>ret\<close>: everything but RETRY counts as OK.\<close>

definition cc_acquire_reply :: "nat \<Rightarrow> lockid \<Rightarrow> u32 \<Rightarrow> lock_client_cache \<Rightarrow> lock_client_cache \<times> u32 option" where
  "cc_acquire_reply t lid ret s =
     (case cachelock_table s lid of
        None \<Rightarrow> (s, None)
      | Some l \<Rightarrow> if ret = lk_RETRY then acquire_retry_wait t lid l s else acquire_done t lid l s)"

subsection \<open>release and the handlers\<close>

definition cc_release :: "nat \<Rightarrow> lockid \<Rightarrow> lock_client_cache \<Rightarrow> lock_client_cache \<times> u32" where
  "cc_release t lid s =
     (case cachelock_table s lid of
        None \<Rightarrow> (s, lk_NOENT)
      | Some l \<Rightarrow>
          if cl_state l = C_LOCKED \<and> cl_owner l = t then
            let s = set_clock lid (l\<lparr>cl_state := C_FREE\<rparr>) s
            in (signal (if iftimout l \<or> (ifrlsreq l \<and> wait_threads l = 0) then Tmout_Cond lid
                        else if ifrevoke l then Revoke_Cond lid else Queue_Cond lid) s, lk_OK)
          else (s, lk_NOENT))"

definition revoke_loop :: "nat \<Rightarrow> lockid \<Rightarrow> cache_lock \<Rightarrow> lock_client_cache \<Rightarrow> lock_client_cache \<times> u32 option" where
  "revoke_loop t lid l s =
     (if cl_state l \<noteq> C_FREE then (goto t (In_Revoke lid) (set_clock lid l s), None)
      else let s = set_clock lid (l\<lparr>ifrevoke := False, cl_state := C_RELEASING\<rparr>) s
           in (goto t Out (signal Releaser_Cond (s\<lparr>releaser_queue := releaser_queue s @ [lid]\<rparr>)), Some rlk_OK))"

definition revoke_handler :: "nat \<Rightarrow> lockid \<Rightarrow> lock_client_cache \<Rightarrow> lock_client_cache \<times> u32 option" where
  "revoke_handler t lid s =
     (case cachelock_table s lid of
        None \<Rightarrow> (s, Some rlk_RPCERR)
      | Some l \<Rightarrow> revoke_loop t lid (l\<lparr>ifrevoke := True\<rparr>) s)"

definition revoke_wake :: "nat \<Rightarrow> lockid \<Rightarrow> lock_client_cache \<Rightarrow> lock_client_cache \<times> u32 option" where
  "revoke_wake t lid s = (case cachelock_table s lid of None \<Rightarrow> (s, None) | Some l \<Rightarrow> revoke_loop t lid l s)"

definition retry_handler :: "lockid \<Rightarrow> lock_client_cache \<Rightarrow> lock_client_cache \<times> u32" where
  "retry_handler lid s =
     (case cachelock_table s lid of
        None \<Rightarrow> (s, rlk_RPCERR)
      | Some l \<Rightarrow>
          if cl_state l = C_ACQUIRING then (signal (Queue_Cond lid) (set_clock lid (l\<lparr>cl_state := C_FREE\<rparr>) s), rlk_OK)
          else (s, rlk_RPCERR))"

subsection \<open>The releaser\<close>

text \<open>One pass of the thread with a queue that is not empty; \<open>room\<close> is what \<^verbatim>\<open>addObjJob\<close> returns.\<close>

definition releaser_pass :: "bool \<Rightarrow> lock_client_cache \<Rightarrow> lock_client_cache" where
  "releaser_pass room s =
     (case releaser_queue s of
        [] \<Rightarrow> s
      | lid # q \<Rightarrow> s\<lparr>releaser_queue := q, lc_jobs := (if room then lc_jobs s @ [lid] else lc_jobs s)\<rparr>)"

definition releaser_send :: "nat \<Rightarrow> lockid \<Rightarrow> cache_lock \<Rightarrow> lock_client_cache \<Rightarrow> lock_client_cache" where
  "releaser_send t lid l s =
     goto t (In_Rls_Call lid) (set_clock lid (l\<lparr>iftimout := False, ifrlsreq := False, cl_state := C_RELEASING\<rparr>) s)"

definition releaser_rpc :: "nat \<Rightarrow> lockid \<Rightarrow> lock_client_cache \<Rightarrow> fault + lock_client_cache" where
  "releaser_rpc t lid s =
     (case cachelock_table s lid of
        None \<Rightarrow> Inl Verify_Failed
      | Some l \<Rightarrow>
          rbind (verify (cl_state l = C_RELEASING)) (\<lambda>_.
            Inr (if wait_threads l > 0 then goto t (In_Rls_Wait lid) (set_clock lid (l\<lparr>cl_state := C_FREE, ifrlsreq := True\<rparr>) s)
                 else releaser_send t lid l s)))"

definition releaser_rpc_wake :: "nat \<Rightarrow> lockid \<Rightarrow> lock_client_cache \<Rightarrow> lock_client_cache" where
  "releaser_rpc_wake t lid s =
     (case cachelock_table s lid of
        None \<Rightarrow> s
      | Some l \<Rightarrow>
          let l = l\<lparr>iftimout := True\<rparr>
          in if cl_state l \<noteq> C_FREE then set_clock lid l s else releaser_send t lid l s)"

definition releaser_rpc_reply :: "nat \<Rightarrow> lockid \<Rightarrow> u32 \<Rightarrow> lock_client_cache \<Rightarrow> fault + lock_client_cache" where
  "releaser_rpc_reply t lid ret s =
     (case cachelock_table s lid of
        None \<Rightarrow> Inl Verify_Failed
      | Some l \<Rightarrow>
          rbind (verify (cl_state l = C_RELEASING)) (\<lambda>_.
            Inr (goto t Out
              (if ret = lk_OK then
                 let s = set_clock lid (l\<lparr>cl_owner := 0, cl_state := C_NONE\<rparr>) s
                 in if wait_threads l > 0 then signal (Queue_Cond lid) s else s
               else s\<lparr>releaser_queue := releaser_queue s @ [cl_id l]\<rparr>))))"

section \<open>Histories\<close>

text \<open>
  One event per cut, with the thread that runs; an event whose thread is elsewhere changes nothing. \<open>Got\<close> and \<open>Freed\<close> are
  what the threads of the application see: \<^verbatim>\<open>acquire\<close> or \<^verbatim>\<open>release\<close> has returned OK.
\<close>

datatype cc_event =
    Cc_Acquire nat lockid | Cc_Queue_Wake nat | Cc_Reply nat u32 | Cc_Release nat lockid
  | Cc_Revoke nat lockid | Cc_Revoke_Wake nat | Cc_Retry lockid
  | Cc_Releaser bool | Cc_Rls_Begin nat | Cc_Rls_Wake nat | Cc_Rls_Reply nat u32

datatype cc_obs = Got nat lockid | Freed nat lockid

definition got :: "nat \<Rightarrow> lockid \<Rightarrow> lock_client_cache \<times> u32 option \<Rightarrow> fault + lock_client_cache \<times> cc_obs list" where
  "got t lid r = Inr (fst r, if snd r = Some lk_OK then [Got t lid] else [])"

fun cc_exec :: "cc_event \<Rightarrow> lock_client_cache \<Rightarrow> fault + lock_client_cache \<times> cc_obs list" where
  "cc_exec (Cc_Acquire t lid) s = (if lc_threads s t = Out then got t lid (cc_acquire t lid s) else Inr (s, []))"
| "cc_exec (Cc_Queue_Wake t) s = (case lc_threads s t of In_Queue lid \<Rightarrow> got t lid (cc_acquire_wake t lid s) | _ \<Rightarrow> Inr (s, []))"
| "cc_exec (Cc_Reply t ret) s = (case lc_threads s t of In_Call lid \<Rightarrow> got t lid (cc_acquire_reply t lid ret s) | _ \<Rightarrow> Inr (s, []))"
| "cc_exec (Cc_Release t lid) s =
     (if lc_threads s t = Out then Inr (fst (cc_release t lid s), if snd (cc_release t lid s) = lk_OK then [Freed t lid] else [])
      else Inr (s, []))"
| "cc_exec (Cc_Revoke t lid) s = Inr (if lc_threads s t = Out then fst (revoke_handler t lid s) else s, [])"
| "cc_exec (Cc_Revoke_Wake t) s = Inr (case lc_threads s t of In_Revoke lid \<Rightarrow> fst (revoke_wake t lid s) | _ \<Rightarrow> s, [])"
| "cc_exec (Cc_Retry lid) s = Inr (fst (retry_handler lid s), [])"
| "cc_exec (Cc_Releaser room) s = Inr (releaser_pass room s, [])"
| "cc_exec (Cc_Rls_Begin t) s =
     (case lc_jobs s of
        lid # js \<Rightarrow> if lc_threads s t = Out then rbind (releaser_rpc t lid (s\<lparr>lc_jobs := js\<rparr>)) (\<lambda>s. Inr (s, [])) else Inr (s, [])
      | [] \<Rightarrow> Inr (s, []))"
| "cc_exec (Cc_Rls_Wake t) s = Inr (case lc_threads s t of In_Rls_Wait lid \<Rightarrow> releaser_rpc_wake t lid s | _ \<Rightarrow> s, [])"
| "cc_exec (Cc_Rls_Reply t ret) s =
     (case lc_threads s t of In_Rls_Call lid \<Rightarrow> rbind (releaser_rpc_reply t lid ret s) (\<lambda>s. Inr (s, [])) | _ \<Rightarrow> Inr (s, []))"

fun cc_run :: "cc_event list \<Rightarrow> lock_client_cache \<Rightarrow> fault + lock_client_cache \<times> cc_obs list" where
  "cc_run [] s = Inr (s, [])"
| "cc_run (e # es) s = rbind (cc_exec e s) (\<lambda>(s, os). rbind (cc_run es s) (\<lambda>(s, os'). Inr (s, os @ os')))"

text \<open>What the threads may see of one lock: it is taken when nobody has it, or again by the thread that has it.\<close>

fun excl :: "lockid \<Rightarrow> cc_obs list \<Rightarrow> nat option \<Rightarrow> nat option option" where
  "excl lid [] h = Some h"
| "excl lid (Got t k # os) h = (if k \<noteq> lid then excl lid os h else if h = None \<or> h = Some t then excl lid os (Some t) else None)"
| "excl lid (Freed t k # os) h = (if k \<noteq> lid then excl lid os h else if h = Some t then excl lid os None else None)"

text \<open>
  What the client relies on: a call that is not answered by RETRY was not overtaken by a retry for the same lock, so that
  the lock is still in state \<open>ACQUIRING\<close>; a lock is not revoked again before its release has ended.
\<close>

definition state_of :: "lock_client_cache \<Rightarrow> lockid \<Rightarrow> cstate option" where
  "state_of s lid = map_option cl_state (cachelock_table s lid)"

definition rel_pc :: "lockid \<Rightarrow> cc_pc \<Rightarrow> bool" where
  "rel_pc lid p \<longleftrightarrow> p = In_Revoke lid \<or> p = In_Rls_Wait lid \<or> p = In_Rls_Call lid"

definition cc_fine :: "cc_event \<Rightarrow> lock_client_cache \<Rightarrow> bool" where
  "cc_fine e s = (case e of
      Cc_Reply t ret \<Rightarrow> (\<forall>lid. lc_threads s t = In_Call lid \<longrightarrow> ret = lk_RETRY \<or> state_of s lid = Some C_ACQUIRING)
    | Cc_Revoke t lid \<Rightarrow> lid \<notin> set (releaser_queue s @ lc_jobs s) \<and> (\<forall>t. \<not> rel_pc lid (lc_threads s t))
    | _ \<Rightarrow> True)"

fun fine_run :: "cc_event list \<Rightarrow> lock_client_cache \<Rightarrow> bool" where
  "fine_run [] s = True"
| "fine_run (e # es) s = (cc_fine e s \<and> (case cc_exec e s of Inl _ \<Rightarrow> True | Inr (s', _) \<Rightarrow> fine_run es s'))"

section \<open>Invariant\<close>

definition clock_inv :: "lock_client_cache \<Rightarrow> lockid \<Rightarrow> bool" where
  "clock_inv s lid \<longleftrightarrow>
     (\<forall>l. cachelock_table s lid = Some l \<longrightarrow> cl_id l = lid) \<and>
     (\<forall>t t'. rel_pc lid (lc_threads s t) \<longrightarrow> rel_pc lid (lc_threads s t') \<longrightarrow> t = t') \<and>
     (lid \<in> set (releaser_queue s @ lc_jobs s) \<longrightarrow> state_of s lid = Some C_RELEASING \<and> (\<forall>t. \<not> rel_pc lid (lc_threads s t))) \<and>
     (\<forall>t. lc_threads s t = In_Rls_Call lid \<longrightarrow> state_of s lid = Some C_RELEASING) \<and>
     (\<forall>t. lc_threads s t = In_Rls_Wait lid \<longrightarrow> state_of s lid = Some C_FREE \<or> state_of s lid = Some C_LOCKED) \<and>
     (\<forall>t. lc_threads s t = In_Call lid \<or> lc_threads s t = In_Queue lid \<or> lc_threads s t = In_Revoke lid \<longrightarrow> state_of s lid \<noteq> None)"

definition cc_inv :: "lock_client_cache \<Rightarrow> bool" where
  "cc_inv s \<longleftrightarrow> distinct (releaser_queue s @ lc_jobs s) \<and> (\<forall>lid. clock_inv s lid)"

definition hold :: "lock_client_cache \<Rightarrow> lockid \<Rightarrow> nat option" where
  "hold s lid = (case cachelock_table s lid of None \<Rightarrow> None | Some l \<Rightarrow> if cl_state l = C_LOCKED then Some (cl_owner l) else None)"

lemma cc_sel [simp]:
  "cachelock_table (set_clock lid l s) = (cachelock_table s)(lid \<mapsto> l)" "releaser_queue (set_clock lid l s) = releaser_queue s"
  "lc_jobs (set_clock lid l s) = lc_jobs s" "lc_threads (set_clock lid l s) = lc_threads s"
  "cachelock_table (goto t p s) = cachelock_table s" "releaser_queue (goto t p s) = releaser_queue s"
  "lc_jobs (goto t p s) = lc_jobs s" "lc_threads (goto t p s) = (lc_threads s)(t := p)"
  "cachelock_table (signal c s) = cachelock_table s" "releaser_queue (signal c s) = releaser_queue s"
  "lc_jobs (signal c s) = lc_jobs s" "lc_threads (signal c s) = lc_threads s"
  by (simp_all add: set_clock_def goto_def signal_def)

lemma rel_pc_simps [simp]:
  "\<not> rel_pc lid Out" "\<not> rel_pc lid (In_Queue k)" "\<not> rel_pc lid (In_Call k)" "rel_pc lid (In_Revoke k) \<longleftrightarrow> k = lid"
  "rel_pc lid (In_Rls_Wait k) \<longleftrightarrow> k = lid" "rel_pc lid (In_Rls_Call k) \<longleftrightarrow> k = lid"
  by (auto simp: rel_pc_def)

text \<open>One thread moves and one lock changes; the queues stay or lose or gain that lock.\<close>

lemma clock_invD:
  assumes "clock_inv s lid"
  shows "cachelock_table s lid = Some l \<Longrightarrow> cl_id l = lid"
    and "rel_pc lid (lc_threads s t) \<Longrightarrow> rel_pc lid (lc_threads s t') \<Longrightarrow> t = t'"
    and "lid \<in> set (releaser_queue s) \<or> lid \<in> set (lc_jobs s) \<Longrightarrow> state_of s lid = Some C_RELEASING"
    and "lid \<in> set (releaser_queue s) \<or> lid \<in> set (lc_jobs s) \<Longrightarrow> \<not> rel_pc lid (lc_threads s t)"
    and "lc_threads s t = In_Rls_Call lid \<Longrightarrow> state_of s lid = Some C_RELEASING"
    and "lc_threads s t = In_Rls_Wait lid \<Longrightarrow> state_of s lid = Some C_FREE \<or> state_of s lid = Some C_LOCKED"
    and "lc_threads s t = In_Call lid \<or> lc_threads s t = In_Queue lid \<or> lc_threads s t = In_Revoke lid \<Longrightarrow> state_of s lid \<noteq> None"
  using assms unfolding clock_inv_def by auto

lemma clock_invI:
  assumes "\<And>l. cachelock_table s lid = Some l \<Longrightarrow> cl_id l = lid"
    and "\<And>t t'. rel_pc lid (lc_threads s t) \<Longrightarrow> rel_pc lid (lc_threads s t') \<Longrightarrow> t = t'"
    and "lid \<in> set (releaser_queue s) \<or> lid \<in> set (lc_jobs s) \<Longrightarrow> state_of s lid = Some C_RELEASING"
    and "\<And>t. lid \<in> set (releaser_queue s) \<or> lid \<in> set (lc_jobs s) \<Longrightarrow> \<not> rel_pc lid (lc_threads s t)"
    and "\<And>t. lc_threads s t = In_Rls_Call lid \<Longrightarrow> state_of s lid = Some C_RELEASING"
    and "\<And>t. lc_threads s t = In_Rls_Wait lid \<Longrightarrow> state_of s lid = Some C_FREE \<or> state_of s lid = Some C_LOCKED"
    and "\<And>t. lc_threads s t = In_Call lid \<or> lc_threads s t = In_Queue lid \<or> lc_threads s t = In_Revoke lid \<Longrightarrow> state_of s lid \<noteq> None"
  shows "clock_inv s lid"
  using assms unfolding clock_inv_def by auto

text \<open>A step of thread \<open>t\<close>, to \<open>p\<close>, that concerns lock \<open>lid\<close>: nothing changes for the other locks.\<close>

lemma other_lock:
  assumes inv: "clock_inv s k" and tab: "cachelock_table s' k = cachelock_table s k" and th: "lc_threads s' = (lc_threads s)(t := p)"
    and q: "k \<in> set (releaser_queue s') \<or> k \<in> set (lc_jobs s') \<longleftrightarrow> k \<in> set (releaser_queue s) \<or> k \<in> set (lc_jobs s)"
    and p: "\<not> rel_pc k p" "p \<noteq> In_Queue k" "p \<noteq> In_Call k"
  shows "clock_inv s' k"
proof -
  note D = clock_invD [OF inv]
  have np: "p \<noteq> In_Rls_Call k" "p \<noteq> In_Rls_Wait k" "p \<noteq> In_Revoke k" using p(1) by auto
  have st: "state_of s' k = state_of s k" using tab by (simp add: state_of_def)
  have rel: "rel_pc k (lc_threads s u)" if "rel_pc k (lc_threads s' u)" for u using that th p(1) by (auto split: if_splits)
  have eqs: "lc_threads s u = r" if "lc_threads s' u = r" "r \<noteq> p" for u r using that th by (auto split: if_splits)
  show ?thesis
  proof (rule clock_invI)
    show "\<And>l. cachelock_table s' k = Some l \<Longrightarrow> cl_id l = k" using D(1) tab by simp
    show "\<And>t t'. rel_pc k (lc_threads s' t) \<Longrightarrow> rel_pc k (lc_threads s' t') \<Longrightarrow> t = t'" using D(2) rel by blast
    show "k \<in> set (releaser_queue s') \<or> k \<in> set (lc_jobs s') \<Longrightarrow> state_of s' k = Some C_RELEASING" using D(3) q st by simp
    show "\<And>t. k \<in> set (releaser_queue s') \<or> k \<in> set (lc_jobs s') \<Longrightarrow> \<not> rel_pc k (lc_threads s' t)" using D(4) q rel by blast
    show "\<And>t. lc_threads s' t = In_Rls_Call k \<Longrightarrow> state_of s' k = Some C_RELEASING" using D(5) eqs np st by metis
    show "\<And>t. lc_threads s' t = In_Rls_Wait k \<Longrightarrow> state_of s' k = Some C_FREE \<or> state_of s' k = Some C_LOCKED"
      using D(6) eqs np st by metis
    show "\<And>t. lc_threads s' t = In_Call k \<or> lc_threads s' t = In_Queue k \<or> lc_threads s' t = In_Revoke k \<Longrightarrow> state_of s' k \<noteq> None"
      using D(7) eqs np p(2,3) st by metis
  qed
qed

text \<open>For the lock itself, when the queues stay and the thread does not take part in a release before or after.\<close>

lemma this_lock:
  assumes inv: "clock_inv s k" and tab: "cachelock_table s' k = Some l" "cl_id l = k" and th: "lc_threads s' = (lc_threads s)(t := p)"
    and q: "k \<in> set (releaser_queue s') \<or> k \<in> set (lc_jobs s') \<longleftrightarrow> k \<in> set (releaser_queue s) \<or> k \<in> set (lc_jobs s)"
    and p: "\<not> rel_pc k p"
    and st: "state_of s k = Some C_RELEASING \<longleftrightarrow> cl_state l = C_RELEASING"
      "state_of s k = Some C_FREE \<or> state_of s k = Some C_LOCKED \<Longrightarrow> cl_state l = C_FREE \<or> cl_state l = C_LOCKED"
  shows "clock_inv s' k"
proof -
  note D = clock_invD [OF inv]
  have np: "p \<noteq> In_Rls_Call k" "p \<noteq> In_Rls_Wait k" "p \<noteq> In_Revoke k" using p(1) by auto
  have s': "state_of s' k = Some (cl_state l)" using tab by (simp add: state_of_def)
  have rel: "rel_pc k (lc_threads s u)" if "rel_pc k (lc_threads s' u)" for u using that th p(1) by (auto split: if_splits)
  have eqs: "lc_threads s u = r" if "lc_threads s' u = r" "r \<noteq> p" for u r using that th by (auto split: if_splits)
  show ?thesis
  proof (rule clock_invI)
    show "\<And>l. cachelock_table s' k = Some l \<Longrightarrow> cl_id l = k" using tab by simp
    show "\<And>t t'. rel_pc k (lc_threads s' t) \<Longrightarrow> rel_pc k (lc_threads s' t') \<Longrightarrow> t = t'" using D(2) rel by blast
    show "k \<in> set (releaser_queue s') \<or> k \<in> set (lc_jobs s') \<Longrightarrow> state_of s' k = Some C_RELEASING" using D(3) q st s' by simp
    show "\<And>t. k \<in> set (releaser_queue s') \<or> k \<in> set (lc_jobs s') \<Longrightarrow> \<not> rel_pc k (lc_threads s' t)" using D(4) q rel by blast
    show "\<And>t. lc_threads s' t = In_Rls_Call k \<Longrightarrow> state_of s' k = Some C_RELEASING" using D(5) eqs np st s' by metis
    show "\<And>t. lc_threads s' t = In_Rls_Wait k \<Longrightarrow> state_of s' k = Some C_FREE \<or> state_of s' k = Some C_LOCKED"
      using D(6) eqs np st s' by metis
    show "\<And>t. lc_threads s' t = In_Call k \<or> lc_threads s' t = In_Queue k \<or> lc_threads s' t = In_Revoke k \<Longrightarrow> state_of s' k \<noteq> None"
      using s' by simp
  qed
qed

lemma app_step_inv:
  assumes inv: "cc_inv s" and tab: "cachelock_table s' = (cachelock_table s)(lid \<mapsto> l)" "cl_id l = lid" and th: "lc_threads s' = (lc_threads s)(t := p)"
    and q: "releaser_queue s' = releaser_queue s" "lc_jobs s' = lc_jobs s"
    and p: "p = Out \<or> p = In_Queue lid \<or> p = In_Call lid"
    and st: "state_of s lid = Some C_RELEASING \<longleftrightarrow> cl_state l = C_RELEASING"
      "state_of s lid = Some C_FREE \<or> state_of s lid = Some C_LOCKED \<Longrightarrow> cl_state l = C_FREE \<or> cl_state l = C_LOCKED"
  shows "cc_inv s'"
proof -
  have I: "clock_inv s k" for k using inv by (simp add: cc_inv_def)
  have np: "\<not> rel_pc k p" for k using p by auto
  have "clock_inv s' k" for k
  proof (cases "k = lid")
    case True
    then show ?thesis using this_lock [OF I _ tab(2) th _ np st] tab(1) q by simp
  next
    case False
    then show ?thesis using other_lock [OF I _ th _ np] tab(1) q p by auto
  qed
  with inv q show ?thesis by (simp add: cc_inv_def)
qed

definition cc_next :: "lock_client_cache \<Rightarrow> lock_client_cache \<Rightarrow> cc_obs list \<Rightarrow> bool" where
  "cc_next s s' os \<longleftrightarrow> cc_inv s' \<and> (\<forall>lid. excl lid os (hold s lid) = Some (hold s' lid))"

definition same_lock :: "lock_client_cache \<Rightarrow> lockid \<Rightarrow> cache_lock \<Rightarrow> bool" where
  "same_lock s lid l \<longleftrightarrow> cl_id l = lid \<and> (case cachelock_table s lid of None \<Rightarrow> cl_state l = C_NONE | Some l0 \<Rightarrow> cl_state l = cl_state l0 \<and> cl_owner l = cl_owner l0)"

lemma same_lock_hold:
  assumes "same_lock s lid l"
  shows "hold s lid = (if cl_state l = C_LOCKED then Some (cl_owner l) else None)"
    "state_of s lid = Some (cl_state l) \<or> (state_of s lid = None \<and> cl_state l = C_NONE)"
  using assms by (auto simp: same_lock_def hold_def state_of_def split: option.splits)

lemma hold_other: "cachelock_table s' = (cachelock_table s)(lid \<mapsto> l) \<Longrightarrow> k \<noteq> lid \<Longrightarrow> hold s' k = hold s k"
  by (simp add: hold_def)

lemma acquire_done_next:
  assumes inv: "cc_inv s" and l: "same_lock s lid l" and st: "cl_state l = C_FREE \<or> cl_state l = C_ACQUIRING \<or> (cl_state l = C_LOCKED \<and> cl_owner l = t)"
    and r: "acquire_done t lid l s = (s', Some lk_OK)"
  shows "cc_next s s' [Got t lid]"
proof -
  let ?l = "l\<lparr>cl_state := C_LOCKED, cl_owner := t, wait_threads := wait_threads l - 1\<rparr>"
  have s': "s' = goto t Out (set_clock lid ?l s)" using r by (simp add: acquire_done_def)
  have "cc_inv s'"
    by (rule app_step_inv [OF inv, of s' lid ?l t Out]) (use l st same_lock_hold(2) [OF l] in \<open>auto simp: s' same_lock_def\<close>)
  moreover have "excl k [Got t lid] (hold s k) = Some (hold s' k)" for k
    using st same_lock_hold(1) [OF l] by (cases "k = lid") (auto simp: s' hold_def)
  ultimately show ?thesis by (simp add: cc_next_def)
qed

lemma acquire_none_next:
  assumes inv: "cc_inv s" and l: "same_lock s lid l" and st: "cl_state l = C_NONE" and r: "acquire_none t lid l s = (s', None)"
  shows "cc_next s s' []"
proof -
  let ?l = "l\<lparr>cl_state := C_ACQUIRING\<rparr>"
  have s': "s' = goto t (In_Call lid) (set_clock lid ?l s)" using r by (simp add: acquire_none_def)
  have "cc_inv s'"
    by (rule app_step_inv [OF inv, of s' lid ?l t "In_Call lid"]) (use l st same_lock_hold(2) [OF l] in \<open>auto simp: s' same_lock_def\<close>)
  moreover have "hold s' k = hold s k" for k
    using st same_lock_hold(1) [OF l] by (cases "k = lid") (auto simp: s' hold_def)
  ultimately show ?thesis by (simp add: cc_next_def)
qed

lemma acquire_retry_wait_next:
  assumes inv: "cc_inv s" and l: "same_lock s lid l" and r: "acquire_retry_wait t lid l s = (s', res)"
  shows "cc_next s s' (if res = Some lk_OK then [Got t lid] else [])"
proof (cases "cl_state l = C_FREE \<or> cl_state l = C_NONE")
  case True
  then show ?thesis
  proof
    assume f: "cl_state l = C_FREE"
    then have "acquire_done t lid l s = (s', res)" "res = Some lk_OK" using r by (auto simp: acquire_retry_wait_def acquire_done_def)
    then show ?thesis using acquire_done_next [OF inv l, of t s'] f by simp
  next
    assume n: "cl_state l = C_NONE"
    then have "acquire_none t lid l s = (s', res)" "res = None" using r by (auto simp: acquire_retry_wait_def acquire_none_def)
    then show ?thesis using acquire_none_next [OF inv l n, of t s'] by simp
  qed
next
  case False
  then have s': "s' = goto t (In_Queue lid) (set_clock lid l s)" "res = None" using r by (auto simp: acquire_retry_wait_def)
  have "cc_inv s'"
    by (rule app_step_inv [OF inv, of s' lid l t "In_Queue lid"]) (use l False same_lock_hold(2) [OF l] in \<open>auto simp: s' same_lock_def\<close>)
  moreover have "hold s' k = hold s k" for k
    using same_lock_hold(1) [OF l] by (cases "k = lid") (auto simp: s' hold_def)
  ultimately show ?thesis using s'(2) by (simp add: cc_next_def)
qed

definition cc_good :: "cc_event \<Rightarrow> lock_client_cache \<Rightarrow> bool" where
  "cc_good e s \<longleftrightarrow> (\<exists>s' os. cc_exec e s = Inr (s', os) \<and> cc_next s s' os)"

lemma cc_idle: "cc_inv s \<Longrightarrow> cc_exec e s = Inr (s, []) \<Longrightarrow> cc_good e s"
  by (auto simp: cc_good_def cc_next_def)

lemma got_good:
  assumes "cc_exec e s = got t lid r" "cc_next s (fst r) (if snd r = Some lk_OK then [Got t lid] else [])"
  shows "cc_good e s"
  using assms unfolding cc_good_def got_def by auto

lemma cc_acquire_good:
  assumes inv: "cc_inv s"
  shows "cc_good (Cc_Acquire t lid) s"
proof (cases "lc_threads s t = Out")
  case True
  define l where "l = (case cachelock_table s lid of None \<Rightarrow> clock_new lid | Some l \<Rightarrow> l)"
  let ?l = "l\<lparr>wait_threads := wait_threads l + 1\<rparr>"
  have l: "same_lock s lid ?l"
    using inv by (auto simp: same_lock_def l_def clock_new_def cc_inv_def dest: clock_invD split: option.split)
  obtain s' res where r: "cc_acquire t lid s = (s', res)" by (cases "cc_acquire t lid s")
  have "cc_next s s' (if res = Some lk_OK then [Got t lid] else [])"
  proof (cases "cl_state l = C_FREE \<or> (cl_state l = C_LOCKED \<and> cl_owner l = t)")
    case True
    then have "acquire_done t lid ?l s = (s', res)" "res = Some lk_OK"
      using r by (auto simp: cc_acquire_def Let_def acquire_done_def l_def [symmetric])
    then show ?thesis using acquire_done_next [OF inv l, of t s'] True by auto
  next
    case f: False
    show ?thesis
    proof (cases "cl_state l = C_NONE")
      case True
      then have "acquire_none t lid ?l s = (s', res)" "res = None" using r by (auto simp: cc_acquire_def Let_def acquire_none_def l_def [symmetric])
      then show ?thesis using acquire_none_next [OF inv l, of t s'] True by auto
    next
      case False
      with f r have "acquire_retry_wait t lid ?l s = (s', res)"
        by (cases "cl_state l") (auto simp: cc_acquire_def Let_def l_def [symmetric])
      then show ?thesis by (rule acquire_retry_wait_next [OF inv l])
    qed
  qed
  with True r show ?thesis by (intro got_good [of _ _ t lid "(s', res)"]) simp_all
qed (use inv in \<open>auto intro: cc_idle\<close>)

lemma wait_good:
  assumes inv: "cc_inv s" and t: "lc_threads s t = In_Queue lid"
  shows "cc_good (Cc_Queue_Wake t) s"
proof -
  have "state_of s lid \<noteq> None" using inv t by (auto simp: cc_inv_def dest: clock_invD(7))
  then obtain l where l: "cachelock_table s lid = Some l" by (auto simp: state_of_def)
  then have sl: "same_lock s lid l" using inv by (auto simp: same_lock_def cc_inv_def dest: clock_invD)
  obtain s' res where r: "acquire_retry_wait t lid l s = (s', res)" by (cases "acquire_retry_wait t lid l s")
  show ?thesis
    by (rule got_good [of _ _ t lid "(s', res)"]) (use acquire_retry_wait_next [OF inv sl r] t r l in \<open>auto simp: cc_acquire_wake_def\<close>)
qed

lemma reply_good:
  assumes inv: "cc_inv s" and t: "lc_threads s t = In_Call lid" and fine: "ret = lk_RETRY \<or> state_of s lid = Some C_ACQUIRING"
  shows "cc_good (Cc_Reply t ret) s"
proof -
  have "state_of s lid \<noteq> None" using inv t by (auto simp: cc_inv_def dest: clock_invD(7))
  then obtain l where l: "cachelock_table s lid = Some l" by (auto simp: state_of_def)
  then have sl: "same_lock s lid l" using inv by (auto simp: same_lock_def cc_inv_def dest: clock_invD)
  show ?thesis
  proof (cases "ret = lk_RETRY")
    case True
    obtain s' res where r: "acquire_retry_wait t lid l s = (s', res)" by (cases "acquire_retry_wait t lid l s")
    show ?thesis
      by (rule got_good [of _ _ t lid "(s', res)"])
        (use acquire_retry_wait_next [OF inv sl r] t r l True in \<open>auto simp: cc_acquire_reply_def\<close>)
  next
    case False
    then have st: "cl_state l = C_ACQUIRING" using fine l by (simp add: state_of_def)
    obtain s' where r: "acquire_done t lid l s = (s', Some lk_OK)" by (simp add: acquire_done_def)
    show ?thesis
      by (rule got_good [of _ _ t lid "(s', Some lk_OK)"])
        (use acquire_done_next [OF inv sl _ r] st t r l False in \<open>auto simp: cc_acquire_reply_def\<close>)
  qed
qed

lemma cc_release_good:
  assumes inv: "cc_inv s"
  shows "cc_good (Cc_Release t lid) s"
proof (cases "lc_threads s t = Out \<and> hold s lid = Some t")
  case True
  then obtain l where l: "cachelock_table s lid = Some l" "cl_state l = C_LOCKED" "cl_owner l = t"
    by (auto simp: hold_def split: option.splits if_splits)
  have id: "cl_id l = lid" using inv l(1) by (auto simp: cc_inv_def dest: clock_invD)
  let ?s = "fst (cc_release t lid s)"
  have s': "cachelock_table ?s = (cachelock_table s)(lid \<mapsto> l\<lparr>cl_state := C_FREE\<rparr>)" "lc_threads ?s = (lc_threads s)(t := Out)"
      "releaser_queue ?s = releaser_queue s" "lc_jobs ?s = lc_jobs s" "snd (cc_release t lid s) = lk_OK"
    using l True by (auto simp: cc_release_def Let_def)
  have "cc_inv ?s"
    by (rule app_step_inv [OF inv s'(1) _ s'(2-4)]) (use l id in \<open>auto simp: state_of_def\<close>)
  moreover have "excl k [Freed t lid] (hold s k) = Some (hold ?s k)" for k
    using True s'(1) by (cases "k = lid") (auto simp: hold_def)
  ultimately have "cc_next s ?s [Freed t lid]" by (simp add: cc_next_def)
  then show ?thesis using True s'(5) by (auto simp: cc_good_def)
next
  case False
  then have "cc_exec (Cc_Release t lid) s = Inr (s, [])"
    by (auto simp: cc_release_def hold_def lk_status_defs split: option.splits if_splits)
  then show ?thesis by (rule cc_idle [OF inv])
qed

lemma cc_retry_good:
  assumes inv: "cc_inv s"
  shows "cc_good (Cc_Retry lid) s"
proof (cases "state_of s lid = Some C_ACQUIRING")
  case True
  then obtain l where l: "cachelock_table s lid = Some l" "cl_state l = C_ACQUIRING" by (auto simp: state_of_def)
  have I: "clock_inv s k" for k using inv by (simp add: cc_inv_def)
  have id: "cl_id l = lid" using I l(1) by (rule clock_invD)
  let ?s = "fst (retry_handler lid s)"
  have s': "cachelock_table ?s = (cachelock_table s)(lid \<mapsto> l\<lparr>cl_state := C_FREE\<rparr>)" "lc_threads ?s = lc_threads s"
      "releaser_queue ?s = releaser_queue s" "lc_jobs ?s = lc_jobs s"
    using l by (auto simp: retry_handler_def)
  note D = clock_invD [OF I]
  have "clock_inv ?s k" for k
  proof (cases "k = lid")
    case False
    then show ?thesis using I [of k] by (simp add: clock_inv_def s' state_of_def)
  next
    case k: True
    have n: "lid \<notin> set (releaser_queue s)" "lid \<notin> set (lc_jobs s)" using D(3) [of lid] True by auto
    have m: "lc_threads s t \<noteq> In_Rls_Call lid" for t using D(5) [of t lid] True by auto
    have "state_of ?s lid = Some C_FREE" by (simp add: state_of_def s'(1))
    then show ?thesis unfolding k by (intro clock_invI) (use n m id in \<open>auto simp: s' intro: D(2)\<close>)
  qed
  then have "cc_inv ?s" using inv by (simp add: cc_inv_def s')
  moreover have "hold ?s k = hold s k" for k using l by (simp add: hold_def s'(1))
  ultimately show ?thesis by (auto simp: cc_good_def cc_next_def)
next
  case False
  then have "cc_exec (Cc_Retry lid) s = Inr (s, [])" by (auto simp: retry_handler_def state_of_def split: option.split)
  then show ?thesis by (rule cc_idle [OF inv])
qed

text \<open>The steps of a release: besides the thread \<open>t\<close> that takes them no thread takes part in a release of the lock.\<close>

lemma release_step_inv:
  assumes inv: "cc_inv s" and tab: "cachelock_table s' = (cachelock_table s)(lid \<mapsto> l)" "cl_id l = lid" and th: "lc_threads s' = (lc_threads s)(t := p)"
    and only: "\<And>u. rel_pc lid (lc_threads s u) \<Longrightarrow> u = t"
    and d: "distinct (releaser_queue s' @ lc_jobs s')"
    and q: "\<And>k. k \<noteq> lid \<Longrightarrow> k \<in> set (releaser_queue s') \<or> k \<in> set (lc_jobs s') \<longleftrightarrow> k \<in> set (releaser_queue s) \<or> k \<in> set (lc_jobs s)"
    and p: "(p = Out \<and> lid \<in> set (releaser_queue s') \<union> set (lc_jobs s') \<and> cl_state l = C_RELEASING) \<or>
      (lid \<notin> set (releaser_queue s') \<union> set (lc_jobs s') \<and>
       (p = Out \<or> p = In_Revoke lid \<or> (p = In_Rls_Call lid \<and> cl_state l = C_RELEASING) \<or>
        (p = In_Rls_Wait lid \<and> (cl_state l = C_FREE \<or> cl_state l = C_LOCKED))))"
  shows "cc_inv s'"
proof -
  have I: "clock_inv s k" for k using inv by (simp add: cc_inv_def)
  have st: "state_of s' lid = Some (cl_state l)" using tab by (simp add: state_of_def)
  have n: "\<not> rel_pc lid (lc_threads s' u)" if "u \<noteq> t" for u using only that th by auto
  have pt: "lc_threads s' t = p" using th by simp
  have "clock_inv s' k" for k
  proof (cases "k = lid")
    case True
    show ?thesis unfolding True
    proof (rule clock_invI)
      show "\<And>l. cachelock_table s' lid = Some l \<Longrightarrow> cl_id l = lid" using tab by simp
      show "\<And>u v. rel_pc lid (lc_threads s' u) \<Longrightarrow> rel_pc lid (lc_threads s' v) \<Longrightarrow> u = v" using n by metis
      show "lid \<in> set (releaser_queue s') \<or> lid \<in> set (lc_jobs s') \<Longrightarrow> state_of s' lid = Some C_RELEASING" using p st by auto
      show "\<not> rel_pc lid (lc_threads s' u)" if "lid \<in> set (releaser_queue s') \<or> lid \<in> set (lc_jobs s')" for u
        using n [of u] pt p that by (cases "u = t") auto
      show "state_of s' lid = Some C_RELEASING" if "lc_threads s' u = In_Rls_Call lid" for u
        using n [of u] pt p st that by (cases "u = t") auto
      show "state_of s' lid = Some C_FREE \<or> state_of s' lid = Some C_LOCKED" if "lc_threads s' u = In_Rls_Wait lid" for u
        using n [of u] pt p st that by (cases "u = t") auto
    qed (use st in simp)
  next
    case False
    have "\<not> rel_pc k p" "p \<noteq> In_Queue k" "p \<noteq> In_Call k" using p False by auto
    then show ?thesis using other_lock [OF I _ th q [OF False]] tab(1) False by simp
  qed
  with d show ?thesis by (simp add: cc_inv_def)
qed

lemma revoke_loop_next:
  assumes inv: "cc_inv s" and l0: "cachelock_table s lid = Some l0" and l: "cl_id l = cl_id l0" "cl_state l = cl_state l0" "cl_owner l = cl_owner l0"
    and q: "lid \<notin> set (releaser_queue s)" "lid \<notin> set (lc_jobs s)" and only: "\<And>u. rel_pc lid (lc_threads s u) \<Longrightarrow> u = t"
  shows "cc_next s (fst (revoke_loop t lid l s)) []"
proof -
  have id: "cl_id l = lid" using inv l0 l by (auto simp: cc_inv_def dest: clock_invD)
  have d: "distinct (releaser_queue s @ lc_jobs s)" using inv by (simp add: cc_inv_def)
  show ?thesis
  proof (cases "cl_state l = C_FREE")
    case True
    let ?s = "fst (revoke_loop t lid l s)" and ?l = "l\<lparr>ifrevoke := False, cl_state := C_RELEASING\<rparr>"
    have s': "cachelock_table ?s = (cachelock_table s)(lid \<mapsto> ?l)" "lc_threads ?s = (lc_threads s)(t := Out)"
        "releaser_queue ?s = releaser_queue s @ [lid]" "lc_jobs ?s = lc_jobs s"
      using True by (simp_all add: revoke_loop_def Let_def)
    have "cc_inv ?s" by (rule release_step_inv [OF inv s'(1) _ s'(2) only]) (use id d q in \<open>auto simp: s'\<close>)
    moreover have "hold ?s k = hold s k" for k using True l0 l by (simp add: hold_def s'(1))
    ultimately show ?thesis by (simp add: cc_next_def)
  next
    case False
    let ?s = "fst (revoke_loop t lid l s)"
    have s': "cachelock_table ?s = (cachelock_table s)(lid \<mapsto> l)" "lc_threads ?s = (lc_threads s)(t := In_Revoke lid)"
        "releaser_queue ?s = releaser_queue s" "lc_jobs ?s = lc_jobs s"
      using False by (simp_all add: revoke_loop_def Let_def)
    have "cc_inv ?s" by (rule release_step_inv [OF inv s'(1) _ s'(2) only]) (use id d q in \<open>auto simp: s'\<close>)
    moreover have "hold ?s k = hold s k" for k using l0 l by (simp add: hold_def s'(1))
    ultimately show ?thesis by (simp add: cc_next_def)
  qed
qed

lemma cc_revoke_good:
  assumes inv: "cc_inv s" and fine: "cc_fine (Cc_Revoke t lid) s"
  shows "cc_good (Cc_Revoke t lid) s"
proof (cases "lc_threads s t = Out \<and> cachelock_table s lid \<noteq> None")
  case True
  then obtain l0 where l0: "cachelock_table s lid = Some l0" by blast
  have f: "lid \<notin> set (releaser_queue s)" "lid \<notin> set (lc_jobs s)" "\<And>u. \<not> rel_pc lid (lc_threads s u)"
    using fine by (auto simp: cc_fine_def)
  have "cc_next s (fst (revoke_loop t lid (l0\<lparr>ifrevoke := True\<rparr>) s)) []"
    by (rule revoke_loop_next [OF inv l0]) (use f in auto)
  then show ?thesis using True l0 by (simp add: cc_good_def revoke_handler_def)
next
  case False
  then have "cc_exec (Cc_Revoke t lid) s = Inr (s, [])" by (auto simp: revoke_handler_def)
  then show ?thesis by (rule cc_idle [OF inv])
qed

lemma revoke_wake_good:
  assumes inv: "cc_inv s" and t: "lc_threads s t = In_Revoke lid"
  shows "cc_good (Cc_Revoke_Wake t) s"
proof -
  have I: "clock_inv s lid" using inv by (simp add: cc_inv_def)
  note D = clock_invD [OF I]
  have "state_of s lid \<noteq> None" using D(7) t by blast
  then obtain l where l: "cachelock_table s lid = Some l" by (auto simp: state_of_def)
  have r: "rel_pc lid (lc_threads s t)" using t by simp
  then have "cc_next s (fst (revoke_loop t lid l s)) []"
    using D(2) D(4) by (intro revoke_loop_next [OF inv l]) blast+
  then show ?thesis using t l by (simp add: cc_good_def revoke_wake_def)
qed

lemma releaser_good:
  assumes inv: "cc_inv s"
  shows "cc_good (Cc_Releaser room) s"
proof (cases "releaser_queue s")
  case Nil
  then show ?thesis by (intro cc_idle [OF inv]) (simp add: releaser_pass_def)
next
  case (Cons lid q)
  let ?s = "releaser_pass room s"
  have I: "clock_inv s k" for k using inv by (simp add: cc_inv_def)
  have s': "cachelock_table ?s = cachelock_table s" "lc_threads ?s = lc_threads s" "releaser_queue ?s = q"
      "lc_jobs ?s = (if room then lc_jobs s @ [lid] else lc_jobs s)"
    by (simp_all add: releaser_pass_def Cons)
  have sub: "k \<in> set (releaser_queue ?s) \<or> k \<in> set (lc_jobs ?s) \<Longrightarrow> k \<in> set (releaser_queue s) \<or> k \<in> set (lc_jobs s)" for k
    by (auto simp: s' Cons split: if_splits)
  have st: "state_of ?s = state_of s" by (simp add: state_of_def s' fun_eq_iff)
  have "clock_inv ?s k" for k
    using clock_invD [OF I [of k]] sub [of k] by (intro clock_invI) (simp_all only: s'(1,2) st simp_thms)
  moreover have "distinct (releaser_queue ?s @ lc_jobs ?s)" using inv by (auto simp: cc_inv_def s'(3,4) Cons)
  ultimately have "cc_inv ?s" by (simp add: cc_inv_def)
  moreover have "hold ?s k = hold s k" for k by (simp add: hold_def s')
  ultimately show ?thesis by (simp add: cc_good_def cc_next_def)
qed

lemma releaser_send_next:
  assumes inv: "cc_inv s" and l: "cachelock_table s lid = Some l0" "cl_id l = lid" "cl_state l0 \<noteq> C_LOCKED"
    and q: "lid \<notin> set (releaser_queue s)" "lid \<notin> set js" and only: "\<And>u. rel_pc lid (lc_threads s u) \<Longrightarrow> u = t"
    and js: "distinct (releaser_queue s @ js)" "\<And>k. k \<noteq> lid \<Longrightarrow> k \<in> set js \<longleftrightarrow> k \<in> set (lc_jobs s)"
  shows "cc_next s (releaser_send t lid l (s\<lparr>lc_jobs := js\<rparr>)) []"
proof -
  let ?s = "releaser_send t lid l (s\<lparr>lc_jobs := js\<rparr>)" and ?l = "l\<lparr>iftimout := False, ifrlsreq := False, cl_state := C_RELEASING\<rparr>"
  have s': "cachelock_table ?s = (cachelock_table s)(lid \<mapsto> ?l)" "lc_threads ?s = (lc_threads s)(t := In_Rls_Call lid)"
      "releaser_queue ?s = releaser_queue s" "lc_jobs ?s = js"
    by (simp_all add: releaser_send_def)
  have "cc_inv ?s" by (rule release_step_inv [OF inv s'(1) _ s'(2) only]) (use l q js in \<open>auto simp: s'\<close>)
  moreover have "hold ?s k = hold s k" for k using l by (simp add: hold_def s'(1))
  ultimately show ?thesis by (simp add: cc_next_def)
qed

lemma rls_begin_good:
  assumes inv: "cc_inv s"
  shows "cc_good (Cc_Rls_Begin t) s"
proof (cases "lc_jobs s = [] \<or> lc_threads s t \<noteq> Out")
  case True
  then show ?thesis by (intro cc_idle [OF inv]) (auto split: list.split)
next
  case False
  then obtain lid js where j: "lc_jobs s = lid # js" and t: "lc_threads s t = Out" by (cases "lc_jobs s") auto
  have I: "clock_inv s lid" using inv by (simp add: cc_inv_def)
  note D = clock_invD [OF I]
  have "state_of s lid = Some C_RELEASING" using D(3) j by simp
  then obtain l where l: "cachelock_table s lid = Some l" "cl_state l = C_RELEASING" by (auto simp: state_of_def)
  have only: "u = t" if "rel_pc lid (lc_threads s u)" for u using D(4) [of u] that j by simp
  have d: "distinct (releaser_queue s @ js)" "lid \<notin> set (releaser_queue s)" "lid \<notin> set js" using inv j by (auto simp: cc_inv_def)
  show ?thesis
  proof (cases "wait_threads l > 0")
    case True
    let ?l = "l\<lparr>cl_state := C_FREE, ifrlsreq := True\<rparr>"
    let ?s = "goto t (In_Rls_Wait lid) (set_clock lid ?l (s\<lparr>lc_jobs := js\<rparr>))"
    have s': "cachelock_table ?s = (cachelock_table s)(lid \<mapsto> ?l)" "lc_threads ?s = (lc_threads s)(t := In_Rls_Wait lid)"
        "releaser_queue ?s = releaser_queue s" "lc_jobs ?s = js" by simp_all
    have "cc_inv ?s" by (rule release_step_inv [OF inv s'(1) _ s'(2) only]) (use D(1) l j d in \<open>auto simp: s'\<close>)
    moreover have "hold ?s k = hold s k" for k using l by (simp add: hold_def)
    ultimately have "cc_next s ?s []" by (simp add: cc_next_def)
    then show ?thesis using j t l True by (simp add: cc_good_def releaser_rpc_def)
  next
    case False
    have "cc_next s (releaser_send t lid l (s\<lparr>lc_jobs := js\<rparr>)) []"
      by (rule releaser_send_next [OF inv l(1)]) (use D(1) l j d only in auto)
    then show ?thesis using j t l False by (simp add: cc_good_def releaser_rpc_def)
  qed
qed

lemma rls_wake_good:
  assumes inv: "cc_inv s" and t: "lc_threads s t = In_Rls_Wait lid"
  shows "cc_good (Cc_Rls_Wake t) s"
proof -
  have I: "clock_inv s lid" using inv by (simp add: cc_inv_def)
  note D = clock_invD [OF I]
  have "state_of s lid = Some C_FREE \<or> state_of s lid = Some C_LOCKED" using D(6) t by blast
  then obtain l where l: "cachelock_table s lid = Some l" "cl_state l = C_FREE \<or> cl_state l = C_LOCKED" by (auto simp: state_of_def)
  have r: "rel_pc lid (lc_threads s t)" using t by simp
  then have only: "u = t" if "rel_pc lid (lc_threads s u)" for u using D(2) that by blast
  have q: "lid \<notin> set (releaser_queue s)" "lid \<notin> set (lc_jobs s)" using D(4) r by blast+
  have d: "distinct (releaser_queue s @ lc_jobs s)" using inv by (simp add: cc_inv_def)
  show ?thesis
  proof (cases "cl_state l = C_FREE")
    case True
    have "cc_next s (releaser_send t lid (l\<lparr>iftimout := True\<rparr>) (s\<lparr>lc_jobs := lc_jobs s\<rparr>)) []"
      by (rule releaser_send_next [OF inv l(1)]) (use D(1) l True q d only in auto)
    then show ?thesis using t l(1) True by (simp add: cc_good_def releaser_rpc_wake_def)
  next
    case False
    let ?s = "set_clock lid (l\<lparr>iftimout := True\<rparr>) s"
    have s': "cachelock_table ?s = (cachelock_table s)(lid \<mapsto> l\<lparr>iftimout := True\<rparr>)" "lc_threads ?s = (lc_threads s)(t := In_Rls_Wait lid)"
      using t by auto
    have "cc_inv ?s" by (rule release_step_inv [OF inv s'(1) _ s'(2) only]) (use D(1) l q d in auto)
    moreover have "hold ?s k = hold s k" for k using l by (simp add: hold_def)
    ultimately have "cc_next s ?s []" by (simp add: cc_next_def)
    then show ?thesis using t l(1) False by (simp add: cc_good_def releaser_rpc_wake_def)
  qed
qed

lemma rls_reply_good:
  assumes inv: "cc_inv s" and t: "lc_threads s t = In_Rls_Call lid"
  shows "cc_good (Cc_Rls_Reply t ret) s"
proof -
  have I: "clock_inv s lid" using inv by (simp add: cc_inv_def)
  note D = clock_invD [OF I]
  have "state_of s lid = Some C_RELEASING" using D(5) t by blast
  then obtain l where l: "cachelock_table s lid = Some l" "cl_state l = C_RELEASING" by (auto simp: state_of_def)
  have r: "rel_pc lid (lc_threads s t)" using t by simp
  then have only: "u = t" if "rel_pc lid (lc_threads s u)" for u using D(2) that by blast
  have q: "lid \<notin> set (releaser_queue s)" "lid \<notin> set (lc_jobs s)" using D(4) r by blast+
  have d: "distinct (releaser_queue s @ lc_jobs s)" using inv by (simp add: cc_inv_def)
  have id: "cl_id l = lid" using D(1) l by blast
  define l' where "l' = (if ret = lk_OK then l\<lparr>cl_owner := 0, cl_state := C_NONE\<rparr> else l)"
  obtain s' where e: "releaser_rpc_reply t lid ret s = Inr s'" by (simp add: releaser_rpc_reply_def l)
  have s': "cachelock_table s' = (cachelock_table s)(lid \<mapsto> l')" "lc_threads s' = (lc_threads s)(t := Out)"
      "releaser_queue s' = (if ret = lk_OK then releaser_queue s else releaser_queue s @ [lid])" "lc_jobs s' = lc_jobs s"
    using e l id by (auto simp: releaser_rpc_reply_def l'_def Let_def)
  have "cc_inv s'" by (rule release_step_inv [OF inv s'(1) _ s'(2) only]) (use id l q d in \<open>auto simp: s' l'_def\<close>)
  moreover have "hold s' k = hold s k" for k using l by (simp add: hold_def s'(1) l'_def)
  ultimately have "cc_next s s' []" by (simp add: cc_next_def)
  then show ?thesis using t e by (simp add: cc_good_def)
qed

lemma cc_step_good:
  assumes "cc_inv s" "cc_fine e s"
  shows "cc_good e s"
proof (cases e)
  case (Cc_Queue_Wake t)
  then show ?thesis using assms(1) by (cases "lc_threads s t") (auto intro: wait_good cc_idle)
next
  case (Cc_Reply t ret)
  then show ?thesis using assms by (cases "lc_threads s t") (auto intro: reply_good cc_idle simp: cc_fine_def)
next
  case (Cc_Revoke_Wake t)
  then show ?thesis using assms(1) by (cases "lc_threads s t") (auto intro: revoke_wake_good cc_idle)
next
  case (Cc_Rls_Wake t)
  then show ?thesis using assms(1) by (cases "lc_threads s t") (auto intro: rls_wake_good cc_idle)
next
  case (Cc_Rls_Reply t ret)
  then show ?thesis using assms(1) by (cases "lc_threads s t") (auto intro: rls_reply_good cc_idle)
qed (use assms in \<open>auto intro: cc_acquire_good cc_release_good cc_revoke_good cc_retry_good releaser_good rls_begin_good\<close>)

lemma excl_append: "excl lid (xs @ ys) h = Option.bind (excl lid xs h) (excl lid ys)"
  by (induction lid xs h rule: excl.induct) auto

lemma cc_run_good:
  assumes "cc_inv s" "fine_run es s"
  shows "\<exists>s' os. cc_run es s = Inr (s', os) \<and> cc_inv s' \<and> (\<forall>lid. excl lid os (hold s lid) = Some (hold s' lid))"
  using assms
proof (induction es arbitrary: s)
  case Nil
  then show ?case by simp
next
  case (Cons e es)
  then have "cc_good e s" by (intro cc_step_good) simp_all
  then obtain t os where t: "cc_exec e s = Inr (t, os)" "cc_inv t" "\<forall>lid. excl lid os (hold s lid) = Some (hold t lid)"
    unfolding cc_good_def cc_next_def by blast
  moreover have "fine_run es t" using Cons.prems t(1) by simp
  ultimately obtain s' os' where "cc_run es t = Inr (s', os')" "cc_inv s'" "\<forall>lid. excl lid os' (hold t lid) = Some (hold s' lid)"
    using Cons.IH by blast
  with t show ?case by (simp add: excl_append)
qed

section \<open>Properties\<close>

text \<open>
  C12. Locks exclude the threads of a client: in every interleaving of its threads, the handlers of revoke and retry and the
  releaser, with a server that does not answer a call by anything but RETRY after it has sent a retry for it and does not
  revoke a lock twice at a time, no \<^verbatim>\<open>VERIFY\<close> fails, and \<^verbatim>\<open>acquire\<close> returns OK only to a thread that finds the lock free or
  has it already.
\<close>

theorem lock_client_cache_exclusive:
  assumes "fine_run es lcc_new"
  shows "\<exists>s os. cc_run es lcc_new = Inr (s, os) \<and> (\<forall>lid. excl lid os None = Some (hold s lid))"
proof -
  have "cc_inv lcc_new" by (simp add: cc_inv_def lcc_new_def clock_inv_def)
  moreover have "hold lcc_new lid = None" for lid by (simp add: hold_def lcc_new_def)
  ultimately show ?thesis using cc_run_good [OF _ assms] by auto
qed

lemmas cc_op_defs = lcc_new_def set_clock_def goto_def signal_def clock_new_def acquire_done_def acquire_none_def acquire_retry_wait_def
  cc_acquire_def cc_acquire_wake_def cc_acquire_reply_def cc_release_def revoke_loop_def revoke_handler_def revoke_wake_def
  retry_handler_def releaser_pass_def releaser_send_def releaser_rpc_def releaser_rpc_wake_def releaser_rpc_reply_def got_def

definition cache_demo :: "cc_event list" where
  "cache_demo = [Cc_Acquire 1 7, Cc_Reply 1 0, Cc_Acquire 2 7, Cc_Revoke 3 7, Cc_Release 1 7, Cc_Revoke_Wake 3, Cc_Releaser True, Cc_Rls_Begin 4]"

theorem lock_client_cache_exclusive_witness:
  "\<exists>s os. cc_run cache_demo lcc_new = Inr (s, os) \<and> excl 7 os None = Some (hold s 7) \<and> os = [Got 1 7, Freed 1 7]"
proof -
  have f: "fine_run cache_demo lcc_new"
    by (simp add: cache_demo_def cc_op_defs cc_fine_def state_of_def rel_pc_def lk_status_defs)
  obtain s os where s: "cc_run cache_demo lcc_new = Inr (s, os)" "excl 7 os None = Some (hold s 7)"
    using lock_client_cache_exclusive [OF f] by blast
  moreover have "os = [Got 1 7, Freed 1 7]"
    using s(1) by (simp add: cache_demo_def cc_op_defs lk_status_defs)
  ultimately show ?thesis by blast
qed

text \<open>
  A remote call that fails counts as a grant: when the acquire call of a thread returns anything but RETRY, for instance
  the failure code of a timeout, \<^verbatim>\<open>acquire\<close> returns OK and the lock is marked as locked by the thread, even if another thread
  has it.
\<close>

lemma acquire_ignores_rpc_failure:
  assumes "cachelock_table s lid = Some l" "ret \<noteq> lk_RETRY"
  shows "\<exists>s'. cc_acquire_reply t lid ret s = (s', Some lk_OK) \<and> hold s' lid = Some t"
  using assms by (simp add: cc_acquire_reply_def acquire_done_def hold_def)

lemma acquire_ignores_rpc_failure_example:
  "\<exists>s s'. cc_run [Cc_Acquire 1 7] lcc_new = Inr (s, []) \<and> cc_acquire_reply 1 7 timeout_failure s = (s', Some lk_OK) \<and> hold s' 7 = Some 1"
proof -
  obtain s l where s: "cc_run [Cc_Acquire 1 7] lcc_new = Inr (s, [])" "cachelock_table s 7 = Some l"
    by (simp add: cc_op_defs lk_status_defs)
  moreover have "timeout_failure \<noteq> lk_RETRY" by (simp add: timeout_failure_def lk_RETRY_def)
  ultimately show ?thesis using acquire_ignores_rpc_failure [of s 7 l timeout_failure 1] by blast
qed

text \<open>The releaser marks the lock as free for the waiting threads without a signal to them: they sleep until its timeout.\<close>

lemma releaser_frees_silently:
  "\<exists>s os. cc_run cache_demo lcc_new = Inr (s, os) \<and> state_of s 7 = Some C_FREE \<and> lc_threads s 2 = In_Queue 7 \<and>
     lc_threads s 4 = In_Rls_Wait 7 \<and> Queue_Cond 7 \<notin> set (lc_signals s)"
  by (simp add: cache_demo_def cc_op_defs state_of_def lk_status_defs)

end
