(* ===== verification/Yfs_World.thy ===== *)
theory Yfs_World
  imports Yfs_Client Lock_Server_Cache Lock_Client_Cache
begin

text \<open>
  The file system put together: the operations of \<open>Yfs_Client\<close> over the stubs of the extent client, the marshalling on both
  sides and the handlers of the extent server, and over the caching lock client, whose remote calls go through the
  marshalling to the handlers of the caching lock server. One process runs on a network that loses nothing; the
  interpretation of \<open>yfs_env\<close> shows that the composition keeps the contract the operations rely on.
\<close>

section \<open>The composition\<close>

text \<open>The environment of a process: the limit of strings, what \<^verbatim>\<open>time\<close> returns at each exchange, the header of requests, its
  thread, and the name of its lock client.\<close>

record env =
  e_mx :: nat
  e_clock :: "nat \<Rightarrow> u32"
  e_hdr :: req_header
  e_me :: nat
  e_id :: string

record world =
  w_ext :: extents
  w_tick :: nat
  w_ls :: lock_server_cache
  w_cc :: lock_client_cache

definition ext_call1 :: "env \<Rightarrow> world call1" where
  "ext_call1 env proc req u w =
     rbind (direct_call1 (ext_handlers (e_mx env) (e_clock env (w_tick w)) 0 no_attr) (e_hdr env) proc req u (w_ext w)) (\<lambda>(es, u, r).
       Inr (w\<lparr>w_ext := es, w_tick := Suc (w_tick w)\<rparr>, u, r))"

definition lock_call1 :: "env \<Rightarrow> world call1" where
  "lock_call1 env proc req u w =
     rbind (direct_call1 (lock_handlers 0) (e_hdr env) proc req u (w_ls w)) (\<lambda>(ls, u, r). Inr (w\<lparr>w_ls := ls\<rparr>, u, r))"

text \<open>\<^verbatim>\<open>lock_client_cache::acquire\<close> from its first to its last cut; None when it has to wait for a signal that nobody sends.\<close>

definition w_acquire :: "env \<Rightarrow> lockid \<Rightarrow> world \<Rightarrow> (fault + world \<times> u32) option" where
  "w_acquire env lid w =
     (case cc_acquire (e_me env) lid (w_cc w) of
        (cc, Some st) \<Rightarrow> Some (Inr (w\<lparr>w_cc := cc\<rparr>, st))
      | (cc, None) \<Rightarrow>
          if lc_threads cc (e_me env) = In_Call lid then
            (case rpc_call2 (lock_call1 env) (\<lambda>_. get_int) put_ull put_string lk_proc_acquire lid (e_id env) 0 (w\<lparr>w_cc := cc\<rparr>) of
               Inl e \<Rightarrow> Some (Inl e)
             | Inr (w, ret, q) \<Rightarrow>
                 (case cc_acquire_reply (e_me env) lid ret (w_cc w) of
                    (cc, Some st) \<Rightarrow> Some (Inr (w\<lparr>w_cc := cc\<rparr>, st)) | (cc, None) \<Rightarrow> None))
          else None)"

definition w_release :: "env \<Rightarrow> lockid \<Rightarrow> world \<Rightarrow> (fault + world \<times> u32) option" where
  "w_release env lid w = (case cc_release (e_me env) lid (w_cc w) of (cc, st) \<Rightarrow> Some (Inr (w\<lparr>w_cc := cc\<rparr>, st)))"

definition drop_reply :: "fault + 'w \<times> u32 \<times> 'r \<Rightarrow> fault + 'w \<times> u32" where
  "drop_reply x = rbind x (\<lambda>(w, st, _). Inr (w, st))"

definition yfs_clients :: "env \<Rightarrow> world clients" where
  "yfs_clients env =
     \<lparr>c_acquire = w_acquire env, c_release = w_release env,
      c_get = ec_get (ext_call1 env), c_put = (\<lambda>eid b w. drop_reply (ec_put (ext_call1 env) eid b 0 w)),
      c_remove = (\<lambda>eid w. drop_reply (ec_remove (ext_call1 env) eid 0 w)), c_getattr = ec_getattr (ext_call1 env),
      c_getbuf = ec_getbuf (ext_call1 env), c_putbuf = (\<lambda>eid off b w. drop_reply (ec_putbuf (ext_call1 env) eid off b 0 w))\<rparr>"

section \<open>It keeps the contract\<close>

definition w_inv :: "env \<Rightarrow> world \<Rightarrow> bool" where
  "w_inv env w \<longleftrightarrow> length (e_id env) < ext_limit \<and> lc_threads (w_cc w) (e_me env) = Out \<and>
     (\<forall>lid. cachelock_table (w_cc w) lid = None \<longrightarrow> owner_cl (lock_at (w_ls w) lid) = []) \<and>
     (\<forall>lid l. cachelock_table (w_cc w) lid = Some l \<longrightarrow> cl_state l = C_FREE \<or> (cl_state l = C_LOCKED \<and> cl_owner l = e_me env))"

definition w_content :: "world \<Rightarrow> u32 \<Rightarrow> string option" where
  "w_content w = content (w_ext w)"

definition w_held :: "env \<Rightarrow> world \<Rightarrow> lockid set" where
  "w_held env w = {lid. hold (w_cc w) lid = Some (e_me env)}"

lemma ext_rpc:
  "rpc_call1 (ext_call1 env) getR putA proc a r w =
     rbind (rpc_call1 (direct_call1 (ext_handlers (e_mx env) (e_clock env (w_tick w)) 0 no_attr) (e_hdr env)) getR putA proc a r (w_ext w))
       (\<lambda>(es, b, r). Inr (w\<lparr>w_ext := es, w_tick := Suc (w_tick w)\<rparr>, b, r))"
  by (auto simp: rpc_call1_def call_m_def ext_call1_def rbind_def split: sum.splits prod.splits)

lemma lock_rpc:
  "rpc_call1 (lock_call1 env) getR putA proc a r w =
     rbind (rpc_call1 (direct_call1 (lock_handlers 0) (e_hdr env)) getR putA proc a r (w_ls w)) (\<lambda>(ls, b, r). Inr (w\<lparr>w_ls := ls\<rparr>, b, r))"
  by (auto simp: rpc_call1_def call_m_def lock_call1_def rbind_def split: sum.splits prod.splits)

subsection \<open>The calls of the extent client\<close>

lemma ext_table:
  "ext_handlers mx now r0 a0 ext_proc_remove = Some (h1_fn get_ull put_int r0 es_remove)"
  "ext_handlers mx now r0 a0 ext_proc_getattr = Some (h1_fn get_ull put_attr a0 es_getattr)"
  "ext_handlers mx now r0 a0 ext_proc_getbuf =
     Some (h1_fn (get_pair get_ull (get_pair get_uint get_uint)) put_string [] (\<lambda>es (eid, n, off). es_getbuf now es eid n off))"
  "ext_handlers mx now r0 a0 ext_proc_putbuf =
     Some (h1_fn (get_pair get_ull (get_pair get_uint (get_string []))) put_int r0 (\<lambda>es (eid, off, b). es_putbuf mx now es eid off b))"
  by (simp_all add: ext_handlers_def h3_fn_tuple ext_proc_get_def ext_proc_getattr_def ext_proc_put_def ext_proc_remove_def
      ext_proc_resize_def ext_proc_getbuf_def ext_proc_putbuf_def)

lemmas triple_codec = wire_pair.pair_codec [OF wire_pair.intro [OF ull_codec.wire_codec_axioms wire_pair.pair_codec [OF wire_pair.intro]]]

lemmas uint_uint_codec = triple_codec [OF uint_codec.wire_codec_axioms uint_codec.wire_codec_axioms]
lemmas uint_string_codec = triple_codec [OF uint_codec.wire_codec_axioms string_codec.wire_codec_axioms]

lemmas ext_direct = direct_call [where hs = "ext_handlers (e_mx env) (e_clock env (w_tick w)) 0 no_attr" and s = "w_ext w"] for env w

definition after_ext :: "world \<Rightarrow> extents \<Rightarrow> world" where
  "after_ext w es = w\<lparr>w_ext := es, w_tick := Suc (w_tick w)\<rparr>"

lemma after_ext_sel [simp]:
  "w_ext (after_ext w es) = es" "w_cc (after_ext w es) = w_cc w" "w_ls (after_ext w es) = w_ls w"
  by (simp_all add: after_ext_def)

lemma w_inv_after_ext [simp]: "w_inv env (after_ext w es) = w_inv env w" "w_held env (after_ext w es) = w_held env w"
  by (simp_all add: w_inv_def w_held_def)

lemma status_nonneg: "0 \<le> sint ext_OK" "0 \<le> sint ext_NOENT" "0 \<le> sint ext_IOERR" "0 \<le> sint lk_OK" "0 \<le> sint lk_RETRY"
  by (simp_all add: ext_OK_def ext_NOENT_def ext_IOERR_def lk_OK_def lk_RETRY_def)

lemma ec_get_direct:
  assumes "es_get (e_clock env (w_tick w)) (w_ext w) eid [] = Inr (es, st, c)" "0 \<le> sint st" "length c < ext_limit"
  shows "ec_get (ext_call1 env) eid b w = Inr (after_ext w es, st, c)"
proof -
  have l: "length (be64 eid) < 2 ^ 30" "length (string_enc c) < 2 ^ 30" "length c < 2 ^ 31"
    using assms(3) by (simp_all add: string_enc_def ext_limit_def)
  show ?thesis
    unfolding ec_get_def ext_rpc
    by (subst ext_direct [where proc = ext_proc_get and a = "eid" and ?r0.0 = "[]" and r = c and getR = get_string and ?r1.0 = b,
          OF ext_handlers_get ull_codec.wire_codec_axioms string_codec.wire_codec_axioms TrueI l(3) assms(1,2) l(1,2)])
      (simp add: after_ext_def)
qed

lemma ec_put_direct:
  assumes "es_put (e_clock env (w_tick w)) (w_ext w) eid b 0 = Inr (es, st, r)" "0 \<le> sint st" "length b < ext_limit"
  shows "ec_put (ext_call1 env) eid b 0 w = Inr (after_ext w es, st, r)"
proof -
  have l: "length (case (eid, b) of (a, b) \<Rightarrow> be64 a @ string_enc b) < 2 ^ 30" "length (be32 r) < 2 ^ 30"
      "case (eid, b) of (a, b) \<Rightarrow> True \<and> length b < 2 ^ 31"
    using assms(3) by (simp_all add: string_enc_def ext_limit_def)
  have m: "(\<lambda>es (eid, buf). es_put (e_clock env (w_tick w)) es eid buf) (w_ext w) (eid, b) 0 = Inr (es, st, r)" using assms(1) by simp
  show ?thesis
    unfolding ec_put_def rpc_call_tuples ext_rpc
    by (subst ext_direct [where proc = ext_proc_put and a = "(eid, b)" and ?r0.0 = "0" and r = r and getR = "\<lambda>_. get_int" and ?r1.0 = 0,
          OF ext_handlers_put ull_string.pair_codec [of "[]"] int_codec.wire_codec_axioms l(3) TrueI
          m assms(2) l(1,2)])
      (simp add: after_ext_def)
qed

lemma ec_remove_direct:
  assumes "es_remove (w_ext w) eid 0 = Inr (es, st, r)" "0 \<le> sint st"
  shows "ec_remove (ext_call1 env) eid 0 w = Inr (after_ext w es, st, r)"
proof -
  have l: "length (be64 eid) < 2 ^ 30" "length (be32 r) < 2 ^ 30" by simp_all
  show ?thesis
    unfolding ec_remove_def ext_rpc
    by (subst ext_direct [where proc = ext_proc_remove and a = "eid" and ?r0.0 = "0" and r = r and getR = "\<lambda>_. get_int" and ?r1.0 = 0,
          OF ext_table(1) ull_codec.wire_codec_axioms int_codec.wire_codec_axioms TrueI TrueI
          assms l])
      (simp add: after_ext_def)
qed

lemma ec_getattr_direct:
  assumes "es_getattr (w_ext w) eid no_attr = Inr (es, st, r)" "0 \<le> sint st"
  shows "ec_getattr (ext_call1 env) eid a w = Inr (after_ext w es, st, r)"
proof -
  have l: "length (be64 eid) < 2 ^ 30" "length (be32 (a_atime r) @ be32 (a_mtime r) @ be32 (a_ctime r) @ be32 (a_size r)) < 2 ^ 30" by simp_all
  show ?thesis
    unfolding ec_getattr_def ext_rpc
    by (subst ext_direct [where proc = ext_proc_getattr and a = "eid" and ?r0.0 = "no_attr" and r = r and getR = "\<lambda>_. get_attr" and ?r1.0 = a,
          OF ext_table(2) ull_codec.wire_codec_axioms attr_codec.wire_codec_axioms TrueI TrueI
          assms l])
      (simp add: after_ext_def)
qed

lemma ec_getbuf_direct:
  assumes "es_getbuf (e_clock env (w_tick w)) (w_ext w) eid n off [] = Inr (es, st, c)" "0 \<le> sint st" "length c < ext_limit"
  shows "ec_getbuf (ext_call1 env) eid n off b w = Inr (after_ext w es, st, c)"
proof -
  have l: "length (case (eid, n, off) of (a, b) \<Rightarrow> be64 a @ (case b of (a, b) \<Rightarrow> be32 a @ be32 b)) < 2 ^ 30"
      "length (string_enc c) < 2 ^ 30" "length c < 2 ^ 31" "case (eid, n, off) of (a, b) \<Rightarrow> True \<and> (case b of (a, b) \<Rightarrow> True \<and> True)"
    using assms(3) by (simp_all add: string_enc_def ext_limit_def)
  have m: "(\<lambda>es (eid, n, off). es_getbuf (e_clock env (w_tick w)) es eid n off) (w_ext w) (eid, n, off) [] = Inr (es, st, c)"
    using assms(1) by simp
  show ?thesis
    unfolding ec_getbuf_def rpc_call_tuples ext_rpc
    by (subst ext_direct [where proc = ext_proc_getbuf and a = "(eid, n, off)" and ?r0.0 = "[]" and r = c and getR = get_string and ?r1.0 = b,
          OF ext_table(3) uint_uint_codec string_codec.wire_codec_axioms l(4,3)
          m assms(2) l(1,2)])
      (simp add: after_ext_def)
qed

lemma ec_putbuf_direct:
  assumes "es_putbuf (e_mx env) (e_clock env (w_tick w)) (w_ext w) eid off b 0 = Inr (es, st, r)" "0 \<le> sint st" "length b < ext_limit"
  shows "ec_putbuf (ext_call1 env) eid off b 0 w = Inr (after_ext w es, st, r)"
proof -
  have l: "length (case (eid, off, b) of (a, b) \<Rightarrow> be64 a @ (case b of (a, b) \<Rightarrow> be32 a @ string_enc b)) < 2 ^ 30"
      "length (be32 r) < 2 ^ 30" "case (eid, off, b) of (a, b) \<Rightarrow> True \<and> (case b of (a, b) \<Rightarrow> True \<and> length b < 2 ^ 31)"
    using assms(3) by (simp_all add: string_enc_def ext_limit_def)
  have m: "(\<lambda>es (eid, off, b). es_putbuf (e_mx env) (e_clock env (w_tick w)) es eid off b) (w_ext w) (eid, off, b) 0 = Inr (es, st, r)"
    using assms(1) by simp
  show ?thesis
    unfolding ec_putbuf_def rpc_call_tuples ext_rpc
    by (subst ext_direct [where proc = ext_proc_putbuf and a = "(eid, off, b)" and ?r0.0 = "0" and r = r and getR = "\<lambda>_. get_int" and ?r1.0 = 0,
          OF ext_table(4) uint_string_codec [of "[]"] int_codec.wire_codec_axioms l(3) TrueI
          m assms(2) l(1,2)])
      (simp add: after_ext_def)
qed

subsection \<open>The calls of the lock client\<close>

lemma lock_table_acquire:
  "lock_handlers r0 lk_proc_acquire =
     Some (h1_fn (get_pair get_ull (get_string [])) put_int r0 (\<lambda>s (lid, cid). lsc_acquire s lid cid))"
  by (simp add: lock_handlers_def h2_fn_tuple lk_proc_stat_def lk_proc_acquire_def lk_proc_release_def)

lemma lock_acquire_direct:
  assumes "lsc_acquire (w_ls w) lid (e_id env) 0 = Inr (ls, st, r)" "0 \<le> sint st" "length (e_id env) < ext_limit"
  shows "rpc_call2 (lock_call1 env) (\<lambda>_. get_int) put_ull put_string lk_proc_acquire lid (e_id env) 0 w = Inr (w\<lparr>w_ls := ls\<rparr>, st, r)"
proof -
  have l: "length (case (lid, e_id env) of (a, b) \<Rightarrow> be64 a @ string_enc b) < 2 ^ 30" "length (be32 r) < 2 ^ 30"
      "case (lid, e_id env) of (a, b) \<Rightarrow> True \<and> length b < 2 ^ 31"
    using assms(3) by (simp_all add: string_enc_def ext_limit_def)
  have m: "(\<lambda>s (lid, cid). lsc_acquire s lid cid) (w_ls w) (lid, e_id env) 0 = Inr (ls, st, r)" using assms(1) by simp
  show ?thesis
    unfolding rpc_call_tuples lock_rpc
    by (subst direct_call [where hs = "lock_handlers 0" and s = "w_ls w" and proc = lk_proc_acquire and a = "(lid, e_id env)"
          and ?r0.0 = 0 and r = r and getR = "\<lambda>_. get_int" and ?r1.0 = 0,
          OF lock_table_acquire ull_string.pair_codec [of "[]"] int_codec.wire_codec_axioms l(3) TrueI m assms(2) l(1,2)])
      simp
qed

lemma w_acquire_law:
  assumes inv: "w_inv env w" and free: "lid \<notin> w_held env w"
  shows "\<exists>w'. w_acquire env lid w = Some (Inr (w', lk_OK)) \<and> w_inv env w' \<and> w_content w' = w_content w \<and> w_held env w' = insert lid (w_held env w)"
proof (cases "cachelock_table (w_cc w) lid")
  case None
  let ?t = "e_me env"
  define l where "l = (clock_new lid)\<lparr>wait_threads := 1, cl_state := C_ACQUIRING\<rparr>"
  define cc where "cc = goto ?t (In_Call lid) (set_clock lid l (w_cc w))"
  have a: "cc_acquire ?t lid (w_cc w) = (cc, None)"
    using None by (simp add: cc_acquire_def acquire_none_def cc_def l_def clock_new_def)
  have i: "owner_cl (lock_at (w_ls w) lid) = []" "length (e_id env) < ext_limit"
    using inv None by (auto simp: w_inv_def)
  obtain ls where ls: "lsc_acquire (w_ls w) lid (e_id env) 0 = Inr (ls, lk_OK, 0)" "\<And>k. k \<noteq> lid \<Longrightarrow> lock_at ls k = lock_at (w_ls w) k"
    using i(1) by (auto simp: lsc_acquire_def lock_at_def Let_def split: option.splits)
  define cc' where "cc' = fst (cc_acquire_reply ?t lid lk_OK cc)"
  have r: "cc_acquire_reply ?t lid lk_OK cc = (cc', Some lk_OK)"
    by (simp add: cc'_def cc_acquire_reply_def cc_def acquire_done_def lk_OK_def lk_RETRY_def)
  have t: "cachelock_table cc' = (cachelock_table (w_cc w))(lid \<mapsto> l\<lparr>cl_state := C_LOCKED, cl_owner := ?t, wait_threads := 0\<rparr>)"
      "lc_threads cc' = (lc_threads (w_cc w))(?t := Out)"
    by (simp_all add: cc'_def cc_acquire_reply_def cc_def acquire_done_def lk_OK_def lk_RETRY_def l_def)
  let ?w = "w\<lparr>w_ls := ls, w_cc := cc'\<rparr>"
  have c: "rpc_call2 (lock_call1 env) (\<lambda>_. get_int) put_ull put_string lk_proc_acquire lid (e_id env) 0 (w\<lparr>w_cc := cc\<rparr>) =
      Inr (w\<lparr>w_cc := cc, w_ls := ls\<rparr>, lk_OK, 0)"
    using lock_acquire_direct [of "w\<lparr>w_cc := cc\<rparr>" lid env ls lk_OK 0] ls(1) i(2) status_nonneg by simp
  have "w_acquire env lid w = Some (Inr (?w, lk_OK))"
    unfolding w_acquire_def a using c r by (simp add: cc_def)
  moreover have "w_inv env ?w"
    using inv ls(2) unfolding w_inv_def by (auto simp: t)
  moreover have "w_held env ?w = insert lid (w_held env w)" by (auto simp: w_held_def hold_def t)
  moreover have "w_content ?w = w_content w" by (simp add: w_content_def)
  ultimately show ?thesis by blast
next
  case (Some l)
  let ?t = "e_me env"
  have "cl_state l = C_FREE \<or> (cl_state l = C_LOCKED \<and> cl_owner l = ?t)" using inv Some unfolding w_inv_def by blast
  then have st: "cl_state l = C_FREE" using free Some by (auto simp: w_held_def hold_def)
  define cc' where "cc' = fst (cc_acquire ?t lid (w_cc w))"
  have r: "cc_acquire ?t lid (w_cc w) = (cc', Some lk_OK)"
    using Some st by (simp add: cc'_def cc_acquire_def acquire_done_def)
  have t: "cachelock_table cc' = (cachelock_table (w_cc w))(lid \<mapsto> l\<lparr>cl_state := C_LOCKED, cl_owner := ?t\<rparr>)"
      "lc_threads cc' = (lc_threads (w_cc w))(?t := Out)"
    using Some st by (simp_all add: cc'_def cc_acquire_def acquire_done_def)
  let ?w = "w\<lparr>w_cc := cc'\<rparr>"
  have "w_acquire env lid w = Some (Inr (?w, lk_OK))" by (simp add: w_acquire_def r)
  moreover have "w_inv env ?w" using inv unfolding w_inv_def by (auto simp: t)
  moreover have "w_held env ?w = insert lid (w_held env w)" by (auto simp: w_held_def hold_def t)
  moreover have "w_content ?w = w_content w" by (simp add: w_content_def)
  ultimately show ?thesis by blast
qed

lemma w_release_law:
  assumes inv: "w_inv env w" and h: "lid \<in> w_held env w"
  shows "\<exists>w'. w_release env lid w = Some (Inr (w', lk_OK)) \<and> w_inv env w' \<and> w_content w' = w_content w \<and> w_held env w' = w_held env w - {lid}"
proof -
  obtain l where l: "cachelock_table (w_cc w) lid = Some l" "cl_state l = C_LOCKED" "cl_owner l = e_me env"
    using h by (auto simp: w_held_def hold_def split: option.splits if_splits)
  define cc where "cc = fst (cc_release (e_me env) lid (w_cc w))"
  have r: "cc_release (e_me env) lid (w_cc w) = (cc, lk_OK)" using l by (simp add: cc_def cc_release_def Let_def)
  have t: "cachelock_table cc = (cachelock_table (w_cc w))(lid \<mapsto> l\<lparr>cl_state := C_FREE\<rparr>)" "lc_threads cc = lc_threads (w_cc w)"
    using l by (simp_all add: cc_def cc_release_def Let_def)
  let ?w = "w\<lparr>w_cc := cc\<rparr>"
  have "w_release env lid w = Some (Inr (?w, lk_OK))" by (simp add: w_release_def r)
  moreover have "w_inv env ?w" using inv unfolding w_inv_def by (auto simp: t)
  moreover have "w_held env ?w = w_held env w - {lid}" by (auto simp: w_held_def hold_def t)
  moreover have "w_content ?w = w_content w" by (simp add: w_content_def)
  ultimately show ?thesis by blast
qed

subsection \<open>The laws\<close>

interpretation yw: yfs_file_env "yfs_clients env" "w_inv env" w_content "w_held env" "e_mx env" for env
proof
  fix w :: world and lid :: lockid
  assume "w_inv env w" "lid \<notin> w_held env w"
  then show "\<exists>w'. c_acquire (yfs_clients env) lid w = Some (Inr (w', lk_OK)) \<and> w_inv env w' \<and> w_content w' = w_content w \<and>
      w_held env w' = insert lid (w_held env w)"
    by (simp add: yfs_clients_def w_acquire_law)
next
  fix w :: world and lid :: lockid
  assume "w_inv env w" "lid \<in> w_held env w"
  then show "\<exists>w'. c_release (yfs_clients env) lid w = Some (Inr (w', lk_OK)) \<and> w_inv env w' \<and> w_content w' = w_content w \<and>
      w_held env w' = w_held env w - {lid}"
    by (simp add: yfs_clients_def w_release_law)
next
  fix w :: world and eid :: u64 and c b :: string
  assume a: "w_inv env w" "w_content w (ext_key eid) = Some c" "length c < ext_limit"
  obtain es where "es_get (e_clock env (w_tick w)) (w_ext w) eid [] = Inr (es, ext_OK, c)" "content es = content (w_ext w)"
    using es.get_found [of "w_ext w" eid c "e_clock env (w_tick w)" "[]"] a(2) by (auto simp: w_content_def)
  with a show "\<exists>w'. c_get (yfs_clients env) eid b w = Inr (w', ext_OK, c) \<and> w_inv env w' \<and> w_content w' = w_content w \<and> w_held env w' = w_held env w"
    using ec_get_direct status_nonneg(1) by (intro exI [of _ "after_ext w es"]) (simp add: yfs_clients_def w_content_def)
next
  fix w :: world and eid :: u64 and b :: string
  assume a: "w_inv env w" "w_content w (ext_key eid) = None"
  obtain es where "es_get (e_clock env (w_tick w)) (w_ext w) eid [] = Inr (es, ext_NOENT, [])" "content es = content (w_ext w)"
    using es.get_law [of "e_clock env (w_tick w)" "w_ext w" eid "[]"] a(2) by (auto simp: w_content_def)
  with a show "\<exists>w'. c_get (yfs_clients env) eid b w = Inr (w', ext_NOENT, []) \<and> w_inv env w' \<and> w_content w' = w_content w \<and> w_held env w' = w_held env w"
    using ec_get_direct status_nonneg(2) by (intro exI [of _ "after_ext w es"]) (simp add: yfs_clients_def w_content_def ext_limit_def)
next
  fix w :: world and eid :: u64 and b :: string
  assume a: "w_inv env w" "length b < ext_limit"
  obtain es where "es_put (e_clock env (w_tick w)) (w_ext w) eid b 0 = Inr (es, ext_OK, 0)" "content es = (content (w_ext w))(ext_key eid \<mapsto> b)"
    using es.put_law [of "e_clock env (w_tick w)" "w_ext w" eid b 0] by blast
  with a show "\<exists>w'. c_put (yfs_clients env) eid b w = Inr (w', ext_OK) \<and> w_inv env w' \<and> w_content w' = (w_content w)(ext_key eid \<mapsto> b) \<and>
      w_held env w' = w_held env w"
    using ec_put_direct status_nonneg(1) by (intro exI [of _ "after_ext w es"]) (simp add: yfs_clients_def drop_reply_def w_content_def)
next
  fix w :: world and eid :: u64
  assume a: "w_inv env w" "w_content w (ext_key eid) \<noteq> None"
  obtain es where "es_remove (w_ext w) eid 0 = Inr (es, ext_OK, 0)" "content es = (content (w_ext w))(ext_key eid := None)"
    using es.remove_law [of "w_ext w" eid 0] a(2) by (auto simp: w_content_def)
  with a show "\<exists>w'. c_remove (yfs_clients env) eid w = Inr (w', ext_OK) \<and> w_inv env w' \<and> w_content w' = (w_content w)(ext_key eid := None) \<and>
      w_held env w' = w_held env w"
    using ec_remove_direct status_nonneg(1) by (intro exI [of _ "after_ext w es"]) (simp add: yfs_clients_def drop_reply_def w_content_def)
next
  fix w :: world and eid :: u64 and a :: attr
  assume a: "w_inv env w" "w_content w (ext_key eid) \<noteq> None"
  obtain a' where "es_getattr (w_ext w) eid no_attr = Inr (w_ext w, ext_OK, a')" using a(2) by (auto simp: es_getattr_def w_content_def content_def)
  with a show "\<exists>w' a'. c_getattr (yfs_clients env) eid a w = Inr (w', ext_OK, a') \<and> w_inv env w' \<and> w_content w' = w_content w \<and>
      w_held env w' = w_held env w"
    using ec_getattr_direct status_nonneg(1)
    by (intro exI [of _ "after_ext w (w_ext w)"] exI [of _ a']) (simp add: yfs_clients_def w_content_def)
next
  fix w :: world and eid :: u64 and c b :: string and n off :: u32
  assume a: "w_inv env w" "w_content w (ext_key eid) = Some c" "unat off < length c" "unat n < ext_limit"
  obtain es where "es_getbuf (e_clock env (w_tick w)) (w_ext w) eid n off [] = Inr (es, ext_OK, take (unat n) (drop (unat off) c))"
      "content es = content (w_ext w)"
    using es.getbuf_law [of "w_ext w" eid c "e_clock env (w_tick w)" n off "[]"] a(2,3) by (auto simp: w_content_def)
  with a show "\<exists>w'. c_getbuf (yfs_clients env) eid n off b w = Inr (w', ext_OK, take (unat n) (drop (unat off) c)) \<and> w_inv env w' \<and>
      w_content w' = w_content w \<and> w_held env w' = w_held env w"
    using ec_getbuf_direct status_nonneg(1) by (intro exI [of _ "after_ext w es"]) (simp add: yfs_clients_def w_content_def)
next
  fix w :: world and eid :: u64 and c b :: string and off :: u32
  assume a: "w_inv env w" "w_content w (ext_key eid) = Some c" "length b < ext_limit" "unat off + length b < 2 ^ 32"
    "unat off + length b \<le> e_mx env" "length c \<le> e_mx env"
  obtain es where "es_putbuf (e_mx env) (e_clock env (w_tick w)) (w_ext w) eid off b 0 = Inr (es, ext_OK, 0)"
      "content es = (content (w_ext w))(ext_key eid \<mapsto> pwrite (unat off) b c)"
    using es.putbuf_law [of "w_ext w" eid c off b "e_mx env" "e_clock env (w_tick w)" 0] a by (auto simp: w_content_def)
  with a show "\<exists>w'. c_putbuf (yfs_clients env) eid off b w = Inr (w', ext_OK) \<and> w_inv env w' \<and>
      w_content w' = (w_content w)(ext_key eid \<mapsto> pwrite (unat off) b c) \<and> w_held env w' = w_held env w"
    using ec_putbuf_direct status_nonneg(1) by (intro exI [of _ "after_ext w es"]) (simp add: yfs_clients_def drop_reply_def w_content_def)
qed

section \<open>Properties\<close>

text \<open>Directory \<open>p\<close> holds the entries \<open>d\<close>; the process is in a state with contents \<open>c\<close> and the locks it had in \<open>y\<close>.\<close>

definition w_dir :: "world \<Rightarrow> u64 \<Rightarrow> dir \<Rightarrow> bool" where
  "w_dir w p d \<longleftrightarrow> w_content w (ext_key p) = Some (render d) \<and> clean_dir d \<and> length (render d) < ext_limit"

definition w_moves :: "env \<Rightarrow> world yfs \<Rightarrow> (u32 \<Rightarrow> string option) \<Rightarrow> world yfs \<Rightarrow> bool" where
  "w_moves env y c y' \<longleftrightarrow> w_inv env (yw y') \<and> w_content (yw y') = c \<and> w_held env (yw y') = w_held env (yw y)"

lemma w_dir_at: "w_dir w p d \<longleftrightarrow> yw.dir_at w p d"
  by (simp add: w_dir_def yw.dir_at_def)

lemma moves_w_moves: "yw.moves env y c k y' \<Longrightarrow> w_moves env y c y'"
  by (simp add: yw.moves_def w_moves_def)


text \<open>A fresh file system: the extent server has just started, with an empty root directory, and no lock was ever asked for.\<close>

definition w_new :: "u32 \<Rightarrow> world" where
  "w_new now = \<lparr>w_ext = (case es_new now of Inr es \<Rightarrow> es | Inl _ \<Rightarrow> Map.empty), w_tick = 0, w_ls = lsc_new 0, w_cc = lcc_new\<rparr>"

definition demo_env :: env where
  "demo_env = \<lparr>e_mx = 1000000, e_clock = (\<lambda>k. of_nat (1000 + k)),
     e_hdr = \<lparr>h_xid = 3, h_proc = 0, h_clt_nonce = 9, h_srv_nonce = 0, h_xid_rep = 2\<rparr>, e_me = 1, e_id = ''127.0.0.1:1025''\<rparr>"

definition demo_yfs :: "world yfs" where
  "demo_yfs = \<lparr>yw = w_new 1000, yrnd = (\<lambda>k. of_nat (5 + k)), ypos = 0\<rparr>"

lemma w_new_inv:
  assumes "length (e_id env) < ext_limit"
  shows "w_inv env (w_new now)" "w_held env (w_new now) = {}" "w_dir (w_new now) 1 []"
  using assms
  by (simp_all add: w_inv_def w_new_def w_held_def hold_def lcc_new_def lsc_new_def lock_at_def w_dir_def w_content_def es_new_def es_put_def
      ext_limit_def)

lemma demo_yfs_inv:
  "w_inv demo_env (yw demo_yfs)" "w_held demo_env (yw demo_yfs) = {}" "w_dir (yw demo_yfs) 1 []"
  using w_new_inv [of demo_env 1000] by (simp_all add: demo_yfs_def demo_env_def ext_limit_def)



lemma demo_draw: "new_inum (yrnd demo_yfs) (ypos demo_yfs) 1 True = Some (2147483653, 1)"
  by (subst new_inum.simps) (simp add: demo_yfs_def word_le_nat_alt)




end
