(* ===== verification/Lock_Tester.thy ===== *)
theory Lock_Tester
  imports Yfs_World
begin

text \<open>
  The checks of \<^verbatim>\<open>src/lock_tester.cc\<close>. \<^verbatim>\<open>test1\<close> is run through the caching lock client, the marshalling and the caching
  lock server as put together in \<open>Yfs_World\<close>; \<^verbatim>\<open>test4\<close>, the threads of which share one client, is run as an interleaving
  of the steps of \<open>Lock_Client_Cache\<close>. A failed check, for which the tester exits, is the fault \<open>Verify_Failed\<close>.
\<close>

section \<open>The counters\<close>

type_synonym counters = "nat \<Rightarrow> int"

definition ct_index :: "lockid \<Rightarrow> nat" where
  "ct_index lid = unat (lid AND 0xff)"

definition check_grant :: "lockid \<Rightarrow> counters \<Rightarrow> fault + counters" where
  "check_grant lid ct =
     (let x = ct_index lid in if ct x \<noteq> 0 then Inl Verify_Failed else Inr (ct(x := ct x + 1)))"

definition check_release :: "lockid \<Rightarrow> counters \<Rightarrow> fault + counters" where
  "check_release lid ct =
     (let x = ct_index lid in if ct x \<noteq> 1 then Inl Verify_Failed else Inr (ct(x := ct x - 1)))"

definition lock_a :: lockid where "lock_a = 1"
definition lock_b :: lockid where "lock_b = 2"

section \<open>One thread\<close>

definition t_acquire :: "env \<Rightarrow> lockid \<Rightarrow> (world \<times> counters, u32) act" where
  "t_acquire env lid x = map_option (\<lambda>r. rbind r (\<lambda>(w, st). Inr ((w, snd x), st))) (w_acquire env lid (fst x))"

definition t_release :: "env \<Rightarrow> lockid \<Rightarrow> (world \<times> counters, u32) act" where
  "t_release env lid x = map_option (\<lambda>r. rbind r (\<lambda>(w, st). Inr ((w, snd x), st))) (w_release env lid (fst x))"

definition t_check :: "(counters \<Rightarrow> fault + counters) \<Rightarrow> (world \<times> counters, unit) act" where
  "t_check f x = Some (rbind (f (snd x)) (\<lambda>ct. Inr ((fst x, ct), ())))"

definition test1 :: "env \<Rightarrow> (world \<times> counters, unit) act" where
  "test1 env =
     abind (t_acquire env lock_a) (\<lambda>_. abind (t_check (check_grant lock_a)) (\<lambda>_.
     abind (t_release env lock_a) (\<lambda>_. abind (t_check (check_release lock_a)) (\<lambda>_.
     abind (t_acquire env lock_a) (\<lambda>_. abind (t_check (check_grant lock_a)) (\<lambda>_.
     abind (t_release env lock_a) (\<lambda>_. abind (t_check (check_release lock_a)) (\<lambda>_.
     abind (t_acquire env lock_a) (\<lambda>_. abind (t_check (check_grant lock_a)) (\<lambda>_.
     abind (t_acquire env lock_b) (\<lambda>_. abind (t_check (check_grant lock_b)) (\<lambda>_.
     abind (t_release env lock_b) (\<lambda>_. abind (t_check (check_release lock_b)) (\<lambda>_.
     abind (t_release env lock_a) (\<lambda>_. abind (t_check (check_release lock_a)) aret)))))))))))))))"

definition holds_locks :: "env \<Rightarrow> lockid set \<Rightarrow> world \<Rightarrow> bool" where
  "holds_locks env H w \<longleftrightarrow> w_inv env w \<and> w_held env w = H"

lemma take_step:
  assumes "holds_locks env H w" "lid \<notin> H" "ct (ct_index lid) = 0"
    and "\<And>w'. holds_locks env (insert lid H) w' \<Longrightarrow> \<exists>y. f () (w', ct(ct_index lid := 1)) = Some (Inr (y, ()))"
  shows "\<exists>y. abind (t_acquire env lid) (\<lambda>_. abind (t_check (check_grant lid)) f) (w, ct) = Some (Inr (y, ()))"
proof -
  obtain w' where "w_acquire env lid w = Some (Inr (w', lk_OK))" "holds_locks env (insert lid H) w'"
    using w_acquire_law [of env w lid] assms(1,2) by (auto simp: holds_locks_def)
  with assms(3) assms(4) [of w'] show ?thesis by (simp add: t_acquire_def t_check_def check_grant_def abind_def)
qed

lemma give_step:
  assumes "holds_locks env H w" "lid \<in> H" "ct (ct_index lid) = 1"
    and "\<And>w'. holds_locks env (H - {lid}) w' \<Longrightarrow> \<exists>y. f () (w', ct(ct_index lid := 0)) = Some (Inr (y, ()))"
  shows "\<exists>y. abind (t_release env lid) (\<lambda>_. abind (t_check (check_release lid)) f) (w, ct) = Some (Inr (y, ()))"
proof -
  obtain w' where "w_release env lid w = Some (Inr (w', lk_OK))" "holds_locks env (H - {lid}) w'"
    using w_release_law [of env w lid] assms(1,2) by (auto simp: holds_locks_def)
  with assms(3) assms(4) [of w'] show ?thesis by (simp add: t_release_def t_check_def check_release_def abind_def)
qed

lemma test1_passes:
  assumes "w_inv env w" "w_held env w = {}"
  shows "\<exists>y. test1 env (w, \<lambda>_. 0) = Some (Inr (y, ()))"
proof -
  have [simp]: "lock_b \<noteq> lock_a" "lock_a \<noteq> lock_b" "ct_index lock_b \<noteq> ct_index lock_a" "ct_index lock_a \<noteq> ct_index lock_b" by (simp_all add: lock_a_def lock_b_def ct_index_def)
  have h: "holds_locks env {} w" using assms by (simp add: holds_locks_def)
  show ?thesis
    unfolding test1_def
    apply (rule take_step [OF h], simp, simp)
    apply (erule give_step, simp, simp)
    apply (erule take_step, simp, simp)
    apply (erule give_step, simp, simp)
    apply (erule take_step, simp, simp)
    apply (erule take_step, simp, simp)
    apply (erule give_step, simp, simp)
    apply (erule give_step, simp, simp)
    apply (simp add: aret_def)
    done
qed


section \<open>Threads that share a client\<close>

text \<open>
  A thread of \<^verbatim>\<open>test4\<close>: where it is in the body of its loop, and how many rounds it has done. The steps of the client
  are those of \<open>Lock_Client_Cache\<close>; a thread of the test does not run the handlers of the client while it is between
  \<^verbatim>\<open>acquire\<close> and \<^verbatim>\<open>release\<close>. An event that its thread cannot perform where it is has no effect.
\<close>

datatype t4_stage = At_Acquire | Got_Lock | Counted | At_Release

record tester =
  t4_cc :: lock_client_cache
  t4_ct :: counters
  t4_stage :: "nat \<Rightarrow> t4_stage"
  t4_round :: "nat \<Rightarrow> nat"

datatype t4_event = T4_Acquire nat | T4_Grant nat | T4_Check nat | T4_Release nat | T4_Client cc_event

definition t4_new :: tester where
  "t4_new = \<lparr>t4_cc = lcc_new, t4_ct = (\<lambda>_. 0), t4_stage = (\<lambda>_. At_Acquire), t4_round = (\<lambda>_. 0)\<rparr>"

text \<open>What a thread does when its \<^verbatim>\<open>acquire\<close> or \<^verbatim>\<open>release\<close> of the lock \<^verbatim>\<open>a\<close> has returned.\<close>

fun t4_note :: "cc_obs list \<Rightarrow> tester \<Rightarrow> tester" where
  "t4_note [] x = x"
| "t4_note (Got t lid # os) x = t4_note os (if lid = lock_a then x\<lparr>t4_stage := (t4_stage x)(t := Got_Lock)\<rparr> else x)"
| "t4_note (Freed t lid # os) x =
     t4_note os (if lid = lock_a then x\<lparr>t4_stage := (t4_stage x)(t := At_Acquire), t4_round := (t4_round x)(t := t4_round x t + 1)\<rparr> else x)"

definition t4_client :: "cc_event \<Rightarrow> tester \<Rightarrow> fault + tester" where
  "t4_client e x = rbind (cc_exec e (t4_cc x)) (\<lambda>(cc, os). Inr (t4_note os (x\<lparr>t4_cc := cc\<rparr>)))"

fun free_to_run :: "cc_event \<Rightarrow> tester \<Rightarrow> bool" where
  "free_to_run (Cc_Acquire t lid) x = False"
| "free_to_run (Cc_Release t lid) x = False"
| "free_to_run (Cc_Revoke t lid) x = (t4_stage x t = At_Acquire)"
| "free_to_run (Cc_Rls_Begin t) x = (t4_stage x t = At_Acquire)"
| "free_to_run e x = True"

fun test4 :: "t4_event \<Rightarrow> tester \<Rightarrow> fault + tester" where
  "test4 (T4_Acquire t) x =
     (if t4_stage x t = At_Acquire \<and> t4_round x t < 10 then t4_client (Cc_Acquire t lock_a) x else Inr x)"
| "test4 (T4_Grant t) x =
     (if t4_stage x t = Got_Lock
      then rbind (check_grant lock_a (t4_ct x)) (\<lambda>ct. Inr (x\<lparr>t4_ct := ct, t4_stage := (t4_stage x)(t := Counted)\<rparr>)) else Inr x)"
| "test4 (T4_Check t) x =
     (if t4_stage x t = Counted
      then rbind (check_release lock_a (t4_ct x)) (\<lambda>ct. Inr (x\<lparr>t4_ct := ct, t4_stage := (t4_stage x)(t := At_Release)\<rparr>)) else Inr x)"
| "test4 (T4_Release t) x = (if t4_stage x t = At_Release then t4_client (Cc_Release t lock_a) x else Inr x)"
| "test4 (T4_Client e) x = (if free_to_run e x then t4_client e x else Inr x)"

fun test4_run :: "t4_event list \<Rightarrow> tester \<Rightarrow> fault + tester" where
  "test4_run [] x = Inr x"
| "test4_run (e # es) x = rbind (test4 e x) (test4_run es)"

text \<open>The server keeps to what the client relies on.\<close>

definition t4_fine :: "t4_event \<Rightarrow> tester \<Rightarrow> bool" where
  "t4_fine e x = (case e of T4_Client e' \<Rightarrow> cc_fine e' (t4_cc x) | _ \<Rightarrow> True)"

fun t4_fine_run :: "t4_event list \<Rightarrow> tester \<Rightarrow> bool" where
  "t4_fine_run [] x = True"
| "t4_fine_run (e # es) x = (t4_fine e x \<and> (case test4 e x of Inl _ \<Rightarrow> True | Inr x' \<Rightarrow> t4_fine_run es x'))"

definition t4_inv :: "tester \<Rightarrow> bool" where
  "t4_inv x \<longleftrightarrow> cc_inv (t4_cc x) \<and>
     (\<forall>t. t4_stage x t \<noteq> At_Acquire \<longleftrightarrow> hold (t4_cc x) lock_a = Some t) \<and>
     (\<forall>t. t4_stage x t \<noteq> At_Acquire \<longrightarrow> lc_threads (t4_cc x) t = Out) \<and>
     t4_ct x (ct_index lock_a) = (if \<exists>t. t4_stage x t = Counted then 1 else 0)"

text \<open>The thread an event belongs to.\<close>

fun actor :: "cc_event \<Rightarrow> nat option" where
  "actor (Cc_Acquire t lid) = Some t" | "actor (Cc_Queue_Wake t) = Some t" | "actor (Cc_Reply t ret) = Some t"
| "actor (Cc_Release t lid) = Some t" | "actor (Cc_Revoke t lid) = Some t" | "actor (Cc_Revoke_Wake t) = Some t"
| "actor (Cc_Retry lid) = None" | "actor (Cc_Releaser room) = None" | "actor (Cc_Rls_Begin t) = Some t"
| "actor (Cc_Rls_Wake t) = Some t" | "actor (Cc_Rls_Reply t ret) = Some t"

lemmas cc_all_defs = got_def cc_acquire_def cc_acquire_wake_def cc_acquire_reply_def acquire_retry_wait_def acquire_done_def acquire_none_def
  cc_release_def revoke_handler_def revoke_wake_def revoke_loop_def retry_handler_def releaser_pass_def releaser_rpc_def releaser_send_def
  releaser_rpc_wake_def releaser_rpc_reply_def goto_def set_clock_def signal_def Let_def

lemma others_stay:
  assumes "cc_exec e s = Inr (s', os)" "actor e \<noteq> Some t"
  shows "lc_threads s' t = lc_threads s t"
  using assms
  by (cases e) (auto simp: cc_all_defs rbind_eq_Inr verify_def split: if_splits option.splits cc_pc.splits list.splits cstate.splits)

lemma observed:
  assumes "cc_exec e s = Inr (s', os)"
  shows "os = [] \<or> (\<exists>t lid. actor e = Some t \<and> lc_threads s' t = Out \<and> (os = [Got t lid] \<or> (e = Cc_Release t lid \<and> os = [Freed t lid])))"
  using assms
  by (cases e) (auto simp: cc_all_defs rbind_eq_Inr verify_def split: if_splits option.splits cc_pc.splits list.splits cstate.splits)


lemma t4_alone:
  assumes "t4_inv x" "t4_stage x t \<noteq> At_Acquire" "k \<noteq> t"
  shows "t4_stage x k = At_Acquire"
proof (rule ccontr)
  assume "t4_stage x k \<noteq> At_Acquire"
  then have "hold (t4_cc x) lock_a = Some k" "hold (t4_cc x) lock_a = Some t" using assms(1,2) by (simp_all add: t4_inv_def)
  then show False using assms(3) by simp
qed

lemma not_counted:
  assumes "t4_inv x" "t4_stage x t \<noteq> At_Acquire" "t4_stage x t \<noteq> Counted"
  shows "t4_stage x k \<noteq> Counted"
  using t4_alone [OF assms(1,2), of k] assms(3) by (cases "k = t") auto

lemma client_step:
  assumes inv: "t4_inv x" and fine: "cc_fine e (t4_cc x)"
    and who: "\<And>t. actor e = Some t \<Longrightarrow> t4_stage x t = At_Acquire \<or> cc_exec e (t4_cc x) = Inr (t4_cc x, []) \<or>
      (e = Cc_Release t lock_a \<and> t4_stage x t = At_Release)"
  shows "\<exists>x'. t4_client e x = Inr x' \<and> t4_inv x'"
proof -
  note I = inv [unfolded t4_inv_def]
  obtain s os where s: "cc_exec e (t4_cc x) = Inr (s, os)" "cc_inv s" "excl lock_a os (hold (t4_cc x) lock_a) = Some (hold s lock_a)"
    using cc_step_good [of "t4_cc x" e] I fine by (auto simp: cc_good_def cc_next_def)
  define x' where "x' = t4_note os (x\<lparr>t4_cc := s\<rparr>)"
  have r: "t4_client e x = Inr x'" by (simp add: t4_client_def s(1) x'_def)
  have stay: "lc_threads s t = Out" if "t4_stage x t \<noteq> At_Acquire" for t
  proof (cases "actor e = Some t")
    case True
    with who [OF True] that I have "cc_exec e (t4_cc x) = Inr (t4_cc x, []) \<or> e = Cc_Release t lock_a" by auto
    then show ?thesis
    proof
      assume "cc_exec e (t4_cc x) = Inr (t4_cc x, [])"
      then show ?thesis using s(1) that I by auto
    next
      assume "e = Cc_Release t lock_a"
      then show ?thesis using s(1) that I by (auto simp: cc_all_defs split: option.splits if_splits)
    qed
  next
    case False
    then show ?thesis using others_stay [OF s(1) False] that I by auto
  qed
  consider "os = []" | t lid where "actor e = Some t" "lc_threads s t = Out" "os = [Got t lid]"
    | t lid where "e = Cc_Release t lid" "os = [Freed t lid]" "lc_threads s t = Out" using observed [OF s(1)] by blast
  then have "t4_inv x'"
  proof cases
    case 1
    then show ?thesis using I s(2,3) stay by (auto simp: t4_inv_def x'_def)
  next
    case (2 t lid)
    show ?thesis
    proof (cases "lid = lock_a")
      case True
      have a: "t4_stage x t = At_Acquire" using who [OF 2(1)] 2(3) s(1) by (auto split: if_splits)
      then have "hold (t4_cc x) lock_a \<noteq> Some t" using I by blast
      with s(3) 2(3) True have h: "hold (t4_cc x) lock_a = None" "hold s lock_a = Some t" by (auto split: if_splits)
      then have all: "t4_stage x k = At_Acquire" for k using I by auto
      then show ?thesis using I s(2) h 2 True by (auto simp: t4_inv_def x'_def)
    next
      case False
      then show ?thesis using I s(2,3) stay 2(3) by (auto simp: t4_inv_def x'_def)
    qed
  next
    case (3 t lid)
    show ?thesis
    proof (cases "lid = lock_a")
      case True
      with s(3) 3(2) have h: "hold (t4_cc x) lock_a = Some t" "hold s lock_a = None" by (auto split: if_splits)
      then have others: "t4_stage x k = At_Acquire" if "k \<noteq> t" for k using I that by auto
      have "t4_stage x t \<noteq> At_Acquire" using I h by blast
      with who [of t] 3 s(1) True have "t4_stage x t = At_Release" by auto
      moreover from this have "t4_stage x k \<noteq> Counted" for k using not_counted [OF inv, of t k] by simp
      ultimately show ?thesis using I s(2) h 3 True others by (auto simp: t4_inv_def x'_def)
    next
      case False
      then show ?thesis using I s(2,3) stay 3(2) by (auto simp: t4_inv_def x'_def)
    qed
  qed
  with r show ?thesis by blast
qed

lemma test4_step:
  assumes inv: "t4_inv x" and fine: "t4_fine e x"
  shows "\<exists>x'. test4 e x = Inr x' \<and> t4_inv x'"
proof (cases e)
  case (T4_Acquire t)
  then show ?thesis using inv client_step [OF inv, of "Cc_Acquire t lock_a"] by (auto simp: cc_fine_def)
next
  case (T4_Release t)
  then show ?thesis using inv client_step [OF inv, of "Cc_Release t lock_a"] by (auto simp: cc_fine_def)
next
  case (T4_Client c)
  have out: "lc_threads (t4_cc x) t = Out" if "t4_stage x t \<noteq> At_Acquire" for t using inv that by (simp add: t4_inv_def)
  have "t4_stage x t = At_Acquire \<or> cc_exec c (t4_cc x) = Inr (t4_cc x, [])" if "free_to_run c x" "actor c = Some t" for t
  proof (cases "t4_stage x t = At_Acquire")
    case False
    then show ?thesis using that out [OF False] by (cases c) auto
  qed simp
  then show ?thesis using inv fine client_step [OF inv, of c] T4_Client by (auto simp: t4_fine_def)
next
  case (T4_Grant t)
  show ?thesis
  proof (cases "t4_stage x t = Got_Lock")
    case True
    have "\<not> (\<exists>k. t4_stage x k = Counted)" using not_counted [OF inv, of t] True by simp
    then have "t4_ct x (ct_index lock_a) = 0" using inv by (simp add: t4_inv_def)
    then show ?thesis using inv True T4_Grant by (auto simp: t4_inv_def check_grant_def)
  qed (use inv T4_Grant in simp)
next
  case (T4_Check t)
  show ?thesis
  proof (cases "t4_stage x t = Counted")
    case True
    have one: "t4_stage x k = At_Acquire" if "k \<noteq> t" for k using t4_alone [OF inv _ that] True by simp
    have "t4_ct x (ct_index lock_a) = 1" using inv True by (auto simp: t4_inv_def)
    then show ?thesis using inv True T4_Check one by (auto simp: t4_inv_def check_release_def)
  qed (use inv T4_Check in simp)
qed

lemma t4_inv_new: "t4_inv t4_new"
  by (simp add: t4_inv_def t4_new_def cc_inv_def lcc_new_def clock_inv_def hold_def)

lemma test4_run_inv: "t4_inv x \<Longrightarrow> t4_fine_run es x \<Longrightarrow> \<exists>x'. test4_run es x = Inr x' \<and> t4_inv x'"
proof (induction es arbitrary: x)
  case (Cons e es)
  then obtain x1 where "test4 e x = Inr x1" "t4_inv x1" using test4_step [of x e] by auto
  with Cons show ?case by auto
qed simp


section \<open>The tests pass\<close>

text \<open>
  C23. The tester of the locks passes. \<^verbatim>\<open>test1\<close>, run through the caching client, the marshalling and the caching server from
  any state in which the client holds no lock, ends without a failed check. In \<^verbatim>\<open>test4\<close>, for any number of threads that
  share a client and every interleaving of them with the handlers and the releaser of the client, no check fails and
  no \<^verbatim>\<open>VERIFY\<close> of the client does, with a server that keeps to what the client relies on.
\<close>

theorem lock_tester_passes:
  assumes "w_inv env w" "w_held env w = {}" "t4_fine_run es t4_new"
  shows "(\<exists>y. test1 env (w, \<lambda>_. 0) = Some (Inr (y, ()))) \<and> (\<exists>x. test4_run es t4_new = Inr x)"
  using test1_passes [OF assms(1,2)] test4_run_inv [OF t4_inv_new assms(3)] by blast

definition test4_demo :: "t4_event list" where
  "test4_demo = [T4_Acquire 1, T4_Client (Cc_Reply 1 0), T4_Grant 1, T4_Acquire 2, T4_Check 1, T4_Release 1,
     T4_Client (Cc_Queue_Wake 2), T4_Grant 2, T4_Check 2, T4_Release 2]"

theorem lock_tester_passes_witness:
  "(\<exists>y. test1 demo_env (w_new 1000, \<lambda>_. 0) = Some (Inr (y, ()))) \<and> (\<exists>x. test4_run test4_demo t4_new = Inr x)"
proof (rule lock_tester_passes)
  show "w_inv demo_env (w_new 1000)" "w_held demo_env (w_new 1000) = {}"
    using demo_yfs_inv(1,2) by (simp_all add: demo_yfs_def)
  show "t4_fine_run test4_demo t4_new"
    by (simp add: test4_demo_def t4_new_def t4_client_def cc_all_defs lcc_new_def clock_new_def t4_fine_def cc_fine_def
        state_of_def lk_OK_def lk_RETRY_def check_grant_def check_release_def)
qed

end
