(* ===== verification/Fuse.thy ===== *)
theory Fuse
  imports Yfs_World
begin

text \<open>
  The handlers of \<^verbatim>\<open>src/fuse.cc\<close>, which turn the requests of the kernel into calls of \<open>Yfs_Client\<close>. A handler is an action whose
  result is the list of the replies it sends with the \<^verbatim>\<open>fuse_reply\<close> functions; libfuse expects exactly one per request.
  A \<^verbatim>\<open>fuse_ino_t\<close> is an \<^verbatim>\<open>unsigned long\<close> of 32 bits. What an uninitialised local variable holds is an argument.
\<close>

section \<open>Definitions\<close>

datatype errno = No_Error | ENOENT | EIO | EISDIR | ENOTDIR | EEXIST | ENOSYS

datatype st_mode = No_Mode | Reg_0666 | Dir_0777

record stat =
  st_ino :: u64
  st_mode :: st_mode
  st_nlink :: u32
  st_atime :: u32
  st_mtime :: u32
  st_ctime :: u32
  st_size :: u64

record entry_param =
  ep_ino :: u32
  ep_attr :: stat
  ep_generation :: u32
  ep_attr_timeout :: nat
  ep_entry_timeout :: nat

datatype reply =
    Reply_Err errno
  | Reply_Attr stat
  | Reply_Buf "char option list"      \<comment> \<open>\<open>None\<close> for a byte of the buffer that was never written\<close>
  | Reply_Write u32
  | Reply_Entry entry_param
  | Reply_Create entry_param
  | Reply_Open
  | Reply_Statfs u32 u32              \<comment> \<open>\<^verbatim>\<open>f_namemax\<close> and \<^verbatim>\<open>f_bsize\<close>\<close>

definition stat_zero :: stat where
  "stat_zero = \<lparr>st_ino = 0, st_mode = No_Mode, st_nlink = 0, st_atime = 0, st_mtime = 0, st_ctime = 0, st_size = 0\<rparr>"

text \<open>The locals that the code leaves uninitialised.\<close>

record junk =
  j_attr :: attr
  j_file :: fileinfo
  j_dir :: dirinfo
  j_inum :: u64
  j_size :: u32
  j_stat :: stat

definition fuse_getattr :: "'w clients \<Rightarrow> junk \<Rightarrow> u64 \<Rightarrow> ('w yfs, u32 \<times> stat) act" where
  "fuse_getattr cl j inum =
     (let st = stat_zero\<lparr>st_ino := inum\<rparr>
      in if yfs_isfile inum then
           abind (yfs_getfile cl (j_attr j) inum (j_file j)) (\<lambda>(ret, info).
             if ret \<noteq> y_OK then aret (ret, st)
             else aret (y_OK, st\<lparr>st_mode := Reg_0666, st_nlink := 1, st_atime := fi_atime info, st_mtime := fi_mtime info,
                    st_ctime := fi_ctime info, st_size := fi_size info\<rparr>))
         else
           abind (yfs_getdir cl (j_attr j) inum (j_dir j)) (\<lambda>(ret, info).
             if ret \<noteq> y_OK then aret (ret, st)
             else aret (y_OK, st\<lparr>st_mode := Dir_0777, st_nlink := 2, st_atime := di_atime info, st_mtime := di_mtime info,
                    st_ctime := di_ctime info\<rparr>)))"

definition fuseserver_getattr :: "'w clients \<Rightarrow> junk \<Rightarrow> u32 \<Rightarrow> ('w yfs, reply list) act" where
  "fuseserver_getattr cl j ino =
     abind (fuse_getattr cl j (ucast ino)) (\<lambda>(ret, st).
       if ret \<noteq> y_OK then aret [Reply_Err ENOENT] else aret [Reply_Attr st])"

text \<open>\<open>set_size\<close> is the bit \<^verbatim>\<open>FUSE_SET_ATTR_SIZE\<close> of \<^verbatim>\<open>to_set\<close>. The \<^verbatim>\<open>else\<close> with EIO belongs to the inner \<^verbatim>\<open>if\<close>.\<close>

definition fuseserver_setattr :: "nat \<Rightarrow> 'w clients \<Rightarrow> junk \<Rightarrow> u32 \<Rightarrow> u64 \<Rightarrow> bool \<Rightarrow> ('w yfs, reply list) act" where
  "fuseserver_setattr mx cl j ino new_size set_size =
     (if set_size then
        (if yfs_isfile (ucast ino) then
           abind (yfs_resize mx cl (ucast ino) (ucast new_size)) (\<lambda>r.
             if r = y_OK then
               abind (fuse_getattr cl j (ucast ino)) (\<lambda>(r, st). aret (if r = y_OK then [Reply_Attr st] else [Reply_Err EIO]))
             else aret [])
         else aret [Reply_Err EISDIR])
      else aret [Reply_Err ENOSYS])"

text \<open>The reply to a read has \<open>sz\<close> bytes, whatever number of them \<^verbatim>\<open>yfs->read\<close> has filled.\<close>

definition read_buffer :: "u32 \<Rightarrow> string \<Rightarrow> char option list" where
  "read_buffer sz b = map Some b @ replicate (unat sz - length b) None"

definition fuseserver_read :: "'w clients \<Rightarrow> junk \<Rightarrow> u32 \<Rightarrow> u32 \<Rightarrow> u64 \<Rightarrow> ('w yfs, reply list) act" where
  "fuseserver_read cl j ino sz off =
     (if yfs_isfile (ucast ino) then
        abind (yfs_getfile cl (j_attr j) (ucast ino) (j_file j)) (\<lambda>(r, _).
          if r = y_OK then
            abind (yfs_read cl (ucast ino) sz off) (\<lambda>(r, tmp).
              aret (if r = y_OK then [Reply_Buf (read_buffer sz (case tmp of None \<Rightarrow> [] | Some b \<Rightarrow> b))] else [Reply_Err EIO]))
          else aret [Reply_Err EIO])
      else aret [Reply_Err EISDIR])"

definition fuseserver_write :: "'w clients \<Rightarrow> junk \<Rightarrow> u32 \<Rightarrow> string \<Rightarrow> u64 \<Rightarrow> ('w yfs, reply list) act" where
  "fuseserver_write cl j ino buf off =
     (if yfs_isfile (ucast ino) then
        abind (yfs_write cl (ucast ino) buf off (j_size j)) (\<lambda>(r, written).
          aret (if r = y_OK then [Reply_Write written] else [Reply_Err EIO]))
      else aret [Reply_Err EISDIR])"

definition entry_new :: "junk \<Rightarrow> entry_param" where
  "entry_new j = \<lparr>ep_ino = 0, ep_attr = j_stat j, ep_generation = 0, ep_attr_timeout = 0, ep_entry_timeout = 0\<rparr>"

definition fuseserver_createhelper :: "'w clients \<Rightarrow> junk \<Rightarrow> u32 \<Rightarrow> string \<Rightarrow> ('w yfs, u32 \<times> entry_param) act" where
  "fuseserver_createhelper cl j parent name =
     abind (yfs_create cl (ucast parent) name (j_inum j)) (\<lambda>(r, i).
       if r = y_OK \<or> r = y_EXIST then
         abind (fuse_getattr cl j (ucast (ucast i :: u32))) (\<lambda>(r, st). aret (r, (entry_new j)\<lparr>ep_ino := ucast i, ep_attr := st\<rparr>))
       else aret (r, entry_new j))"

definition fuseserver_create :: "'w clients \<Rightarrow> junk \<Rightarrow> u32 \<Rightarrow> string \<Rightarrow> ('w yfs, reply list) act" where
  "fuseserver_create cl j parent name =
     abind (fuseserver_createhelper cl j parent name) (\<lambda>(ret, e).
       aret (if ret = y_OK then [Reply_Create e] else if ret = y_EXIST then [Reply_Err EEXIST] else [Reply_Err ENOENT]))"

definition fuseserver_mknod :: "'w clients \<Rightarrow> junk \<Rightarrow> u32 \<Rightarrow> string \<Rightarrow> ('w yfs, reply list) act" where
  "fuseserver_mknod cl j parent name =
     abind (fuseserver_createhelper cl j parent name) (\<lambda>(ret, e).
       aret (if ret = y_OK then [Reply_Entry e] else if ret = y_EXIST then [Reply_Err EEXIST] else [Reply_Err ENOENT]))"

definition fuseserver_lookup :: "'w clients \<Rightarrow> junk \<Rightarrow> u32 \<Rightarrow> string \<Rightarrow> ('w yfs, reply list) act" where
  "fuseserver_lookup cl j parent name =
     abind (yfs_lookup cl (ucast parent) name) (\<lambda>(ret, f).
       case (if ret = y_OK then f else None) of
         None \<Rightarrow> aret [Reply_Err ENOENT]
       | Some i \<Rightarrow>
           abind (fuse_getattr cl j (ucast (ucast i :: u32))) (\<lambda>(r, st).
             aret (if r = y_OK then [Reply_Entry ((entry_new j)\<lparr>ep_ino := ucast i, ep_attr := st\<rparr>)] else [Reply_Err ENOENT])))"

text \<open>
  The buffer of \<^verbatim>\<open>readdir\<close>. \<open>dirent name ino off\<close> are the bytes that libfuse writes for an entry, with the offset of the next
  entry, in \<^verbatim>\<open>fuse_dirent_size\<close> bytes; a name ends at its first null character for libfuse.
\<close>

definition c_str :: "string \<Rightarrow> string" where
  "c_str s = takeWhile (\<lambda>c. c \<noteq> CHR 0x00) s"

definition dirbuf_add :: "(nat \<Rightarrow> nat) \<Rightarrow> (string \<Rightarrow> u32 \<Rightarrow> u32 \<Rightarrow> string) \<Rightarrow> string \<times> u64 \<Rightarrow> string \<Rightarrow> string" where
  "dirbuf_add dsize dirent = (\<lambda>(name, ino) b.
     b @ dirent (c_str name) (ucast ino) (of_nat (length b + dsize (length (c_str name)))))"

definition reply_buf_limited :: "string \<Rightarrow> nat \<Rightarrow> u32 \<Rightarrow> reply" where
  "reply_buf_limited buf off maxsize =
     (if off < length buf then Reply_Buf (map Some (take (min (length buf - off) (unat maxsize)) (drop off buf))) else Reply_Buf [])"

definition fuseserver_readdir ::
  "(nat \<Rightarrow> nat) \<Rightarrow> (string \<Rightarrow> u32 \<Rightarrow> u32 \<Rightarrow> string) \<Rightarrow> 'w clients \<Rightarrow> u32 \<Rightarrow> u32 \<Rightarrow> nat \<Rightarrow> ('w yfs, reply list) act" where
  "fuseserver_readdir dsize dirent cl ino sz off =
     (if \<not> yfs_isdir (ucast ino) then aret [Reply_Err ENOTDIR]
      else abind (yfs_readir cl (ucast ino) []) (\<lambda>(r, dirents).
             aret [reply_buf_limited (if r = y_OK then fold (dirbuf_add dsize dirent) dirents [] else []) off sz]))"

definition fuseserver_open :: "('w yfs, reply list) act" where
  "fuseserver_open = aret [Reply_Open]"

text \<open>\<^verbatim>\<open>mkdir\<close> replies with the entry whatever \<^verbatim>\<open>getattr\<close> returned.\<close>

definition fuseserver_mkdir :: "'w clients \<Rightarrow> junk \<Rightarrow> u32 \<Rightarrow> string \<Rightarrow> ('w yfs, reply list) act" where
  "fuseserver_mkdir cl j parent name =
     abind (yfs_mkadir cl (ucast parent) name (j_inum j)) (\<lambda>(r, i).
       if r = y_OK then
         abind (fuse_getattr cl j (ucast (ucast i :: u32))) (\<lambda>(r, st). aret [Reply_Entry ((entry_new j)\<lparr>ep_ino := ucast i, ep_attr := st\<rparr>)])
       else if r = y_EXIST then aret [Reply_Err EEXIST]
       else if r = y_NOENT then aret [Reply_Err ENOENT]
       else aret [Reply_Err EIO])"

definition fuseserver_unlink :: "'w clients \<Rightarrow> u32 \<Rightarrow> string \<Rightarrow> ('w yfs, reply list) act" where
  "fuseserver_unlink cl parent name =
     abind (yfs_remove cl (ucast parent) name) (\<lambda>r. aret (if r = y_OK then [Reply_Err No_Error] else [Reply_Err ENOENT]))"

definition fuseserver_statfs :: "('w yfs, reply list) act" where
  "fuseserver_statfs = aret [Reply_Statfs 255 512]"

text \<open>The table \<^verbatim>\<open>fuseserver_oper\<close>.\<close>

datatype fuse_request =
    Fuse_Getattr u32 | Fuse_Setattr u32 u64 bool | Fuse_Read u32 u32 u64 | Fuse_Write u32 string u64 | Fuse_Create u32 string
  | Fuse_Mknod u32 string | Fuse_Lookup u32 string | Fuse_Readdir u32 u32 nat | Fuse_Open u32 | Fuse_Mkdir u32 string
  | Fuse_Unlink u32 string | Fuse_Statfs

fun fuseserver_oper ::
  "nat \<Rightarrow> (nat \<Rightarrow> nat) \<Rightarrow> (string \<Rightarrow> u32 \<Rightarrow> u32 \<Rightarrow> string) \<Rightarrow> 'w clients \<Rightarrow> junk \<Rightarrow> fuse_request \<Rightarrow> ('w yfs, reply list) act" where
  "fuseserver_oper mx dsize dirent cl j (Fuse_Getattr ino) = fuseserver_getattr cl j ino"
| "fuseserver_oper mx dsize dirent cl j Fuse_Statfs = fuseserver_statfs"
| "fuseserver_oper mx dsize dirent cl j (Fuse_Readdir ino sz off) = fuseserver_readdir dsize dirent cl ino sz off"
| "fuseserver_oper mx dsize dirent cl j (Fuse_Lookup parent name) = fuseserver_lookup cl j parent name"
| "fuseserver_oper mx dsize dirent cl j (Fuse_Create parent name) = fuseserver_create cl j parent name"
| "fuseserver_oper mx dsize dirent cl j (Fuse_Mknod parent name) = fuseserver_mknod cl j parent name"
| "fuseserver_oper mx dsize dirent cl j (Fuse_Open ino) = fuseserver_open"
| "fuseserver_oper mx dsize dirent cl j (Fuse_Read ino sz off) = fuseserver_read cl j ino sz off"
| "fuseserver_oper mx dsize dirent cl j (Fuse_Write ino buf off) = fuseserver_write cl j ino buf off"
| "fuseserver_oper mx dsize dirent cl j (Fuse_Setattr ino n set_size) = fuseserver_setattr mx cl j ino n set_size"
| "fuseserver_oper mx dsize dirent cl j (Fuse_Unlink parent name) = fuseserver_unlink cl parent name"
| "fuseserver_oper mx dsize dirent cl j (Fuse_Mkdir parent name) = fuseserver_mkdir cl j parent name"

section \<open>Replies\<close>

text \<open>\<open>answers m P\<close>: when the action returns, its result satisfies \<open>P\<close>.\<close>

definition answers :: "('w, 'a) act \<Rightarrow> ('a \<Rightarrow> bool) \<Rightarrow> bool" where
  "answers m P \<longleftrightarrow> (\<forall>w w' a. m w = Some (Inr (w', a)) \<longrightarrow> P a)"

named_theorems answers_intros \<open>replies of compound actions\<close>

lemma answers_ret [answers_intros]: "P a \<Longrightarrow> answers (aret a) P"
  by (simp add: answers_def aret_def)

lemma answers_bind [answers_intros]: "(\<And>a. answers (f a) P) \<Longrightarrow> answers (abind m f) P"
  by (auto simp: answers_def abind_def split: option.splits sum.splits)

lemma answers_if [answers_intros]: "(b \<Longrightarrow> answers m P) \<Longrightarrow> (\<not> b \<Longrightarrow> answers m' P) \<Longrightarrow> answers (if b then m else m') P"
  by simp

lemma answers_case [answers_intros]:
  "answers m P \<Longrightarrow> (\<And>a. answers (f a) P) \<Longrightarrow> answers (case x of None \<Rightarrow> m | Some a \<Rightarrow> f a) P"
  "(\<And>a b. answers (g a b) P) \<Longrightarrow> answers (case z of (a, b) \<Rightarrow> g a b) P"
  by (auto split: option.split prod.split)

lemmas fuseserver_defs = fuseserver_getattr_def fuseserver_setattr_def fuseserver_read_def fuseserver_write_def fuseserver_create_def
  fuseserver_mknod_def fuseserver_lookup_def fuseserver_readdir_def fuseserver_open_def fuseserver_mkdir_def fuseserver_unlink_def
  fuseserver_statfs_def

definition sets_size :: "fuse_request \<Rightarrow> bool" where
  "sets_size req = (case req of Fuse_Setattr ino n b \<Rightarrow> b \<and> yfs_isfile (ucast ino) | _ \<Rightarrow> False)"

lemma one_reply: "\<not> sets_size req \<Longrightarrow> answers (fuseserver_oper mx dsize dirent cl j req) (\<lambda>rs. length rs = 1)"
  by (cases req) (auto simp: fuseserver_defs sets_size_def intro!: answers_intros)

text \<open>
  C17. Every request of the kernel is answered exactly once, whatever the servers answer, with one exception: a request to set
  the size of a file is not answered at all exactly when \<^verbatim>\<open>yfs_client::resize\<close> fails.
\<close>

theorem fuse_answers_once:
  assumes "fuseserver_oper mx dsize dirent cl j req y = Some (Inr (y', rs))"
  shows "length rs = (if \<exists>ino n y1 r. req = Fuse_Setattr ino n True \<and> yfs_isfile (ucast ino) \<and>
    yfs_resize mx cl (ucast ino) (ucast n) y = Some (Inr (y1, r)) \<and> r \<noteq> y_OK then 0 else 1)"
proof (cases "sets_size req")
  case False
  then have "length rs = 1" using one_reply [OF False, of mx dsize dirent cl j] assms unfolding answers_def by blast
  with False show ?thesis by (auto simp: sets_size_def)
next
  case True
  then obtain ino n where req: "req = Fuse_Setattr ino n True" "yfs_isfile (ucast ino)" by (cases req) (auto simp: sets_size_def)
  then obtain y1 r where r: "yfs_resize mx cl (ucast ino) (ucast n) y = Some (Inr (y1, r))"
      "(if r = y_OK then abind (fuse_getattr cl j (ucast ino)) (\<lambda>(r, st). aret (if r = y_OK then [Reply_Attr st] else [Reply_Err EIO])) else aret []) y1 =
        Some (Inr (y', rs))"
    using assms by (auto simp: fuseserver_setattr_def abind_def split: option.splits sum.splits)
  have "answers (abind (fuse_getattr cl j (ucast ino)) (\<lambda>(r, st). aret (if r = y_OK then [Reply_Attr st] else [Reply_Err EIO]))) (\<lambda>rs. length rs = 1)"
    by (intro answers_intros) simp
  with r(2) have "length rs = (if r \<noteq> y_OK then 0 else 1)" by (cases "r = y_OK") (auto simp: answers_def aret_def)
  with req r(1) show ?thesis by simp
qed

definition demo_junk :: junk where
  "demo_junk = \<lparr>j_attr = no_attr, j_file = \<lparr>fi_size = 0, fi_atime = 0, fi_mtime = 0, fi_ctime = 0\<rparr>,
     j_dir = \<lparr>di_atime = 0, di_mtime = 0, di_ctime = 0\<rparr>, j_inum = 0, j_size = 0, j_stat = stat_zero\<rparr>"

theorem fuse_answers_once_witness:
  "\<exists>y'. fuseserver_oper 100 (\<lambda>n. n) (\<lambda>n _ _. n) (demo_clients\<lparr>c_acquire := (\<lambda>_ w. Some (Inr (w, lk_IOERR)))\<rparr>) demo_junk
       (Fuse_Setattr 0x80000005 0 True) \<lparr>yw = [], yrnd = (\<lambda>_. 7), ypos = 0\<rparr> = Some (Inr (y', [])) \<and> length ([] :: reply list) = 0"
proof -
  let ?y = "\<lparr>yw = [], yrnd = (\<lambda>_. 7), ypos = 0\<rparr> :: string yfs"
  let ?cl = "demo_clients\<lparr>c_acquire := (\<lambda>_ w. Some (Inr (w, lk_IOERR)))\<rparr>"
  have f: "yfs_isfile (ucast (0x80000005 :: u32))" by (simp add: yfs_isfile_def)
  have "fuseserver_oper 100 (\<lambda>n. n) (\<lambda>n _ _. n) ?cl demo_junk (Fuse_Setattr 0x80000005 0 True) ?y = Some (Inr (?y, []))"
    using f by (simp add: fuseserver_setattr_def yfs_resize_def abind_def aret_def lcall_def demo_clients_def stat2yfs_def lk_status_defs y_status_defs)
  with fuse_answers_once [OF this] show ?thesis by (auto split: if_splits)
qed

section \<open>On the file system put together\<close>

lemma fuse_getattr_file:
  assumes "w_inv env (yw y)" "w_held env (yw y) = {}" "w_content (yw y) (ext_key i) \<noteq> None" "yfs_isfile i"
  shows "\<exists>y' st. fuse_getattr (yfs_clients env) j i y = Some (Inr (y', y_OK, st)) \<and> st_mode st = Reg_0666 \<and> st_ino st = i \<and>
    w_moves env y (w_content (yw y)) y' \<and> yrnd y' = yrnd y \<and> ypos y' = ypos y"
proof -
  obtain y' info where "yfs_getfile (yfs_clients env) (j_attr j) i (j_file j) y = Some (Inr (y', y_OK, info))" "yw.moves env y (w_content (yw y)) (ypos y) y'"
    using yw.getfile_spec [of env y i "j_attr j" "j_file j"] assms(1-3) by auto
  then show ?thesis using assms(4) by (simp add: fuse_getattr_def Let_def aret_def stat_zero_def w_moves_def yw.moves_def)
qed

text \<open>The two handlers that reply with an entry, after the call of the client that found or made the file \<open>i\<close>.\<close>

lemma create_reply:
  assumes c: "yfs_create (yfs_clients env) (ucast parent) name (j_inum j) y = Some (Inr (y0, r, i))" "r = y_OK \<or> r = y_EXIST"
    and inv: "w_inv env (yw y0)" "w_held env (yw y0) = {}" "w_content (yw y0) (ext_key i) \<noteq> None"
    and i: "yfs_isfile i" "ucast (ucast i :: u32) = i"
  shows "\<exists>y1 e. fuseserver_create (yfs_clients env) j parent name y = Some (Inr (y1, [Reply_Create e])) \<and> ep_ino e = ucast i \<and>
    w_moves env y0 (w_content (yw y0)) y1"
proof -
  obtain y1 st where "fuse_getattr (yfs_clients env) j i y0 = Some (Inr (y1, y_OK, st))" "w_moves env y0 (w_content (yw y0)) y1"
    using fuse_getattr_file [OF inv i(1), of j] by blast
  then show ?thesis using c i(2) by (simp add: fuseserver_create_def fuseserver_createhelper_def abind_assoc aret_def)
qed

lemma lookup_reply:
  assumes c: "yfs_lookup (yfs_clients env) (ucast parent) name y = Some (Inr (y0, y_OK, Some i))"
    and inv: "w_inv env (yw y0)" "w_held env (yw y0) = {}" "w_content (yw y0) (ext_key i) \<noteq> None"
    and i: "yfs_isfile i" "ucast (ucast i :: u32) = i"
  shows "\<exists>y1 e. fuseserver_lookup (yfs_clients env) j parent name y = Some (Inr (y1, [Reply_Entry e])) \<and> ep_ino e = ucast i \<and>
    st_mode (ep_attr e) = Reg_0666 \<and> w_moves env y0 (w_content (yw y0)) y1"
proof -
  obtain y1 st where "fuse_getattr (yfs_clients env) j i y0 = Some (Inr (y1, y_OK, st))" "w_moves env y0 (w_content (yw y0)) y1" "st_mode st = Reg_0666"
    using fuse_getattr_file [OF inv i(1), of j] by blast
  then show ?thesis using c i(2) by (simp add: fuseserver_lookup_def aret_def)
qed



text \<open>
  A read near the end of a file replies with as many bytes as were asked for: those of the file first, and then bytes of
  the buffer that nothing has written.
\<close>

lemma fuse_read_unwritten_bytes:
  assumes "w_inv env (yw y)" "w_held env (yw y) = {}" "yfs_isfile (ucast ino)" "w_content (yw y) (ext_key (ucast ino)) = Some c"
    and "unat off < length c" "unat off < 2 ^ 32" "unat sz < ext_limit"
  shows "\<exists>y'. fuseserver_read (yfs_clients env) j ino sz off y =
      Some (Inr (y', [Reply_Buf (map Some (take (unat sz) (drop (unat off) c)) @ replicate (unat sz - (length c - unat off)) None)]))"
proof -
  obtain y1 info where y1: "yfs_getfile (yfs_clients env) (j_attr j) (ucast ino) (j_file j) y = Some (Inr (y1, y_OK, info))"
      "yw.moves env y (w_content (yw y)) (ypos y) y1"
    using yw.getfile_spec [of env y "ucast ino" "j_attr j" "j_file j"] assms(1,2,4) by auto
  have i1: "w_inv env (yw y1)" "w_content (yw y1) (ext_key (ucast ino)) = Some c" using y1(2) assms(4) by (simp_all add: yw.moves_def)
  obtain y2 where y2: "yfs_read (yfs_clients env) (ucast ino) sz off y1 = Some (Inr (y2, y_OK, Some (take (unat sz) (drop (unat off) c))))"
    using yw.read_spec [OF i1 assms(5,6,7)] by blast
  have "unat sz - min (unat sz) (length c - unat off) = unat sz - (length c - unat off)" by simp
  then show ?thesis
    using y1(1) y2 assms(3) by (simp add: fuseserver_read_def aret_def read_buffer_def min.commute)
qed

definition file_yfs :: "world yfs" where
  "file_yfs = demo_yfs\<lparr>yw := (yw demo_yfs)\<lparr>w_ext := [0x80000005 \<mapsto> \<lparr>st_buf = ''ab'', st_a = no_attr\<rparr>]\<rparr>\<rparr>"

lemma fuse_read_unwritten_bytes_example:
  "\<exists>y'. fuseserver_read (yfs_clients demo_env) demo_junk 0x80000005 4 1 file_yfs = Some (Inr (y', [Reply_Buf [Some (CHR ''b''), None, None, None]]))"
proof -
  have inv: "w_inv demo_env (yw file_yfs)" "w_held demo_env (yw file_yfs) = {}"
    using demo_yfs_inv(1,2) by (simp_all add: file_yfs_def w_inv_def w_held_def)
  have f: "yfs_isfile (ucast (0x80000005 :: u32))" by (simp add: yfs_isfile_def)
  have c: "w_content (yw file_yfs) (ext_key (ucast (0x80000005 :: u32))) = Some ''ab''"
    by (simp add: file_yfs_def w_content_def content_def ext_key_def)
  have l: "unat (1 :: u64) < length ''ab''" "unat (1 :: u64) < 2 ^ 32" "unat (4 :: u32) < ext_limit" by (simp_all add: ext_limit_def)
  have "map Some (take (unat (4 :: u32)) (drop (unat (1 :: u64)) ''ab'')) @ replicate (unat (4 :: u32) - (length ''ab'' - unat (1 :: u64))) None =
      [Some (CHR ''b''), None, None, None]"
    by code_simp
  then show ?thesis using fuse_read_unwritten_bytes [OF inv f c l, of demo_junk] by simp
qed

end
